(* ===== verification/Prelude.thy ===== *)
theory Prelude
  imports Main "HOL-Library.AList" "HOL-Library.Word"
begin

section \<open>Shared vocabulary: results, maps, durations\<close>

text \<open>
  What every component uses of the language and its standard library: \<open>Result\<close>,
  \<open>HashMap\<close> and \<open>BTreeMap\<close>, \<open>Duration\<close> and \<open>Instant\<close>, saturating arithmetic.

  A \<open>Result<A, E>\<close> is the sum \<open>'e + 'a\<close> (\<open>Err\<close> is \<open>Inl\<close>, \<open>Ok\<close> is \<open>Inr\<close>). A
  \<open>HashMap\<close> is an association list with distinct keys whose order stands for the
  unspecified iteration order. A \<open>BTreeMap\<close> is an association list whose keys ascend.
  A byte string and a \<open>String\<close> are both lists of bytes (\<open>char list\<close>); \<open>String\<close>s hold
  UTF-8 (theory Text). A \<open>Duration\<close> and an \<open>Instant\<close> count nanoseconds.
\<close>

named_theorems step_simps \<open>unfolding equations of the operations\<close>
named_theorems inv_intros \<open>what each operation keeps of an invariant\<close>
named_theorems map_laws \<open>lookups after updates of the standard library's maps\<close>

subsection \<open>Results\<close>

type_synonym ('e, 'a) rresult = "'e + 'a"

abbreviation Ok :: "'a \<Rightarrow> ('e, 'a) rresult" where "Ok \<equiv> Inr"
abbreviation Err :: "'e \<Rightarrow> ('e, 'a) rresult" where "Err \<equiv> Inl"

fun map_err :: "('e \<Rightarrow> 'f) \<Rightarrow> ('e, 'a) rresult \<Rightarrow> ('f, 'a) rresult" where
  "map_err f (Inl e) = Inl (f e)"
| "map_err f (Inr a) = Inr a"

fun and_then :: "('e, 'a) rresult \<Rightarrow> ('a \<Rightarrow> ('e, 'b) rresult) \<Rightarrow> ('e, 'b) rresult" where
  "and_then (Inl e) k = Inl e"
| "and_then (Inr a) k = k a"

fun is_ok :: "('e, 'a) rresult \<Rightarrow> bool" where
  "is_ok (Inl e) = False"
| "is_ok (Inr a) = True"

fun result_ok :: "('e, 'a) rresult \<Rightarrow> 'a option" where
  "result_ok (Inl e) = None"
| "result_ok (Inr a) = Some a"

lemma map_err_Ok_iff [simp]: "map_err f r = Inr a \<longleftrightarrow> r = Inr a"
  by (cases r) auto

lemma map_err_Err_iff [simp]: "map_err f r = Inl e \<longleftrightarrow> (\<exists>d. r = Inl d \<and> e = f d)"
  by (cases r) auto

lemma and_then_Ok_iff: "and_then r k = Inr b \<longleftrightarrow> (\<exists>a. r = Inr a \<and> k a = Inr b)"
  by (cases r) auto

lemma and_then_Err_iff:
  "and_then r k = Inl e \<longleftrightarrow> r = Inl e \<or> (\<exists>a. r = Inr a \<and> k a = Inl e)"
  by (cases r) auto

lemma is_ok_iff: "is_ok r \<longleftrightarrow> (\<exists>a. r = Inr a)"
  by (cases r) auto

subsection \<open>The map interface and its two implementations\<close>

text \<open>
  What the code relies on of a standard map, as an interface: lookup after insert and
  after remove, and the entries' keys staying distinct. \<open>HashMap\<close> and \<open>BTreeMap\<close> both
  provide it; the ordered one also keeps its keys ascending.
\<close>

locale std_map =
  fixes insert_entry :: "'k \<Rightarrow> 'v \<Rightarrow> ('k \<times> 'v) list \<Rightarrow> ('k \<times> 'v) list"
    and remove_entry :: "'k \<Rightarrow> ('k \<times> 'v) list \<Rightarrow> ('k \<times> 'v) list"
    and well_formed :: "('k \<times> 'v) list \<Rightarrow> bool"
  assumes wf_empty: "well_formed []"
    and wf_insert: "well_formed m \<Longrightarrow> well_formed (insert_entry k v m)"
    and wf_remove: "well_formed m \<Longrightarrow> well_formed (remove_entry k m)"
    and wf_distinct: "well_formed m \<Longrightarrow> distinct (map fst m)"
    and lookup_insert: "well_formed m \<Longrightarrow> map_of (insert_entry k v m) = (map_of m)(k \<mapsto> v)"
    and lookup_remove: "well_formed m \<Longrightarrow> map_of (remove_entry k m) = (map_of m)(k := None)"
begin

lemma keys_insert:
  assumes "well_formed m"
  shows "fst ` set (insert_entry k v m) = insert k (fst ` set m)"
proof -
  have "dom (map_of (insert_entry k v m)) = insert k (dom (map_of m))"
    using assms by (simp add: lookup_insert)
  then show ?thesis by (simp add: dom_map_of_conv_image_fst)
qed

lemma keys_remove:
  assumes "well_formed m"
  shows "fst ` set (remove_entry k m) = fst ` set m - {k}"
proof -
  have "dom (map_of (remove_entry k m)) = dom (map_of m) - {k}"
    using assms by (simp add: lookup_remove)
  then show ?thesis by (simp add: dom_map_of_conv_image_fst)
qed

lemma entry_iff_lookup:
  assumes "well_formed m"
  shows "e \<in> set m \<longleftrightarrow> map_of m (fst e) = Some (snd e)"
proof -
  have "(fst e, snd e) \<in> set m \<longleftrightarrow> map_of m (fst e) = Some (snd e)"
    using wf_distinct [OF assms] by (simp only: map_of_eq_Some_iff [symmetric] eq_commute)
  then show ?thesis by simp
qed

lemma entries_insert:
  assumes "well_formed m"
  shows "set (insert_entry k v m) = insert (k, v) {e \<in> set m. fst e \<noteq> k}"
proof (rule set_eqI)
  fix e
  show "e \<in> set (insert_entry k v m) \<longleftrightarrow> e \<in> insert (k, v) {e \<in> set m. fst e \<noteq> k}"
    unfolding entry_iff_lookup [OF wf_insert [OF assms]] lookup_insert [OF assms]
      insert_iff mem_Collect_eq entry_iff_lookup [OF assms]
    by (cases "fst e = k") (auto simp: prod_eq_iff)
qed

lemma entries_remove:
  assumes "well_formed m"
  shows "set (remove_entry k m) = {e \<in> set m. fst e \<noteq> k}"
proof (rule set_eqI)
  fix e
  show "e \<in> set (remove_entry k m) \<longleftrightarrow> e \<in> {e \<in> set m. fst e \<noteq> k}"
    unfolding entry_iff_lookup [OF wf_remove [OF assms]] lookup_remove [OF assms]
      mem_Collect_eq entry_iff_lookup [OF assms]
    by simp
qed

lemma length_remove:
  assumes "well_formed m" and "map_of m k = Some v"
  shows "Suc (length (remove_entry k m)) = length m"
proof -
  have "length m = card (fst ` set m)"
    using wf_distinct [OF assms(1)] by (metis distinct_card length_map list.set_map)
  moreover have "length (remove_entry k m) = card (fst ` set (remove_entry k m))"
    using wf_distinct [OF wf_remove [OF assms(1)]] by (metis distinct_card length_map list.set_map)
  moreover have "k \<in> fst ` set m"
    using assms(2) by (metis domI dom_map_of_conv_image_fst)
  ultimately show ?thesis
    using assms(1) by (simp only: keys_remove card_Suc_Diff1 finite_imageI finite_set)
qed

lemma length_insert_fresh:
  assumes "well_formed m" and "map_of m k = None"
  shows "length (insert_entry k v m) = Suc (length m)"
proof -
  have "length m = card (fst ` set m)"
    using wf_distinct [OF assms(1)] by (metis distinct_card length_map list.set_map)
  moreover have "length (insert_entry k v m) = card (fst ` set (insert_entry k v m))"
    using wf_distinct [OF wf_insert [OF assms(1)]] by (metis distinct_card length_map list.set_map)
  moreover have "k \<notin> fst ` set m"
    using assms(2) by (simp add: map_of_eq_None_iff)
  ultimately show ?thesis
    using assms(1) by (simp add: keys_insert)
qed

end

locale std_ordered_map = std_map insert_entry remove_entry well_formed
  for insert_entry :: "'k::linorder \<Rightarrow> 'v \<Rightarrow> ('k \<times> 'v) list \<Rightarrow> ('k \<times> 'v) list"
    and remove_entry and well_formed +
  assumes wf_ascending: "well_formed m \<Longrightarrow> sorted_wrt (<) (map fst m)"
begin

lemma first_is_least:
  assumes "well_formed ((k, v) # m)" and "(k', v') \<in> set m"
  shows "k < k'"
  using wf_ascending [OF assms(1)] assms(2) by force

end

text \<open>\<open>HashMap\<close>: \<open>insert\<close> replaces in place or appends, \<open>remove\<close> deletes.\<close>

definition hash_wf :: "('k \<times> 'v) list \<Rightarrow> bool" where
  "hash_wf m \<longleftrightarrow> distinct (map fst m)"

definition hash_insert :: "'k \<Rightarrow> 'v \<Rightarrow> ('k \<times> 'v) list \<Rightarrow> ('k \<times> 'v) list" where
  "hash_insert k v m = AList.update k v m"

definition hash_remove :: "'k \<Rightarrow> ('k \<times> 'v) list \<Rightarrow> ('k \<times> 'v) list" where
  "hash_remove k m = AList.delete k m"

interpretation hm: std_map hash_insert hash_remove hash_wf
  by unfold_locales
    (simp_all add: hash_wf_def hash_insert_def hash_remove_def update_conv' delete_conv'
      distinct_update distinct_delete)

text \<open>\<open>BTreeMap\<close>: \<open>insert\<close> at the key's place in the ascending order.\<close>

definition btree_wf :: "('k::linorder \<times> 'v) list \<Rightarrow> bool" where
  "btree_wf m \<longleftrightarrow> sorted_wrt (<) (map fst m)"

fun btree_insert :: "'k::linorder \<Rightarrow> 'v \<Rightarrow> ('k \<times> 'v) list \<Rightarrow> ('k \<times> 'v) list" where
  "btree_insert k v [] = [(k, v)]"
| "btree_insert k v ((k', v') # m) =
     (if k < k' then (k, v) # (k', v') # m
      else if k' < k then (k', v') # btree_insert k v m
      else (k, v) # m)"

fun btree_remove :: "'k \<Rightarrow> ('k \<times> 'v) list \<Rightarrow> ('k \<times> 'v) list" where
  "btree_remove k [] = []"
| "btree_remove k ((k', v') # m) = (if k = k' then m else (k', v') # btree_remove k m)"

lemma btree_insert_keys: "fst ` set (btree_insert k v m) = insert k (fst ` set m)"
  by (induction k v m rule: btree_insert.induct) (auto simp: not_less)

lemma btree_remove_sub: "set (btree_remove k m) \<subseteq> set m"
  by (induction m rule: btree_remove.induct) auto

lemma btree_wf_insert: "btree_wf m \<Longrightarrow> btree_wf (btree_insert k v m)"
proof (induction k v m rule: btree_insert.induct)
  case (2 k v k' v' m)
  have "fst ` set (btree_insert k v m) = insert k (fst ` set m)"
    by (rule btree_insert_keys)
  with 2 show ?case
    by (fastforce simp: btree_wf_def not_less)
qed (simp add: btree_wf_def)

lemma btree_wf_remove: "btree_wf m \<Longrightarrow> btree_wf (btree_remove k m)"
proof (induction m rule: btree_remove.induct)
  case (2 k k' v' m)
  then show ?case using btree_remove_sub [of k m] by (force simp: btree_wf_def)
qed (simp add: btree_wf_def)

lemma btree_lookup_insert: "map_of (btree_insert k v m) = (map_of m)(k \<mapsto> v)"
  by (induction k v m rule: btree_insert.induct) (auto simp: fun_eq_iff not_less)

lemma btree_lookup_remove:
  "btree_wf m \<Longrightarrow> map_of (btree_remove k m) = (map_of m)(k := None)"
proof (induction m rule: btree_remove.induct)
  case (2 k k' v' m)
  have "map_of m k' = None"
    using "2.prems" by (force simp: btree_wf_def map_of_eq_None_iff)
  with 2 show ?case by (auto simp: fun_eq_iff btree_wf_def)
qed simp

lemma btree_wf_distinct: "btree_wf m \<Longrightarrow> distinct (map fst m)"
  by (induction m) (auto simp: btree_wf_def)

interpretation bt: std_ordered_map btree_insert btree_remove btree_wf
  by unfold_locales
    (simp_all add: btree_wf_insert btree_wf_remove btree_lookup_insert btree_lookup_remove
      btree_wf_distinct, simp_all add: btree_wf_def)

lemmas hash_laws [map_laws] =
  hm.wf_empty hm.wf_insert hm.wf_remove hm.lookup_insert hm.lookup_remove
lemmas btree_laws [map_laws] =
  bt.wf_empty bt.wf_insert bt.wf_remove bt.lookup_insert bt.lookup_remove

lemma hash_wf_filter: "hash_wf m \<Longrightarrow> hash_wf (filter P m)"
  unfolding hash_wf_def by (induction m) auto

subsection \<open>Machine integers\<close>

definition U32_MAX :: nat where "U32_MAX = 2 ^ 32 - 1"
definition U64_MAX :: nat where "U64_MAX = 2 ^ 64 - 1"
definition I32_MAX :: nat where "I32_MAX = 2 ^ 31 - 1"

text \<open>\<open>u32::saturating_add\<close>.\<close>

definition u32_saturating_add :: "nat \<Rightarrow> nat \<Rightarrow> nat" where
  "u32_saturating_add a b = min (a + b) U32_MAX"

text \<open>\<open>i32::try_from(n).unwrap_or(i32::MAX)\<close> of an unsigned number.\<close>

definition i32_or_max :: "nat \<Rightarrow> nat" where
  "i32_or_max n = (if n \<le> I32_MAX then n else I32_MAX)"

lemma i32_or_max_le: "i32_or_max n \<le> n"
  by (simp add: i32_or_max_def)

lemma i32_or_max_small: "n \<le> I32_MAX \<Longrightarrow> i32_or_max n = n"
  by (simp add: i32_or_max_def)

subsection \<open>Durations and instants\<close>

text \<open>
  Both count nanoseconds. Subtraction on \<open>nat\<close> stops at zero, which is
  \<open>Duration::saturating_sub\<close> and \<open>Instant::duration_since\<close>. A \<open>Duration\<close> is at most
  \<open>u64::MAX\<close> seconds and 999999999 nanoseconds.
\<close>

type_synonym duration = nat
type_synonym instant = nat

definition NANOS :: nat where "NANOS = 1000000000"

definition DURATION_MAX :: duration where "DURATION_MAX = (U64_MAX + 1) * NANOS - 1"

definition from_secs :: "nat \<Rightarrow> duration" where "from_secs s = s * NANOS"
definition from_millis :: "nat \<Rightarrow> duration" where "from_millis s = s * 1000000"
definition from_mins :: "nat \<Rightarrow> duration" where "from_mins m = from_secs (60 * m)"
definition from_hours :: "nat \<Rightarrow> duration" where "from_hours h = from_secs (3600 * h)"
definition as_secs :: "duration \<Rightarrow> nat" where "as_secs d = d div NANOS"
definition subsec_nanos :: "duration \<Rightarrow> nat" where "subsec_nanos d = d mod NANOS"

lemmas duration_defs = from_secs_def from_millis_def from_mins_def from_hours_def as_secs_def
  subsec_nanos_def NANOS_def

lemma NANOS_pos [simp]: "0 < NANOS"
  by (simp add: NANOS_def)

lemma as_secs_from_secs [simp]: "as_secs (from_secs s) = s"
  by (simp add: duration_defs)

lemma as_secs_le: "as_secs d * NANOS \<le> d"
  by (simp add: as_secs_def)

lemma from_secs_eq_0 [simp]: "from_secs s = 0 \<longleftrightarrow> s = 0"
  by (simp add: from_secs_def NANOS_def)

lemma from_secs_mono: "a \<le> b \<Longrightarrow> from_secs a \<le> from_secs b"
  by (simp add: from_secs_def)

lemma from_secs_as_secs_le: "from_secs (as_secs d) \<le> d"
  by (simp add: from_secs_def as_secs_le)

lemma duration_parts: "d = from_secs (as_secs d) + subsec_nanos d"
  by (simp add: duration_defs)

end
