(* ===== verification/Text.thy ===== *)
theory Text
  imports Prelude "HOL-Library.Char_ord" "HOL-Library.Sublist"
begin

section \<open>Strings: UTF-8, the parts of \<open>str\<close> the crate uses, numbers in decimal and hex\<close>

text \<open>
  A \<open>String\<close> or \<open>&str\<close> is its list of UTF-8 bytes, so \<open>len\<close> is \<open>length\<close> and
  \<open>as_bytes\<close> is the identity; \<open>chars\<close> decodes. \<open>utf8_step\<close> reads one scalar value
  or the maximal invalid prefix, by the table \<open>core::str\<close> validates with; \<open>from_utf8\<close>
  and \<open>from_utf8_lossy\<close> are built on it.
\<close>

type_synonym bytes = "char list"

subsection \<open>Bytes\<close>

definition byte :: "char \<Rightarrow> nat" where
  "byte c = of_char c"

definition of_byte :: "nat \<Rightarrow> char" where
  "of_byte n = char_of n"

lemma byte_lt [simp]: "byte c < 256"
  by (simp add: byte_def)

lemma of_byte_byte [simp]: "of_byte (byte c) = c"
  by (simp add: byte_def of_byte_def)

lemma byte_of_byte: "n < 256 \<Longrightarrow> byte (of_byte n) = n"
  by (simp add: byte_def of_byte_def)

lemma byte_inject: "byte a = byte b \<longleftrightarrow> a = b"
  by (metis of_byte_byte)

definition is_ascii :: "char \<Rightarrow> bool" where
  "is_ascii c \<longleftrightarrow> byte c < 128"

definition is_ascii_digit :: "char \<Rightarrow> bool" where
  "is_ascii_digit c \<longleftrightarrow> 48 \<le> byte c \<and> byte c \<le> 57"

definition is_ascii_upper :: "char \<Rightarrow> bool" where
  "is_ascii_upper c \<longleftrightarrow> 65 \<le> byte c \<and> byte c \<le> 90"

definition is_ascii_lower :: "char \<Rightarrow> bool" where
  "is_ascii_lower c \<longleftrightarrow> 97 \<le> byte c \<and> byte c \<le> 122"

text \<open>\<open>char::is_ascii_alphanumeric\<close> and \<open>char::is_ascii_punctuation\<close>.\<close>

definition is_ascii_alphanumeric :: "char \<Rightarrow> bool" where
  "is_ascii_alphanumeric c \<longleftrightarrow> is_ascii_digit c \<or> is_ascii_upper c \<or> is_ascii_lower c"

definition is_ascii_punctuation :: "char \<Rightarrow> bool" where
  "is_ascii_punctuation c \<longleftrightarrow>
     33 \<le> byte c \<and> byte c \<le> 47 \<or> 58 \<le> byte c \<and> byte c \<le> 64 \<or>
     91 \<le> byte c \<and> byte c \<le> 96 \<or> 123 \<le> byte c \<and> byte c \<le> 126"

text \<open>\<open>str::to_ascii_lowercase\<close> and \<open>str::eq_ignore_ascii_case\<close>.\<close>

definition to_ascii_lower :: "char \<Rightarrow> char" where
  "to_ascii_lower c = (if is_ascii_upper c then of_byte (byte c + 32) else c)"

definition to_ascii_lowercase :: "string \<Rightarrow> string" where
  "to_ascii_lowercase s = map to_ascii_lower s"

definition eq_ignore_ascii_case :: "string \<Rightarrow> string \<Rightarrow> bool" where
  "eq_ignore_ascii_case a b \<longleftrightarrow> to_ascii_lowercase a = to_ascii_lowercase b"

subsection \<open>Prefixes, suffixes, splits\<close>

definition starts_with :: "string \<Rightarrow> string \<Rightarrow> bool" where
  "starts_with s p \<longleftrightarrow> take (length p) s = p"

definition ends_with :: "string \<Rightarrow> string \<Rightarrow> bool" where
  "ends_with s p \<longleftrightarrow> length p \<le> length s \<and> drop (length s - length p) s = p"

definition strip_suffix :: "string \<Rightarrow> string \<Rightarrow> string option" where
  "strip_suffix s p = (if ends_with s p then Some (take (length s - length p) s) else None)"

text \<open>\<open>str::split\<close> on one character: always at least one segment.\<close>

fun split_on :: "char \<Rightarrow> string \<Rightarrow> string list" where
  "split_on c [] = [[]]"
| "split_on c (x # xs) =
     (if x = c then [] # split_on c xs
      else case split_on c xs of [] \<Rightarrow> [[x]] | seg # segs \<Rightarrow> (x # seg) # segs)"

text \<open>\<open>str::find\<close> of a substring, and \<open>str::contains\<close>.\<close>

fun find_str :: "string \<Rightarrow> string \<Rightarrow> nat option" where
  "find_str p [] = (if p = [] then Some 0 else None)"
| "find_str p (x # xs) =
     (if starts_with (x # xs) p then Some 0 else map_option Suc (find_str p xs))"

definition contains_str :: "string \<Rightarrow> string \<Rightarrow> bool" where
  "contains_str s p \<longleftrightarrow> find_str p s \<noteq> None"

definition trim_end_matches :: "string \<Rightarrow> char \<Rightarrow> string" where
  "trim_end_matches s c = rev (dropWhile (\<lambda>x. x = c) (rev s))"

fun join_str :: "string \<Rightarrow> string list \<Rightarrow> string" where
  "join_str sep [] = []"
| "join_str sep [s] = s"
| "join_str sep (s # t # ss) = s @ sep @ join_str sep (t # ss)"

lemma starts_with_iff: "starts_with s p \<longleftrightarrow> (\<exists>r. s = p @ r)"
  by (auto simp: starts_with_def) (metis append_take_drop_id)

lemma ends_with_iff: "ends_with s p \<longleftrightarrow> (\<exists>r. s = r @ p)"
  by (auto simp: ends_with_def) (metis append_take_drop_id)

lemma ends_with_append [simp]: "ends_with (r @ p) p"
  by (auto simp: ends_with_iff)

lemma strip_suffix_append [simp]: "strip_suffix (r @ p) p = Some r"
  by (simp add: strip_suffix_def)

lemma strip_suffix_None: "strip_suffix s p = None \<longleftrightarrow> \<not> ends_with s p"
  by (simp add: strip_suffix_def)

lemma strip_suffix_Some: "strip_suffix s p = Some r \<longleftrightarrow> s = r @ p"
  by (auto simp: strip_suffix_def ends_with_iff)

lemma split_on_not_Nil [simp]: "split_on c s \<noteq> []"
  by (induction s) (auto split: list.splits)

lemma split_on_none: "c \<notin> set s \<Longrightarrow> split_on c s = [s]"
  by (induction s) auto

lemma split_on_append: "split_on c (s @ c # t) = split_on c s @ split_on c t"
  by (induction s) (auto split: list.splits simp: append_eq_Cons_conv)

subsection \<open>UTF-8\<close>

definition cont_byte :: "nat \<Rightarrow> bool" where
  "cont_byte b \<longleftrightarrow> 128 \<le> b \<and> b \<le> 191"

text \<open>What a leading byte promises: the number of continuation bytes and the range of the first.\<close>

definition utf8_lead :: "nat \<Rightarrow> (nat \<times> nat \<times> nat) option" where
  "utf8_lead b =
     (if 194 \<le> b \<and> b \<le> 223 then Some (1, 128, 191)
      else if b = 224 then Some (2, 160, 191)
      else if 225 \<le> b \<and> b \<le> 236 then Some (2, 128, 191)
      else if b = 237 then Some (2, 128, 159)
      else if b = 238 \<or> b = 239 then Some (2, 128, 191)
      else if b = 240 then Some (3, 144, 191)
      else if 241 \<le> b \<and> b \<le> 243 then Some (3, 128, 191)
      else if b = 244 then Some (3, 128, 143)
      else None)"

text \<open>One step of the decoder: a scalar value and its bytes, or the bytes of an invalid prefix.\<close>

datatype utf8_item = Scalar nat nat | Invalid nat

fun utf8_step :: "nat list \<Rightarrow> utf8_item" where
  "utf8_step [] = Invalid 1"
| "utf8_step (b # bs) =
     (if b < 128 then Scalar b 1
      else case utf8_lead b of None \<Rightarrow> Invalid 1
      | Some (n, lo, hi) \<Rightarrow>
          (case bs of [] \<Rightarrow> Invalid 1
           | c1 # cs1 \<Rightarrow>
               if c1 < lo \<or> hi < c1 then Invalid 1
               else if n = 1 then Scalar ((b mod 32) * 64 + c1 mod 64) 2
               else (case cs1 of [] \<Rightarrow> Invalid 2
                 | c2 # cs2 \<Rightarrow>
                     if \<not> cont_byte c2 then Invalid 2
                     else if n = 2
                     then Scalar ((b mod 16) * 4096 + (c1 mod 64) * 64 + c2 mod 64) 3
                     else (case cs2 of [] \<Rightarrow> Invalid 3
                       | c3 # _ \<Rightarrow>
                           if \<not> cont_byte c3 then Invalid 3
                           else Scalar ((b mod 8) * 262144 + (c1 mod 64) * 4096
                                  + (c2 mod 64) * 64 + c3 mod 64) 4))))"

fun item_len :: "utf8_item \<Rightarrow> nat" where
  "item_len (Scalar v n) = n"
| "item_len (Invalid n) = n"

lemma item_len_pos: "0 < item_len (utf8_step bs)"
  by (induction bs rule: utf8_step.induct) (auto split: option.splits list.splits)

text \<open>The text as a sequence of items; \<open>from_utf8\<close> accepts it when none is invalid.\<close>

function utf8_items :: "nat list \<Rightarrow> (utf8_item \<times> nat list) list" where
  "utf8_items bs =
     (if bs = [] then []
      else let it = utf8_step bs; n = item_len it
           in (it, take n bs) # utf8_items (drop n bs))"
  by pat_completeness auto
termination
  by (relation "measure length") (auto simp: item_len_pos)

declare utf8_items.simps [simp del]

definition item_valid :: "utf8_item \<times> nat list \<Rightarrow> bool" where
  "item_valid i = (case fst i of Scalar v n \<Rightarrow> True | Invalid n \<Rightarrow> False)"

definition from_utf8 :: "bytes \<Rightarrow> string option" where
  "from_utf8 bs = (if list_all item_valid (utf8_items (map byte bs)) then Some bs else None)"

definition utf8_ok :: "bytes \<Rightarrow> bool" where
  "utf8_ok bs \<longleftrightarrow> from_utf8 bs \<noteq> None"

fun item_scalar :: "utf8_item \<times> nat list \<Rightarrow> nat" where
  "item_scalar (Scalar v n, bs) = v"
| "item_scalar (Invalid n, bs) = 65533"

text \<open>\<open>str::chars\<close>: the scalar values of a string.\<close>

definition chars :: "string \<Rightarrow> nat list" where
  "chars s = map item_scalar (utf8_items (map byte s))"

text \<open>\<open>String::from_utf8_lossy\<close>: every invalid prefix becomes one U+FFFD.\<close>

definition from_utf8_lossy :: "bytes \<Rightarrow> string" where
  "from_utf8_lossy bs =
     concat (map (\<lambda>i. if item_valid i then map of_byte (snd i) else map of_byte [239, 191, 189])
       (utf8_items (map byte bs)))"

lemma from_utf8_Some: "from_utf8 bs = Some s \<longleftrightarrow> s = bs \<and> utf8_ok bs"
  by (auto simp: from_utf8_def utf8_ok_def)

lemma utf8_items_concat: "concat (map snd (utf8_items bs)) = bs"
proof (induction bs rule: utf8_items.induct)
  case (1 bs)
  then show ?case by (subst utf8_items.simps) (simp add: Let_def)
qed

lemma from_utf8_lossy_valid: "utf8_ok bs \<Longrightarrow> from_utf8_lossy bs = bs"
proof -
  assume "utf8_ok bs"
  then have all: "list_all item_valid (utf8_items (map byte bs))"
    by (simp add: utf8_ok_def from_utf8_def split: if_splits)
  have "from_utf8_lossy bs = concat (map (\<lambda>i. map of_byte (snd i)) (utf8_items (map byte bs)))"
    using all unfolding from_utf8_lossy_def list_all_iff
    by (intro arg_cong [where f = concat] map_cong) auto
  also have "\<dots> = map of_byte (concat (map snd (utf8_items (map byte bs))))"
    by (simp add: map_concat comp_def)
  finally show ?thesis by (simp add: utf8_items_concat comp_def)
qed

lemma utf8_items_ascii:
  "list_all (\<lambda>b. b < 128) bs \<Longrightarrow> utf8_items bs = map (\<lambda>b. (Scalar b 1, [b])) bs"
  by (induction bs) (subst utf8_items.simps; simp add: Let_def)+

lemma utf8_ok_ascii: "list_all is_ascii s \<Longrightarrow> utf8_ok s"
  by (auto simp: utf8_ok_def from_utf8_def list_all_iff is_ascii_def item_valid_def
      utf8_items_ascii)

lemma chars_ascii: "list_all is_ascii s \<Longrightarrow> chars s = map byte s"
  by (simp add: chars_def utf8_items_ascii list_all_iff is_ascii_def comp_def)

lemma utf8_ok_Nil [simp]: "utf8_ok []"
  by (simp add: utf8_ok_ascii)

subsection \<open>Whitespace and \<open>trim\<close>\<close>

definition is_whitespace :: "nat \<Rightarrow> bool" where
  "is_whitespace v \<longleftrightarrow> 9 \<le> v \<and> v \<le> 13 \<or> v = 32 \<or> v = 133 \<or> v = 160 \<or> v = 5760 \<or>
     8192 \<le> v \<and> v \<le> 8202 \<or> v = 8232 \<or> v = 8233 \<or> v = 8239 \<or> v = 8287 \<or> v = 12288"

definition trim :: "string \<Rightarrow> string" where
  "trim s =
     (let ws = (\<lambda>i. is_whitespace (item_scalar i));
          items = dropWhile ws (utf8_items (map byte s));
          kept = rev (dropWhile ws (rev items))
      in map of_byte (concat (map snd kept)))"

lemma trim_ascii:
  assumes "list_all is_ascii s" and "\<forall>c \<in> set s. \<not> is_whitespace (byte c)"
  shows "trim s = s"
proof -
  let ?ws = "\<lambda>i. is_whitespace (item_scalar i)"
  let ?its = "map ((\<lambda>b. (Scalar b 1, [b])) \<circ> byte) s"
  have its: "utf8_items (map byte s) = ?its"
    using assms(1) by (simp add: utf8_items_ascii list_all_iff is_ascii_def)
  have none: "\<forall>i \<in> set ?its. \<not> ?ws i"
    using assms(2) by auto
  have keep: "dropWhile ?ws xs = xs" if "\<forall>i \<in> set xs. \<not> ?ws i" for xs
    using that by (cases xs) auto
  have "dropWhile ?ws ?its = ?its" and "dropWhile ?ws (rev ?its) = rev ?its"
    using none by (auto intro!: keep)
  then have "trim s = map of_byte (concat (map snd ?its))"
    unfolding trim_def its by (simp only: Let_def rev_rev_ident)
  also have "\<dots> = s"
    by (induction s) auto
  finally show ?thesis .
qed

subsection \<open>Decimal and hexadecimal\<close>

text \<open>\<open>to_string\<close> of an unsigned integer.\<close>

fun show_nat :: "nat \<Rightarrow> string" where
  "show_nat n = (if n < 10 then [of_byte (48 + n)]
     else show_nat (n div 10) @ [of_byte (48 + n mod 10)])"

declare show_nat.simps [simp del]

text \<open>\<open>str::parse\<close> of an unsigned integer of the given width: an optional plus sign, then
  digits only, at least one, and no overflow.\<close>

fun digits_value :: "nat \<Rightarrow> string \<Rightarrow> nat option" where
  "digits_value acc [] = Some acc"
| "digits_value acc (c # cs) =
     (if is_ascii_digit c then digits_value (10 * acc + (byte c - 48)) cs else None)"

definition parse_uint :: "nat \<Rightarrow> string \<Rightarrow> nat option" where
  "parse_uint limit s =
     (let ds = (case s of [] \<Rightarrow> [] | c # cs \<Rightarrow> if c = CHR ''+'' then cs else s)
      in if ds = [] then None
         else case digits_value 0 ds of None \<Rightarrow> None
              | Some n \<Rightarrow> if n \<le> limit then Some n else None)"

definition hex_digit :: "nat \<Rightarrow> char" where
  "hex_digit d = (if d < 10 then of_byte (48 + d) else of_byte (87 + d))"

fun hex_fixed :: "nat \<Rightarrow> nat \<Rightarrow> string" where
  "hex_fixed 0 n = []"
| "hex_fixed (Suc w) n = hex_fixed w (n div 16) @ [hex_digit (n mod 16)]"

lemma show_nat_digits: "\<forall>c \<in> set (show_nat n). is_ascii_digit c"
proof (induction n rule: show_nat.induct)
  case (1 n)
  have digit: "is_ascii_digit (of_byte (48 + k))" if "k < 10" for k
    using that by (simp add: is_ascii_digit_def byte_of_byte)
  show ?case
  proof (cases "n < 10")
    case True
    then have "show_nat n = [of_byte (48 + n)]" by (subst show_nat.simps) simp
    with True digit show ?thesis by simp
  next
    case False
    then have "show_nat n = show_nat (n div 10) @ [of_byte (48 + n mod 10)]"
      by (subst show_nat.simps) simp
    with False 1 digit [of "n mod 10"] show ?thesis by auto
  qed
qed

lemma show_nat_not_Nil [simp]: "show_nat n \<noteq> []"
  by (subst show_nat.simps) auto

lemma digits_value_append:
  "digits_value acc (s @ t) = Option.bind (digits_value acc s) (\<lambda>a. digits_value a t)"
  by (induction s arbitrary: acc) auto

lemma digits_value_show: "digits_value 0 (show_nat n) = Some n"
proof (induction n rule: show_nat.induct)
  case (1 n)
  have d: "is_ascii_digit (of_byte (48 + k))" "byte (of_byte (48 + k)) = 48 + k" if "k < 10" for k
    using that by (auto simp: is_ascii_digit_def byte_of_byte)
  show ?case
  proof (cases "n < 10")
    case True
    then show ?thesis by (subst show_nat.simps) (simp add: d)
  next
    case False
    with 1 show ?thesis
      by (subst show_nat.simps) (simp add: digits_value_append d)
  qed
qed

lemma digit_ascii: "is_ascii_digit c \<Longrightarrow> is_ascii c \<and> \<not> is_whitespace (byte c)"
  by (auto simp: is_ascii_digit_def is_ascii_def is_whitespace_def)

lemma trim_show_nat [simp]: "trim (show_nat n) = show_nat n"
  using show_nat_digits [of n] by (auto intro!: trim_ascii simp: list_all_iff digit_ascii)

lemma parse_show:
  assumes "n \<le> limit"
  shows "parse_uint limit (show_nat n) = Some n"
proof -
  obtain c cs where s: "show_nat n = c # cs"
    by (cases "show_nat n") auto
  then have "is_ascii_digit c" using show_nat_digits [of n] by simp
  then have "c \<noteq> CHR ''+''" by (auto simp: is_ascii_digit_def byte_def)
  with s assms digits_value_show [of n] show ?thesis
    by (simp add: parse_uint_def)
qed

lemma parse_uint_le: "parse_uint limit s = Some n \<Longrightarrow> n \<le> limit"
  by (auto simp: parse_uint_def Let_def split: if_splits option.splits)

lemma length_hex_fixed [simp]: "length (hex_fixed w n) = w"
  by (induction w arbitrary: n) auto

lemma hex_digit_inject: "a < 16 \<Longrightarrow> b < 16 \<Longrightarrow> hex_digit a = hex_digit b \<Longrightarrow> a = b"
proof -
  assume ab: "a < 16" "b < 16" and eq: "hex_digit a = hex_digit b"
  have code: "byte (hex_digit d) = (if d < 10 then 48 + d else 87 + d)" if "d < 16" for d
    using that by (simp add: hex_digit_def byte_of_byte)
  from eq have "byte (hex_digit a) = byte (hex_digit b)" by simp
  with ab show ?thesis by (simp add: code split: if_splits)
qed

end
