(* ===== verification/Errors.thy ===== *)
theory Errors
  imports Text
begin

section \<open>The crate's error type (error.rs)\<close>

text \<open>
  \<open>SqsError\<close> with its variants and its \<open>Display\<close>. The boxed source of an error is a
  \<open>cause\<close>: a refusal of the in-process account (\<open>refusal\<close>, one constructor per message
  the account builds, carrying what the message carries), a literal reason the crate
  writes, or the rendering of an SDK error, which is code outside the repository and
  arrives as text.
\<close>

datatype refusal =
    BodyEmpty
  | BodyNotText
  | AttributeNameRefused string
  | AttributeValueEmpty string
  | MessageTooLarge nat nat
  | FifoIdRefused string string
  | QueueNameLength string
  | TopicNameLength string
  | MaxReceiveCountTooLarge nat
  | DeadLetterKindMismatch bool string
  | FifoQueueNeedsGroup
  | FifoSettingsOnStandardQueue
  | FifoTopicNeedsGroup
  | FifoSettingsOnStandardTopic
  | FifoQueueOnStandardTopic string
  | VisibilityTooLong
  | ReceiptNotInFlight
  | WindowExceeded nat nat
  | NegativeVisibility int

datatype cause =
    Refused refusal
  | Reason string
  | SdkFailure string

datatype sqs_error =
    ConfigError string
  | QueueError string cause
  | ReceiveError string cause
  | PublishError string cause
  | InvalidHeader string string cause
  | TooManyAttributes string nat nat "string option" "string list"
  | AdminError string cause
  | QueuePolicyError string string cause
  | NotConnected
  | InvalidQueue string
  | IncompleteRedrive string string string
  | NotFifo string string

text \<open>What settling a delivery reports: \<open>AckError::Broker\<close> with its source.\<close>

datatype ack_error = AckBroker cause

subsection \<open>Display\<close>

definition squoted :: "string \<Rightarrow> string" where
  "squoted s = CHR 0x27 # s @ [CHR 0x27]"

text \<open>The tail of the attribute-limit message: which attribute the crate added.\<close>

definition added_note :: "string option \<Rightarrow> string" where
  "added_note crate_added =
     (case crate_added of
        None \<Rightarrow> '', and the crate added none of its own''
      | Some name \<Rightarrow> '', and the crate added '' @ squoted name
          @ '' because the payload travels base64'')"

fun display_error :: "(cause \<Rightarrow> string) \<Rightarrow> sqs_error \<Rightarrow> string" where
  "display_error src (ConfigError m) = ''aws config error: '' @ m"
| "display_error src (QueueError name c) = ''sqs queue error for '' @ squoted name @ '': '' @ src c"
| "display_error src (ReceiveError q c) = ''sqs receive error on '' @ squoted q @ '': '' @ src c"
| "display_error src (PublishError d c) = ''publish error to '' @ squoted d @ '': '' @ src c"
| "display_error src (InvalidHeader d h c) =
     ''header '' @ squoted h @ '' cannot travel to '' @ squoted d @ '': '' @ src c"
| "display_error src (TooManyAttributes d count limit crate_added attributes) =
     squoted d @ '' takes at most '' @ show_nat limit
       @ '' message attributes, and this message needs '' @ show_nat count
       @ '' ('' @ join_str '', '' attributes @ ''): every header becomes one, except ''
       @ squoted ''partition-key'' @ '' on a FIFO destination'' @ added_note crate_added"
| "display_error src (AdminError name c) = ''sns admin error for '' @ squoted name @ '': '' @ src c"
| "display_error src (QueuePolicyError t q c) =
     ''granting topic '' @ squoted t @ '' the right to send to queue '' @ squoted q
       @ '' failed: '' @ src c"
| "display_error src NotConnected = ''sqs broker is not connected''"
| "display_error src (InvalidQueue m) = ''invalid sqs queue descriptor: '' @ m"
| "display_error src (IncompleteRedrive q declared missing) =
     ''the registration on '' @ squoted q @ '' declared '' @ declared @ '' without '' @ missing
       @ ''; the queue'' @ [CHR 0x27] @ ''s redrive policy needs max_attempts(..) and dead_letter(..) together''"
| "display_error src (NotFifo d setting) =
     squoted d @ '' is not a FIFO destination, so it cannot honour '' @ setting"

end
