(* ===== verification/Naming.thy ===== *)
theory Naming
  imports Errors
begin

section \<open>Names of queues and topics (broker.rs, publisher.rs, in\_process/bus.rs)\<close>

text \<open>
  The mapping of a logical destination onto the alphabet SQS and SNS take
  (\<open>resource_name\<close>), the suffix test that makes a destination FIFO (\<open>is_fifo\<close>), the keys
  the in-process account files queues and topics under (\<open>queue_key\<close>, \<open>topic_key\<close>), the
  queue URLs it hands out, the rebasing of a URL onto a configured endpoint, and the two
  small texts the crate exchanges with SQS: the redrive policy and the visibility timeout.
\<close>

subsection \<open>Definitions\<close>

definition FIFO_SUFFIX :: string where "FIFO_SUFFIX = ''.fifo''"

definition is_fifo :: "string \<Rightarrow> bool" where
  "is_fifo name = ends_with (to_ascii_lowercase name) FIFO_SUFFIX"

definition resource_char :: "nat \<Rightarrow> char" where
  "resource_char v =
     (if v < 128 \<and> (is_ascii_alphanumeric (of_byte v) \<or> of_byte v = CHR ''-'' \<or> of_byte v = CHR ''_'')
      then of_byte v else CHR ''-'')"

definition resource_name :: "string \<Rightarrow> string" where
  "resource_name logical =
     (let (stem, fifo) = (case strip_suffix logical FIFO_SUFFIX of
            None \<Rightarrow> (logical, '''') | Some stem \<Rightarrow> (stem, FIFO_SUFFIX))
      in map resource_char (chars stem) @ fifo)"

definition MAX_QUEUE_NAME :: nat where "MAX_QUEUE_NAME = 80"
definition MAX_TOPIC_NAME :: nat where "MAX_TOPIC_NAME = 256"
definition ACCOUNT_ID :: string where "ACCOUNT_ID = ''000000000000''"

definition is_url :: "string \<Rightarrow> bool" where
  "is_url name \<longleftrightarrow> starts_with name ''http://'' \<or> starts_with name ''https://''"

definition last_segment :: "string \<Rightarrow> string" where
  "last_segment name =
     (case find (\<lambda>seg. seg \<noteq> []) (rev (split_on (CHR ''/'') name)) of None \<Rightarrow> [] | Some seg \<Rightarrow> seg)"

definition queue_key :: "string \<Rightarrow> (refusal, string) rresult" where
  "queue_key name =
     (let key = (if is_url name then last_segment name else resource_name name)
      in if key = [] \<or> MAX_QUEUE_NAME < length key then Err (QueueNameLength key) else Ok key)"

definition topic_key :: "string \<Rightarrow> (refusal, string) rresult" where
  "topic_key name =
     (let key = (if starts_with name ''arn:'' then last (split_on (CHR '':'') name)
                 else resource_name name)
      in if key = [] \<or> MAX_TOPIC_NAME < length key then Err (TopicNameLength key) else Ok key)"

definition url_base_of :: "string option \<Rightarrow> string \<Rightarrow> string" where
  "url_base_of endpoint region =
     (case endpoint of
        None \<Rightarrow> ''https://sqs.'' @ region @ ''.amazonaws.com''
      | Some e \<Rightarrow> trim_end_matches e (CHR ''/''))"

definition queue_url_of :: "string \<Rightarrow> string \<Rightarrow> string" where
  "queue_url_of url_base key = url_base @ ''/'' @ ACCOUNT_ID @ ''/'' @ key"

definition rebase_url :: "string option \<Rightarrow> string \<Rightarrow> string" where
  "rebase_url endpoint url =
     (case endpoint of None \<Rightarrow> url
      | Some e \<Rightarrow>
          (case find_str ''//'' url of None \<Rightarrow> url
           | Some scheme_end \<Rightarrow>
               (case find_str ''/'' (drop (scheme_end + 2) url) of None \<Rightarrow> url
                | Some p \<Rightarrow> trim_end_matches e (CHR ''/'') @ drop (scheme_end + 2 + p) url)))"

definition redrive_policy :: "string \<Rightarrow> nat \<Rightarrow> string" where
  "redrive_policy dead_letter_arn max_receive_count =
     ''{\"deadLetterTargetArn\":\"'' @ dead_letter_arn @ ''\",\"maxReceiveCount\":\"''
       @ show_nat max_receive_count @ ''\"}''"

text \<open>The refusal of \<open>parse_visibility\<close>: the attribute is missing, or is not seconds.\<close>

datatype visibility_refusal = VisibilityMissing | VisibilityNotSeconds string

definition parse_visibility :: "string option \<Rightarrow> (visibility_refusal, duration) rresult" where
  "parse_visibility raw =
     (case raw of None \<Rightarrow> Err VisibilityMissing
      | Some r \<Rightarrow> (case parse_uint U64_MAX (trim r) of
            None \<Rightarrow> Err (VisibilityNotSeconds r)
          | Some secs \<Rightarrow> Ok (from_secs secs)))"

subsection \<open>The alphabet of a mapped name\<close>

definition name_char :: "char \<Rightarrow> bool" where
  "name_char c \<longleftrightarrow> is_ascii_alphanumeric c \<or> c = CHR ''-'' \<or> c = CHR ''_''"

lemma name_char_ascii: "name_char c \<Longrightarrow> is_ascii c"
  by (auto simp: name_char_def is_ascii_alphanumeric_def is_ascii_digit_def is_ascii_upper_def
      is_ascii_lower_def is_ascii_def byte_def)

lemma resource_char_name_char: "name_char (resource_char v)"
  by (auto simp: resource_char_def name_char_def)

lemma resource_char_fixed: "name_char c \<Longrightarrow> resource_char (byte c) = c"
  using name_char_ascii [of c] by (auto simp: resource_char_def name_char_def is_ascii_def)

lemma name_chars_fixed: "list_all name_char s \<Longrightarrow> map resource_char (chars s) = s"
proof -
  assume s: "list_all name_char s"
  then have "chars s = map byte s"
    by (intro chars_ascii) (auto simp: list_all_iff name_char_ascii)
  with s show ?thesis
    by (simp add: list_all_iff resource_char_fixed map_idI)
qed

lemma not_name_char [simp]:
  "\<not> name_char (CHR ''.'')" "\<not> name_char (CHR ''/'')" "\<not> name_char (CHR '':'')"
  by (simp_all add: name_char_def is_ascii_alphanumeric_def is_ascii_digit_def is_ascii_upper_def
      is_ascii_lower_def byte_def)

lemma no_fifo_suffix: "list_all name_char s \<Longrightarrow> \<not> ends_with s FIFO_SUFFIX"
  by (auto simp: ends_with_iff FIFO_SUFFIX_def)

lemma resource_name_plain:
  "\<not> ends_with s FIFO_SUFFIX \<Longrightarrow> resource_name s = map resource_char (chars s)"
  by (simp add: resource_name_def strip_suffix_def)

lemma resource_name_suffix:
  "resource_name (stem @ FIFO_SUFFIX) = map resource_char (chars stem) @ FIFO_SUFFIX"
  by (simp add: resource_name_def)

lemma mapped_name_chars: "list_all name_char (map resource_char vs)"
  by (simp add: list_all_iff resource_char_name_char)

text \<open>The shape of every mapped name: a stem over the services' alphabet, then the suffix the
  logical name had.\<close>

lemma resource_name_shape:
  "\<exists>stem. list_all name_char stem \<and>
     resource_name s = stem @ (if ends_with s FIFO_SUFFIX then FIFO_SUFFIX else [])"
proof (cases "ends_with s FIFO_SUFFIX")
  case False
  then show ?thesis
    using mapped_name_chars [of "chars s"] by (auto simp: resource_name_plain)
next
  case True
  then obtain stem where "s = stem @ FIFO_SUFFIX" by (auto simp: ends_with_iff)
  then show ?thesis
    using mapped_name_chars [of "chars stem"] by (auto simp: resource_name_suffix)
qed

lemma resource_name_fixed:
  assumes "list_all name_char stem" and "tl_part = [] \<or> tl_part = FIFO_SUFFIX"
  shows "resource_name (stem @ tl_part) = stem @ tl_part"
  using assms(2)
proof
  assume "tl_part = []"
  with assms(1) show ?thesis
    by (simp add: resource_name_plain no_fifo_suffix name_chars_fixed)
next
  assume "tl_part = FIFO_SUFFIX"
  with assms(1) show ?thesis
    by (simp add: resource_name_suffix name_chars_fixed)
qed

lemma lower_name_char: "name_char c \<Longrightarrow> name_char (to_ascii_lower c)"
  by (auto simp: name_char_def to_ascii_lower_def is_ascii_alphanumeric_def is_ascii_upper_def
      is_ascii_lower_def byte_of_byte)

lemma is_fifo_resource_name: "is_fifo (resource_name s) = ends_with s FIFO_SUFFIX"
proof -
  obtain stem where stem: "list_all name_char stem"
    and name: "resource_name s = stem @ (if ends_with s FIFO_SUFFIX then FIFO_SUFFIX else '''')"
    using resource_name_shape by blast
  have "\<not> ends_with (to_ascii_lowercase stem) FIFO_SUFFIX"
    using stem by (intro no_fifo_suffix)
      (auto simp: to_ascii_lowercase_def list_all_iff lower_name_char)
  moreover have "to_ascii_lowercase (stem @ FIFO_SUFFIX) = to_ascii_lowercase stem @ FIFO_SUFFIX"
    by (simp add: to_ascii_lowercase_def FIFO_SUFFIX_def to_ascii_lower_def is_ascii_upper_def
        byte_def)
  ultimately show ?thesis
    by (simp add: is_fifo_def name)
qed

lemma resource_name_chars:
  assumes "c \<in> set (resource_name s)"
  shows "name_char c \<or> c = CHR ''.''"
proof -
  have "list_all (\<lambda>c. name_char c \<or> c = CHR ''.'') FIFO_SUFFIX"
    by (simp add: FIFO_SUFFIX_def name_char_def is_ascii_alphanumeric_def is_ascii_lower_def byte_def)
  with assms resource_name_shape [of s] show ?thesis
    by (auto simp: list_all_iff split: if_splits)
qed

lemma resource_name_not_url: "\<not> is_url (resource_name s)"
proof -
  have "CHR ''/'' \<notin> set (resource_name s)"
    using resource_name_chars [of "CHR ''/''" s] by auto
  then show ?thesis
    by (auto simp: is_url_def starts_with_iff)
qed

subsection \<open>Keys\<close>

lemma last_segment_of_key:
  assumes "CHR ''/'' \<notin> set key" and "key \<noteq> []"
  shows "last_segment (base @ ''/'' @ key) = key"
  using assms by (simp add: last_segment_def split_on_append split_on_none)

lemma is_url_append: "is_url base \<Longrightarrow> is_url (base @ t)"
  by (auto simp: is_url_def starts_with_iff)

lemma queue_key_of_name: "\<not> is_url name \<Longrightarrow> queue_key name = Ok key \<Longrightarrow> key = resource_name name"
  by (auto simp: queue_key_def Let_def split: if_splits)

lemma queue_key_bounds: "queue_key name = Ok key \<Longrightarrow> key \<noteq> [] \<and> length key \<le> MAX_QUEUE_NAME"
  by (auto simp: queue_key_def Let_def split: if_splits)

end
