(* ===== verification/Publisher.thy ===== *)
theory Publisher
  imports Naming
begin

section \<open>Per-message settings and the FIFO ladder (publisher.rs)\<close>

text \<open>
  \<open>SqsPublishOptions\<close> with its builder steps, the policy \<open>SqsPublish\<close>, the settings one
  FIFO send carries (\<open>FifoSettings\<close>), and \<open>fifo_settings\<close>, which resolves them or refuses
  the destination. The process-wide counter behind generated deduplication ids is the state
  \<open>fifo_settings\<close> passes on; it moves only when an id is generated.
\<close>

subsection \<open>Definitions\<close>

record publish_options =
  group_id :: "string option"
  deduplication_id :: "string option"

definition default_options :: publish_options where
  "default_options = \<lparr>group_id = None, deduplication_id = None\<rparr>"

definition options_group_id :: "string \<Rightarrow> publish_options \<Rightarrow> publish_options" where
  "options_group_id g o1 = o1\<lparr>group_id := Some g\<rparr>"

definition options_deduplication_id :: "string \<Rightarrow> publish_options \<Rightarrow> publish_options" where
  "options_deduplication_id i o1 = o1\<lparr>deduplication_id := Some i\<rparr>"

text \<open>The builder's steps (\<open>SqsPublishSteps\<close>): the options appear on first use.\<close>

definition step_group_id :: "string \<Rightarrow> publish_options option \<Rightarrow> publish_options option" where
  "step_group_id g opts =
     Some ((case opts of None \<Rightarrow> default_options | Some o1 \<Rightarrow> o1)\<lparr>group_id := Some g\<rparr>)"

definition step_deduplication_id :: "string \<Rightarrow> publish_options option \<Rightarrow> publish_options option" where
  "step_deduplication_id i opts =
     Some ((case opts of None \<Rightarrow> default_options | Some o1 \<Rightarrow> o1)\<lparr>deduplication_id := Some i\<rparr>)"

text \<open>The mount site's policy.\<close>

record sqs_publish =
  policy_group :: "string option"

definition policy_group_id :: "string \<Rightarrow> sqs_publish \<Rightarrow> sqs_publish" where
  "policy_group_id g p = p\<lparr>policy_group := Some g\<rparr>"

record fifo_settings =
  fifo_group :: string
  fifo_deduplication :: string

definition dedup_id :: "nat \<Rightarrow> nat \<Rightarrow> string" where
  "dedup_id pid seq = ''rs-'' @ show_nat pid @ ''-'' @ show_nat seq"

definition or_else :: "'a option \<Rightarrow> 'a option \<Rightarrow> 'a option" where
  "or_else a b = (case a of None \<Rightarrow> b | Some x \<Rightarrow> Some x)"

definition fifo_settings ::
    "nat \<Rightarrow> nat \<Rightarrow> string \<Rightarrow> bool \<Rightarrow> publish_options option \<Rightarrow> string option \<Rightarrow> string option
      \<Rightarrow> (sqs_error, fifo_settings option) rresult \<times> nat" where
  "fifo_settings pid seq destination fifo options partition_key default_group =
     (let named_group = or_else (Option.bind options group_id) default_group;
          named_deduplication = Option.bind options deduplication_id
      in if \<not> fifo then
           (case or_else
                (if named_group \<noteq> None then Some ''a message group id'' else None)
                (if named_deduplication \<noteq> None then Some ''a deduplication id'' else None) of
              Some setting \<Rightarrow> (Err (NotFifo destination setting), seq)
            | None \<Rightarrow> (Ok None, seq))
         else
           let g = (case or_else (or_else (Option.bind options group_id) partition_key) default_group of
                      None \<Rightarrow> ''default'' | Some g \<Rightarrow> g)
           in (case named_deduplication of
                 Some d \<Rightarrow> (Ok (Some \<lparr>fifo_group = g, fifo_deduplication = d\<rparr>), seq)
               | None \<Rightarrow> (Ok (Some \<lparr>fifo_group = g, fifo_deduplication = dedup_id pid seq\<rparr>), Suc seq)))"

subsection \<open>The ladder\<close>

lemma or_else_simps [simp]:
  "or_else None b = b" "or_else (Some x) b = Some x" "or_else a None = a"
  by (auto simp: or_else_def split: option.splits)

lemma or_else_None_iff: "or_else a b = None \<longleftrightarrow> a = None \<and> b = None"
  by (cases a) auto

text \<open>A generated id is read back from its text: the counter is what follows the last dash.\<close>

lemma show_nat_inject: "show_nat m = show_nat n \<longleftrightarrow> m = n"
  by (metis digits_value_show option.inject)

lemma dedup_id_inject: "dedup_id pid m = dedup_id pid n \<longleftrightarrow> m = n"
  by (simp add: dedup_id_def show_nat_inject)

lemma fifo_settings_standard:
  "fifo_settings pid seq d False options key mount =
     ((if Option.bind options group_id = None \<and> mount = None
       then (if Option.bind options deduplication_id = None then Ok None
             else Err (NotFifo d ''a deduplication id''))
       else Err (NotFifo d ''a message group id'')), seq)"
  by (simp add: fifo_settings_def or_else_None_iff)

lemma fifo_settings_fifo:
  "\<exists>s seq'. fifo_settings pid seq d True options key mount = (Ok (Some s), seq') \<and>
     fifo_group s = (case or_else (or_else (Option.bind options group_id) key) mount of
                       None \<Rightarrow> ''default'' | Some g \<Rightarrow> g) \<and>
     fifo_deduplication s = (case Option.bind options deduplication_id of
                       None \<Rightarrow> dedup_id pid seq | Some i \<Rightarrow> i) \<and>
     seq' = (if Option.bind options deduplication_id = None then Suc seq else seq)"
  by (auto simp: fifo_settings_def split: option.split)

lemma fifo_settings_counter_mono:
  "snd (fifo_settings pid seq d fifo options key mount) \<ge> seq"
  by (auto simp: fifo_settings_def Let_def split: option.split)

end
