(* ===== verification/Message.thy ===== *)
theory Message
  imports Publisher
begin

section \<open>Messages: attributes, bodies, settlement, the visibility window (message.rs)\<close>

text \<open>
  The framing of headers and payloads as message attributes and bodies
  (\<open>encode_attributes_with\<close>, \<open>encode_attributes\<close>, \<open>encode_body\<close>), the reading back
  (\<open>decode_message\<close>), a delivery's settlement (\<open>ack\<close>, \<open>nack\<close>, \<open>nack_after\<close>, \<open>spent\<close>),
  and the visibility window with the task that extends it.

  Code outside the repository is a parameter, the record \<open>externals\<close>: the framework's
  header map, the \<open>base64\<close> engine and the SDK's attribute builder. \<open>externals_ok\<close> states
  what is documented of them; nothing else is assumed.
\<close>

subsection \<open>The SDK's message types and the external functions\<close>

record message_attribute =
  data_type :: string
  string_value :: "string option"
  binary_value :: "bytes option"

datatype system_attribute = ApproximateReceiveCount | MessageGroupId | OtherSystemAttribute string

record aws_message =
  msg_body :: "string option"
  msg_attributes :: "(string \<times> message_attribute) list option"
  msg_system :: "(system_attribute \<times> string) list option"
  msg_receipt :: "string option"

record 'h externals =
  hm_new :: 'h
  hm_insert :: "string \<Rightarrow> bytes \<Rightarrow> 'h \<Rightarrow> 'h"
  hm_get :: "'h \<Rightarrow> string \<Rightarrow> bytes option"
  hm_iter :: "'h \<Rightarrow> (string \<times> bytes) list"
  b64_encode :: "bytes \<Rightarrow> string"
  b64_decode :: "string \<Rightarrow> bytes option"
  build_attribute :: "message_attribute \<Rightarrow> (string, message_attribute) rresult"

text \<open>
  The documented behaviour relied on: a header map starts empty, an insert is what a get of
  that name answers and changes no other name, iteration visits each header once; base64
  decoding inverts encoding, whose output is printable ASCII; the SDK's builder accepts an
  attribute that names its type.
\<close>

definition header_map_ok :: "'h externals \<Rightarrow> bool" where
  "header_map_ok x \<longleftrightarrow>
     (\<forall>n. hm_get x (hm_new x) n = None) \<and>
     (\<forall>n v h m. hm_get x (hm_insert x n v h) m = (if m = n then Some v else hm_get x h m)) \<and>
     (\<forall>h. distinct (map fst (hm_iter x h)) \<and> (\<forall>n. hm_get x h n = map_of (hm_iter x h) n))"

definition base64_ok :: "'h externals \<Rightarrow> bool" where
  "base64_ok x \<longleftrightarrow>
     (\<forall>bs. b64_decode x (b64_encode x bs) = Some bs) \<and>
     (\<forall>bs. \<forall>c \<in> set (b64_encode x bs). 32 \<le> byte c \<and> byte c < 127)"

definition builder_ok :: "'h externals \<Rightarrow> bool" where
  "builder_ok x \<longleftrightarrow> (\<forall>a. data_type a \<noteq> [] \<longrightarrow> build_attribute x a = Ok a)"

definition externals_ok :: "'h externals \<Rightarrow> bool" where
  "externals_ok x \<longleftrightarrow> header_map_ok x \<and> base64_ok x \<and> builder_ok x"

subsection \<open>Constants\<close>

definition PARTITION_KEY_HEADER :: string where "PARTITION_KEY_HEADER = ''partition-key''"
definition RECEIVE_COUNT_HEADER :: string where "RECEIVE_COUNT_HEADER = ''sqs-receive-count''"
definition ENCODING_ATTRIBUTE :: string where
  "ENCODING_ATTRIBUTE = ''ruststream-payload-encoding''"
definition VISIBILITY_WINDOW :: duration where "VISIBILITY_WINDOW = from_hours 12"
definition WINDOW_MARGIN :: duration where "WINDOW_MARGIN = from_secs 10"
definition MAX_ATTRIBUTES :: nat where "MAX_ATTRIBUTES = 10"

lemma header_names_distinct [simp]:
  "PARTITION_KEY_HEADER \<noteq> RECEIVE_COUNT_HEADER" "RECEIVE_COUNT_HEADER \<noteq> PARTITION_KEY_HEADER"
  "PARTITION_KEY_HEADER \<noteq> ENCODING_ATTRIBUTE" "ENCODING_ATTRIBUTE \<noteq> PARTITION_KEY_HEADER"
  "RECEIVE_COUNT_HEADER \<noteq> ENCODING_ATTRIBUTE" "ENCODING_ATTRIBUTE \<noteq> RECEIVE_COUNT_HEADER"
  by (simp_all add: PARTITION_KEY_HEADER_def RECEIVE_COUNT_HEADER_def ENCODING_ATTRIBUTE_def)

subsection \<open>Encoding\<close>

definition service_char :: "nat \<Rightarrow> bool" where
  "service_char c \<longleftrightarrow> c = 9 \<or> c = 10 \<or> c = 13 \<or> (32 \<le> c \<and> c \<le> 55295) \<or>
     (57344 \<le> c \<and> c \<le> 65533) \<or> 65536 \<le> c"

definition is_service_text :: "string \<Rightarrow> bool" where
  "is_service_text text \<longleftrightarrow> list_all service_char (chars text)"

definition encode_body :: "'h externals \<Rightarrow> bytes \<Rightarrow> string \<times> bool" where
  "encode_body x payload =
     (case from_utf8 payload of
        Some text \<Rightarrow> if is_service_text text then (text, False) else (b64_encode x text, True)
      | None \<Rightarrow> (b64_encode x payload, True))"

datatype attribute_value = AttrText string | AttrBinary bytes

definition attribute_of :: "bytes \<Rightarrow> attribute_value" where
  "attribute_of v =
     (case from_utf8 v of
        Some text \<Rightarrow> if is_service_text text then AttrText text else AttrBinary v
      | None \<Rightarrow> AttrBinary v)"

definition marker_reserved :: cause where
  "marker_reserved = Reason
     (''the name is the attribute that marks a base64 payload, which the subscriber ''
       @ ''takes off every delivery'')"

text \<open>The walk over the headers: the partition key of a FIFO destination is taken out, every
  other header is handed to \<open>put\<close>, whose state is \<open>'s\<close>.\<close>

fun encode_loop ::
    "bool \<Rightarrow> string \<Rightarrow> (string \<Rightarrow> attribute_value \<Rightarrow> 's \<Rightarrow> (cause, 's) rresult)
      \<Rightarrow> (string \<times> bytes) list \<Rightarrow> bytes option \<Rightarrow> nat \<Rightarrow> 's
      \<Rightarrow> (sqs_error, bytes option \<times> nat \<times> 's) rresult" where
  "encode_loop fifo destination put [] grp count st = Ok (grp, count, st)"
| "encode_loop fifo destination put ((name, val) # hs) grp count st =
     (if fifo \<and> name = PARTITION_KEY_HEADER
      then encode_loop fifo destination put hs (Some val) count st
      else if name = ENCODING_ATTRIBUTE
      then Err (InvalidHeader destination name marker_reserved)
      else case put name (attribute_of val) st of
             Inl c \<Rightarrow> Err (InvalidHeader destination name c)
           | Inr st' \<Rightarrow> encode_loop fifo destination put hs grp (Suc count) st')"

definition attribute_names :: "bool \<Rightarrow> bool \<Rightarrow> (string \<times> bytes) list \<Rightarrow> string list" where
  "attribute_names fifo base64_marker hs =
     filter (\<lambda>name. \<not> (fifo \<and> name = PARTITION_KEY_HEADER)) (map fst hs)
       @ (if base64_marker then [ENCODING_ATTRIBUTE] else [])"

definition encode_attributes_with ::
    "'h externals \<Rightarrow> 'h \<Rightarrow> bool \<Rightarrow> bool \<Rightarrow> string
      \<Rightarrow> (string \<Rightarrow> attribute_value \<Rightarrow> 's \<Rightarrow> (cause, 's) rresult) \<Rightarrow> 's
      \<Rightarrow> (sqs_error, bytes option \<times> 's) rresult" where
  "encode_attributes_with x headers base64_marker fifo destination put st =
     (case encode_loop fifo destination put (hm_iter x headers) None
             (if base64_marker then 1 else 0) st of
        Inl e \<Rightarrow> Err e
      | Inr (grp, count, st') \<Rightarrow>
          if MAX_ATTRIBUTES < count
          then Err (TooManyAttributes destination count MAX_ATTRIBUTES
                 (if base64_marker then Some ENCODING_ATTRIBUTE else None)
                 (attribute_names fifo base64_marker (hm_iter x headers)))
          else if base64_marker
          then (case put ENCODING_ATTRIBUTE (AttrText ''base64'') st' of
                  Inl c \<Rightarrow> Err (InvalidHeader destination ENCODING_ATTRIBUTE c)
                | Inr st'' \<Rightarrow> Ok (grp, st''))
          else Ok (grp, st'))"

definition wire_attribute :: "attribute_value \<Rightarrow> message_attribute" where
  "wire_attribute val =
     (case val of
        AttrText text \<Rightarrow> \<lparr>data_type = ''String'', string_value = Some text, binary_value = None\<rparr>
      | AttrBinary bs \<Rightarrow> \<lparr>data_type = ''Binary'', string_value = None, binary_value = Some bs\<rparr>)"

definition put_attribute ::
    "'h externals \<Rightarrow> string \<Rightarrow> attribute_value \<Rightarrow> (string \<times> message_attribute) list
      \<Rightarrow> (cause, (string \<times> message_attribute) list) rresult" where
  "put_attribute x name val attributes =
     (case build_attribute x (wire_attribute val) of
        Inl e \<Rightarrow> Err (SdkFailure e)
      | Inr a \<Rightarrow> Ok (hash_insert name a attributes))"

definition encode_attributes ::
    "'h externals \<Rightarrow> 'h \<Rightarrow> bool \<Rightarrow> bool \<Rightarrow> string
      \<Rightarrow> (sqs_error, (string \<times> message_attribute) list \<times> string option) rresult" where
  "encode_attributes x headers base64_marker fifo destination =
     (case encode_attributes_with x headers base64_marker fifo destination (put_attribute x) [] of
        Inl e \<Rightarrow> Err e
      | Inr (grp, attributes) \<Rightarrow> Ok (attributes, map_option from_utf8_lossy grp))"

subsection \<open>Decoding\<close>

fun decode_attributes ::
    "'h externals \<Rightarrow> (string \<times> message_attribute) list \<Rightarrow> 'h \<Rightarrow> bool \<Rightarrow> 'h \<times> bool" where
  "decode_attributes x [] headers base64_payload = (headers, base64_payload)"
| "decode_attributes x ((name, val) # as) headers base64_payload =
     (if name = ENCODING_ATTRIBUTE \<and> string_value val = Some ''base64''
      then decode_attributes x as headers True
      else case string_value val of
             Some text \<Rightarrow> decode_attributes x as (hm_insert x name text headers) base64_payload
           | None \<Rightarrow> (case binary_value val of
                 Some blob \<Rightarrow> decode_attributes x as (hm_insert x name blob headers) base64_payload
               | None \<Rightarrow> decode_attributes x as headers base64_payload))"

definition decode_system ::
    "'h externals \<Rightarrow> (system_attribute \<times> string) list \<Rightarrow> 'h \<Rightarrow> 'h" where
  "decode_system x system headers =
     (let h1 = (case map_of system MessageGroupId of
                  Some grp \<Rightarrow> hm_insert x PARTITION_KEY_HEADER grp headers | None \<Rightarrow> headers)
      in case map_of system ApproximateReceiveCount of
           Some count \<Rightarrow> hm_insert x RECEIVE_COUNT_HEADER count h1 | None \<Rightarrow> h1)"

definition decode_message :: "'h externals \<Rightarrow> aws_message \<Rightarrow> bytes \<times> 'h" where
  "decode_message x message =
     (let (h1, base64_payload) =
            (case msg_attributes message of None \<Rightarrow> (hm_new x, False)
             | Some as \<Rightarrow> decode_attributes x as (hm_new x) False);
          h2 = (case msg_system message of None \<Rightarrow> h1 | Some system \<Rightarrow> decode_system x system h1);
          body = (case msg_body message of None \<Rightarrow> [] | Some b \<Rightarrow> b);
          payload = (if base64_payload
                     then (case b64_decode x body of None \<Rightarrow> body | Some bs \<Rightarrow> bs)
                     else body)
      in (payload, h2))"

definition receives_of :: "aws_message \<Rightarrow> nat option" where
  "receives_of message =
     Option.bind (msg_system message) (\<lambda>system.
       Option.bind (map_of system ApproximateReceiveCount) (\<lambda>count.
         parse_uint U32_MAX (trim count)))"

subsection \<open>The visibility window and the extension\<close>

definition window_left :: "instant \<Rightarrow> instant \<Rightarrow> nat" where
  "window_left now received = as_secs ((VISIBILITY_WINDOW - WINDOW_MARGIN) - (now - received))"

text \<open>\<open>queue::whole_seconds\<close>: rounded up; the sum is in \<open>u64\<close>, as a release build computes it.\<close>

definition whole_seconds :: "duration \<Rightarrow> nat" where
  "whole_seconds d =
     (if 0 < subsec_nanos d then (as_secs d + 1) mod 2 ^ 64 else as_secs d)"

definition extension_period :: "duration \<Rightarrow> duration" where
  "extension_period visibility = visibility div 2"

record extension =
  ext_seconds :: nat
  ext_last :: bool

definition extension_of :: "nat \<Rightarrow> nat \<Rightarrow> extension" where
  "extension_of full left =
     (if full < left then \<lparr>ext_seconds = full, ext_last = False\<rparr>
      else \<lparr>ext_seconds = left, ext_last = True\<rparr>)"

text \<open>
  The extending task over the instants its sleeps end at: the changes it asks for, each with
  its instant and seconds, and whether the task has ended. An abort is the end of the list.
\<close>

fun extend_run :: "nat \<Rightarrow> instant \<Rightarrow> instant list \<Rightarrow> (instant \<times> nat) list \<times> bool" where
  "extend_run full received [] = ([], False)"
| "extend_run full received (now # wakes) =
     (let e = extension_of full (window_left now received);
          calls = (if 0 < ext_seconds e then [(now, i32_or_max (ext_seconds e))] else [])
      in if ext_last e then (calls, True)
         else let (rest, ended) = extend_run full received wakes in (calls @ rest, ended))"

definition extend_visibility ::
    "duration \<Rightarrow> instant \<Rightarrow> instant list \<Rightarrow> (instant \<times> nat) list \<times> bool" where
  "extend_visibility visibility received wakes =
     (if visibility = 0 then ([], True) else extend_run (as_secs visibility) received wakes)"

subsection \<open>Settlement\<close>

text \<open>
  A delivery settles through its receipt: the live queue's or the in-process account's. The
  three calls a settlement makes of either are the record \<open>receipt_api\<close>, over a world \<open>'w\<close>.
\<close>

record ('r, 'w) receipt_api =
  stop_extending_call :: "'r \<Rightarrow> 'w \<Rightarrow> 'w"
  delete_call :: "'r \<Rightarrow> 'w \<Rightarrow> (ack_error, unit) rresult \<times> 'w"
  visibility_call :: "'r \<Rightarrow> int \<Rightarrow> 'w \<Rightarrow> (ack_error, unit) rresult \<times> 'w"

record ('h, 'r) sqs_message =
  sm_payload :: bytes
  sm_headers :: 'h
  sm_receives :: "nat option"
  sm_redrive_max :: "nat option"
  sm_received :: instant
  sm_receipt :: 'r

definition new_message ::
    "'h externals \<Rightarrow> aws_message \<Rightarrow> 'r \<Rightarrow> instant \<Rightarrow> nat option \<Rightarrow> ('h, 'r) sqs_message" where
  "new_message x message receipt received redrive_max =
     (let (payload, headers) = decode_message x message
      in \<lparr>sm_payload = payload, sm_headers = headers, sm_receives = receives_of message,
          sm_redrive_max = redrive_max, sm_received = received, sm_receipt = receipt\<rparr>)"

definition spent :: "('h, 'r) sqs_message \<Rightarrow> bool" where
  "spent m = (case (sm_receives m, sm_redrive_max m) of
                (Some receives, Some limit) \<Rightarrow> limit \<le> receives
              | _ \<Rightarrow> False)"

definition ack ::
    "('r, 'w) receipt_api \<Rightarrow> ('h, 'r) sqs_message \<Rightarrow> 'w \<Rightarrow> (ack_error, unit) rresult \<times> 'w" where
  "ack api m w = delete_call api (sm_receipt m) (stop_extending_call api (sm_receipt m) w)"

definition nack ::
    "('r, 'w) receipt_api \<Rightarrow> ('h, 'r) sqs_message \<Rightarrow> bool \<Rightarrow> 'w
      \<Rightarrow> (ack_error, unit) rresult \<times> 'w" where
  "nack api m requeue w =
     (let w' = stop_extending_call api (sm_receipt m) w
      in if requeue \<or> spent m then visibility_call api (sm_receipt m) 0 w'
         else delete_call api (sm_receipt m) w')"

definition nack_seconds :: "instant \<Rightarrow> instant \<Rightarrow> duration \<Rightarrow> nat" where
  "nack_seconds now received delay =
     i32_or_max (min (whole_seconds delay) (window_left now received))"

definition nack_after ::
    "('r, 'w) receipt_api \<Rightarrow> ('h, 'r) sqs_message \<Rightarrow> instant \<Rightarrow> duration \<Rightarrow> 'w
      \<Rightarrow> (ack_error, unit) rresult \<times> 'w" where
  "nack_after api m now delay w =
     (let w' = stop_extending_call api (sm_receipt m) w
      in visibility_call api (sm_receipt m) (int (nack_seconds now (sm_received m) delay)) w')"

definition redelivery_count :: "('h, 'r) sqs_message \<Rightarrow> nat option" where
  "redelivery_count m = sm_receives m"

definition message_partition_key :: "'h externals \<Rightarrow> ('h, 'r) sqs_message \<Rightarrow> bytes option" where
  "message_partition_key x m = hm_get x (sm_headers m) PARTITION_KEY_HEADER"

end
