(* ===== verification/Framing.thy ===== *)
theory Framing
  imports Message
begin

section \<open>Framing: what the encoding and the decoding of a message keep\<close>

text \<open>
  Lemmas about message.rs: the walk over the headers computes the list of attributes, the
  refusals are exactly the documented ones, and decoding reads the headers back.
\<close>

subsection \<open>The walk over the headers\<close>

abbreviation kept_headers :: "bool \<Rightarrow> (string \<times> bytes) list \<Rightarrow> (string \<times> bytes) list" where
  "kept_headers fifo hs \<equiv> filter (\<lambda>h. \<not> (fifo \<and> fst h = PARTITION_KEY_HEADER)) hs"

abbreviation wire_header :: "string \<times> bytes \<Rightarrow> string \<times> message_attribute" where
  "wire_header h \<equiv> (fst h, wire_attribute (attribute_of (snd h)))"

lemma wire_attribute_typed [simp]: "data_type (wire_attribute v) \<noteq> []"
  by (cases v) (auto simp: wire_attribute_def)

lemma put_attribute_ok:
  "builder_ok x \<Longrightarrow> put_attribute x name v st = Ok (hash_insert name (wire_attribute v) st)"
  by (simp add: put_attribute_def builder_ok_def)

lemma hash_insert_fresh: "name \<notin> fst ` set m \<Longrightarrow> hash_insert name v m = m @ [(name, v)]"
  unfolding hash_insert_def by (induction m) auto

lemma kept_names: "attribute_names fifo marker hs =
    map fst (kept_headers fifo hs) @ (if marker then [ENCODING_ATTRIBUTE] else [])"
  by (simp add: attribute_names_def filter_map comp_def)

text \<open>Without a header named like the marker, the walk succeeds and appends one attribute per
  kept header; the group is the last partition key it met.\<close>

lemma encode_loop_result:
  assumes "builder_ok x" and "distinct (map fst hs)"
    and "\<forall>h \<in> set hs. fst h \<noteq> ENCODING_ATTRIBUTE \<and> fst h \<notin> fst ` set st"
  shows "encode_loop fifo d (put_attribute x) hs grp count st =
     Ok (if fifo then or_else (map_of hs PARTITION_KEY_HEADER) grp else grp,
         count + length (kept_headers fifo hs),
         st @ map wire_header (kept_headers fifo hs))"
  using assms(2,3)
proof (induction hs arbitrary: grp count st)
  case Nil
  then show ?case by (simp add: or_else_def)
next
  case (Cons h hs)
  obtain name val where h: "h = (name, val)" by (cases h)
  have fresh: "name \<notin> fst ` set st" "name \<noteq> ENCODING_ATTRIBUTE" "name \<notin> fst ` set hs"
    using Cons.prems by (auto simp: h)
  show ?case
  proof (cases "fifo \<and> name = PARTITION_KEY_HEADER")
    case True
    moreover have "map_of hs PARTITION_KEY_HEADER = None"
      using True fresh by (simp add: map_of_eq_None_iff)
    ultimately show ?thesis using Cons by (auto simp: h)
  next
    case False
    have "encode_loop fifo d (put_attribute x) hs grp (Suc count)
        (st @ [(name, wire_attribute (attribute_of val))]) =
      Ok (if fifo then or_else (map_of hs PARTITION_KEY_HEADER) grp else grp,
         Suc count + length (kept_headers fifo hs),
         (st @ [(name, wire_attribute (attribute_of val))]) @ map wire_header (kept_headers fifo hs))"
      using Cons.prems fresh by (intro Cons.IH) (auto simp: h)
    moreover have "put_attribute x name (attribute_of val) st =
        Ok (st @ [(name, wire_attribute (attribute_of val))])"
      using fresh by (simp add: put_attribute_ok [OF assms(1)] hash_insert_fresh)
    ultimately show ?thesis
      using False fresh by (auto simp: h)
  qed
qed

lemma encode_loop_marker:
  assumes "builder_ok x" and "ENCODING_ATTRIBUTE \<in> fst ` set hs"
  shows "encode_loop fifo d (put_attribute x) hs grp count st =
     Err (InvalidHeader d ENCODING_ATTRIBUTE marker_reserved)"
  using assms(2)
proof (induction hs arbitrary: grp count st)
  case (Cons h hs)
  then show ?case
    by (cases h) (auto simp: put_attribute_ok [OF assms(1)])
qed simp

text \<open>All of \<open>encode_attributes\<close> in one equation.\<close>

lemma encode_attributes_eq:
  assumes "builder_ok x" and "distinct (map fst (hm_iter x h))"
  shows "encode_attributes x h marker fifo d =
    (if ENCODING_ATTRIBUTE \<in> fst ` set (hm_iter x h)
     then Err (InvalidHeader d ENCODING_ATTRIBUTE marker_reserved)
     else if MAX_ATTRIBUTES < length (attribute_names fifo marker (hm_iter x h))
     then Err (TooManyAttributes d (length (attribute_names fifo marker (hm_iter x h)))
            MAX_ATTRIBUTES (if marker then Some ENCODING_ATTRIBUTE else None)
            (attribute_names fifo marker (hm_iter x h)))
     else Ok (map wire_header (kept_headers fifo (hm_iter x h))
            @ (if marker then [(ENCODING_ATTRIBUTE, wire_attribute (AttrText ''base64''))] else []),
          if fifo then map_option from_utf8_lossy (map_of (hm_iter x h) PARTITION_KEY_HEADER)
          else None))"
proof (cases "ENCODING_ATTRIBUTE \<in> fst ` set (hm_iter x h)")
  case True
  with assms(1) show ?thesis
    by (simp add: encode_attributes_def encode_attributes_with_def encode_loop_marker)
next
  case False
  then have free: "\<forall>e \<in> set (hm_iter x h). fst e \<noteq> ENCODING_ATTRIBUTE"
    by (metis imageI)
  then have fresh: "\<forall>e \<in> set (hm_iter x h). fst e \<noteq> ENCODING_ATTRIBUTE \<and> fst e \<notin> fst ` set []"
    by auto
  have "ENCODING_ATTRIBUTE \<notin> fst ` set (map wire_header (kept_headers fifo (hm_iter x h)))"
    using free by force
  then show ?thesis
    using False encode_loop_result [OF assms fresh, of fifo d None]
    by (auto simp: encode_attributes_def encode_attributes_with_def kept_names
        put_attribute_ok [OF assms(1)] hash_insert_fresh)
qed

subsection \<open>Reading back\<close>

lemma wire_attribute_values:
  "string_value (wire_attribute (attribute_of v)) = Some t \<Longrightarrow> t = v"
  "string_value (wire_attribute (attribute_of v)) = None \<Longrightarrow>
     binary_value (wire_attribute (attribute_of v)) = Some v"
  by (auto simp: wire_attribute_def attribute_of_def from_utf8_def split: if_splits)

lemma decode_kept:
  assumes "\<forall>e \<in> set hs. fst e \<noteq> ENCODING_ATTRIBUTE"
  shows "decode_attributes x (map wire_header hs @ rest) h b =
     decode_attributes x rest (fold (\<lambda>e. hm_insert x (fst e) (snd e)) hs h) b"
  using assms
proof (induction hs arbitrary: h)
  case (Cons e hs)
  then show ?case
    using wire_attribute_values [of "snd e"] by (cases e) (auto split: option.split)
qed simp

lemma get_insert:
  "header_map_ok x \<Longrightarrow> hm_get x (hm_insert x n v h) m = (if m = n then Some v else hm_get x h m)"
  unfolding header_map_ok_def by blast

lemma get_new: "header_map_ok x \<Longrightarrow> hm_get x (hm_new x) n = None"
  unfolding header_map_ok_def by blast

lemma get_iter: "header_map_ok x \<Longrightarrow> hm_get x h n = map_of (hm_iter x h) n"
  unfolding header_map_ok_def by blast

lemma iter_distinct: "header_map_ok x \<Longrightarrow> distinct (map fst (hm_iter x h))"
  unfolding header_map_ok_def by blast

lemma get_fold_insert:
  assumes "header_map_ok x" and "distinct (map fst hs)"
  shows "hm_get x (fold (\<lambda>e. hm_insert x (fst e) (snd e)) hs h) n =
     or_else (map_of hs n) (hm_get x h n)"
  using assms(2)
proof (induction hs arbitrary: h)
  case (Cons e hs)
  have get: "hm_get x (hm_insert x (fst e) (snd e) h) n = (if n = fst e then Some (snd e) else hm_get x h n)"
    by (rule get_insert [OF assms(1)])
  have "n = fst e \<Longrightarrow> map_of hs n = None"
    using Cons.prems by (simp add: map_of_eq_None_iff)
  with Cons get show ?case by (cases e) auto
qed simp

lemma map_of_kept:
  "map_of (kept_headers fifo hs) n =
     (if fifo \<and> n = PARTITION_KEY_HEADER then None else map_of hs n)"
  by (induction hs) auto

lemma decode_encoded_attributes:
  assumes "externals_ok x" and "encode_attributes x h marker fifo d = Ok (attributes, key)"
  shows "\<exists>h'. decode_attributes x attributes (hm_new x) False = (h', marker) \<and>
     (\<forall>n. hm_get x h' n = (if fifo \<and> n = PARTITION_KEY_HEADER then None else hm_get x h n))"
proof -
  have hm: "header_map_ok x" and bld: "builder_ok x"
    using assms(1) by (auto simp: externals_ok_def)
  have dist: "distinct (map fst (hm_iter x h))"
    by (rule iter_distinct [OF hm])
  let ?kept = "kept_headers fifo (hm_iter x h)"
  let ?h' = "fold (\<lambda>e. hm_insert x (fst e) (snd e)) ?kept (hm_new x)"
  from assms(2) have free: "ENCODING_ATTRIBUTE \<notin> fst ` set (hm_iter x h)"
    and atts: "attributes = map wire_header ?kept
      @ (if marker then [(ENCODING_ATTRIBUTE, wire_attribute (AttrText ''base64''))] else [])"
    by (auto simp: encode_attributes_eq [OF bld dist] split: if_splits)
  have "\<forall>e \<in> set ?kept. fst e \<noteq> ENCODING_ATTRIBUTE"
    using free by (metis filter_is_subset imageI subsetD)
  then have "decode_attributes x attributes (hm_new x) False = decode_attributes x
      (if marker then [(ENCODING_ATTRIBUTE, wire_attribute (AttrText ''base64''))] else []) ?h' False"
    unfolding atts by (rule decode_kept)
  then have dec: "decode_attributes x attributes (hm_new x) False = (?h', marker)"
    by (simp add: wire_attribute_def)
  have dk: "distinct (map fst ?kept)"
    using dist by (simp add: distinct_map_filter)
  have "hm_get x ?h' n = (if fifo \<and> n = PARTITION_KEY_HEADER then None else hm_get x h n)" for n
    unfolding get_fold_insert [OF hm dk] get_iter [OF hm, of h] get_new [OF hm] map_of_kept by simp
  with dec show ?thesis by blast
qed

lemma decode_encoded_body:
  assumes "base64_ok x" and "encode_body x payload = (body, marker)"
  shows "(if marker then (case b64_decode x body of None \<Rightarrow> body | Some bs \<Rightarrow> bs) else body) = payload"
  using assms by (auto simp: encode_body_def base64_ok_def from_utf8_Some split: option.splits if_splits)

subsection \<open>Service text\<close>

lemma service_text_printable:
  assumes "\<forall>c \<in> set s. 32 \<le> byte c \<and> byte c < 127"
  shows "is_service_text s"
proof -
  have "list_all is_ascii s"
    using assms by (auto simp: list_all_iff is_ascii_def intro: less_trans)
  then show ?thesis
    using assms by (auto simp: is_service_text_def chars_ascii list_all_iff service_char_def)
qed

lemma encode_body_service_text:
  "base64_ok x \<Longrightarrow> is_service_text (fst (encode_body x payload))"
  by (auto simp: encode_body_def base64_ok_def intro: service_text_printable split: option.split)

lemma attribute_of_text: "attribute_of v = AttrText t \<Longrightarrow> t = v \<and> utf8_ok v \<and> is_service_text v"
  by (auto simp: attribute_of_def from_utf8_Some split: option.splits if_splits)

subsection \<open>The window\<close>

lemma window_value: "VISIBILITY_WINDOW - WINDOW_MARGIN = 43190 * NANOS"
  by (simp add: VISIBILITY_WINDOW_def WINDOW_MARGIN_def duration_defs)

lemma window_left_fits:
  "window_left now received * NANOS \<le> (VISIBILITY_WINDOW - WINDOW_MARGIN) - (now - received)"
  unfolding window_left_def by (rule as_secs_le)

lemma window_left_small: "window_left now received \<le> 43190"
proof -
  have "window_left now received \<le> as_secs (43190 * NANOS)"
    unfolding window_left_def window_value as_secs_def by (rule div_le_mono) simp
  then show ?thesis by (simp add: as_secs_def)
qed

lemma window_left_antimono: "now \<le> now' \<Longrightarrow> window_left now' received \<le> window_left now received"
  unfolding window_left_def as_secs_def by (rule div_le_mono) simp

lemma window_left_inside:
  assumes "0 < window_left now received" and "received \<le> now"
  shows "now - received + window_left now received * NANOS \<le> VISIBILITY_WINDOW - WINDOW_MARGIN"
proof -
  have "0 < window_left now received * NANOS" using assms by simp
  then show ?thesis using window_left_fits [of now received] by linarith
qed

lemma whole_seconds_covers:
  assumes "as_secs d < U64_MAX"
  shows "d \<le> whole_seconds d * NANOS" "whole_seconds d * NANOS < d + NANOS"
proof -
  have d: "d = as_secs d * NANOS + subsec_nanos d" and n: "subsec_nanos d < NANOS"
    by (simp_all add: as_secs_def subsec_nanos_def)
  have w: "whole_seconds d = (if 0 < subsec_nanos d then as_secs d + 1 else as_secs d)"
    using assms by (simp add: whole_seconds_def U64_MAX_def)
  show "d \<le> whole_seconds d * NANOS" and "whole_seconds d * NANOS < d + NANOS"
    using d n by (auto simp: w algebra_simps)
qed

lemma nack_seconds_min: "nack_seconds now received delay = min (whole_seconds delay) (window_left now received)"
proof -
  have "min (whole_seconds delay) (window_left now received) \<le> I32_MAX"
    using window_left_small [of now received] by (simp add: I32_MAX_def min_def)
  then show ?thesis by (simp add: nack_seconds_def i32_or_max_small)
qed

subsection \<open>The extending task\<close>

lemma extension_within:
  "ext_seconds (extension_of full left) \<le> left" "ext_seconds (extension_of full left) \<le> full"
  by (auto simp: extension_of_def)

lemma extend_run_calls:
  "(t, s) \<in> set (fst (extend_run full received wakes)) \<Longrightarrow>
     t \<in> set wakes \<and> 0 < s \<and> s \<le> full \<and> s \<le> window_left t received"
proof (induction full received wakes rule: extend_run.induct)
  case (2 full received now wakes)
  let ?e = "extension_of full (window_left now received)"
  have here: "i32_or_max (ext_seconds ?e) \<le> full \<and> i32_or_max (ext_seconds ?e) \<le> window_left now received"
    using extension_within [where full = full and left = "window_left now received"] i32_or_max_le
    by (meson order_trans)
  have pos: "0 < n \<Longrightarrow> 0 < i32_or_max n" for n
    by (auto simp: i32_or_max_def I32_MAX_def)
  show ?case
  proof (cases "ext_last ?e")
    case True
    with "2.prems" here pos show ?thesis by (auto simp: Let_def split: if_splits)
  next
    case False
    with 2 here pos show ?thesis
      by (fastforce simp: Let_def split: if_splits prod.splits)
  qed
qed simp

lemma extend_run_ends:
  assumes "now \<in> set wakes" and "window_left now received \<le> full"
  shows "snd (extend_run full received wakes)"
  using assms
proof (induction wakes)
  case (Cons w wakes)
  show ?case
  proof (cases "window_left w received \<le> full")
    case True
    then show ?thesis by (simp add: extension_of_def Let_def)
  next
    case False
    with Cons show ?thesis by (auto simp: Let_def split: prod.splits)
  qed
qed simp

lemma extend_run_prefix:
  "length (fst (extend_run full received wakes)) \<le> length wakes"
proof (induction wakes)
  case (Cons w wakes)
  then show ?case by (cases "extend_run full received wakes") (simp add: Let_def)
qed simp

end
