(* ===== verification/Queue_Descriptor.thy ===== *)
theory Queue_Descriptor
  imports Framing
begin

section \<open>The subscription descriptor (queue.rs)\<close>

text \<open>
  \<open>SqsQueue\<close>, its builder steps, the checks that run before any I/O (\<open>validate\<close>), the
  redrive policy a registration declared (\<open>redrive\<close>), the two routes a declaration takes to
  a descriptor (\<open>with_declaration\<close>, \<open>with_redrive\<close>), and the body of the \<open>sqs\<close> channel
  binding. A \<open>RetryDeclaration\<close> is the framework's; the descriptor reads its two accessors,
  so the model takes their values.
\<close>

subsection \<open>Definitions\<close>

definition MAX_WAIT :: duration where "MAX_WAIT = from_secs 20"

record redrive =
  max_receive_count :: nat
  dead_letter :: string

record sqs_queue =
  sq_queue :: string
  sq_wait :: duration
  sq_visibility :: "duration option"
  sq_create_if_missing :: bool
  sq_max_attempts :: "nat option"
  sq_dead_letter :: "string option"

definition new_queue :: "string \<Rightarrow> sqs_queue" where
  "new_queue name = \<lparr>sq_queue = name, sq_wait = MAX_WAIT, sq_visibility = None,
     sq_create_if_missing = False, sq_max_attempts = None, sq_dead_letter = None\<rparr>"

definition queue_wait :: "duration \<Rightarrow> sqs_queue \<Rightarrow> sqs_queue" where
  "queue_wait d q = q\<lparr>sq_wait := d\<rparr>"

definition queue_visibility :: "duration \<Rightarrow> sqs_queue \<Rightarrow> sqs_queue" where
  "queue_visibility d q = q\<lparr>sq_visibility := Some d\<rparr>"

definition queue_create_if_missing :: "sqs_queue \<Rightarrow> sqs_queue" where
  "queue_create_if_missing q = q\<lparr>sq_create_if_missing := True\<rparr>"

definition visibility_value :: "sqs_queue \<Rightarrow> duration option" where
  "visibility_value q = map_option (\<lambda>v. from_secs (whole_seconds v)) (sq_visibility q)"

definition with_declaration :: "nat option \<Rightarrow> string option \<Rightarrow> sqs_queue \<Rightarrow> sqs_queue" where
  "with_declaration max_attempts dl q = q\<lparr>sq_max_attempts := max_attempts, sq_dead_letter := dl\<rparr>"

definition with_redrive :: "redrive option \<Rightarrow> sqs_queue \<Rightarrow> sqs_queue" where
  "with_redrive r q =
     (case r of None \<Rightarrow> q
      | Some rd \<Rightarrow> q\<lparr>sq_max_attempts := Some (max_receive_count rd),
                       sq_dead_letter := Some (dead_letter rd)\<rparr>)"

definition redrive_of :: "sqs_queue \<Rightarrow> (sqs_error, redrive option) rresult" where
  "redrive_of q =
     (case (sq_max_attempts q, sq_dead_letter q) of
        (Some n, Some dl) \<Rightarrow> Ok (Some \<lparr>max_receive_count = n, dead_letter = dl\<rparr>)
      | (None, None) \<Rightarrow> Ok None
      | (Some n, None) \<Rightarrow> Err (IncompleteRedrive (sq_queue q) ''max_attempts(..)'' ''dead_letter(..)'')
      | (None, Some dl) \<Rightarrow> Err (IncompleteRedrive (sq_queue q) ''dead_letter(..)'' ''max_attempts(..)''))"

definition validate :: "sqs_queue \<Rightarrow> (sqs_error, unit) rresult" where
  "validate q =
     (if sq_queue q = [] then Err (InvalidQueue ''queue must be non-empty'')
      else if MAX_WAIT < sq_wait q
      then Err (InvalidQueue ''wait exceeds the 20 second long-polling cap'')
      else if (case sq_visibility q of None \<Rightarrow> False
               | Some v \<Rightarrow> v < from_secs 1 \<or> from_hours 12 < v)
      then Err (InvalidQueue ''visibility must be within 1s..=12h'')
      else and_then (redrive_of q) (\<lambda>_. Ok ()))"

record queue_object =
  qo_name :: string
  qo_fifo_queue :: bool
  qo_visibility_timeout :: "nat option"
  qo_receive_message_wait_time :: nat

definition channel_body :: "sqs_queue \<Rightarrow> queue_object" where
  "channel_body q = \<lparr>qo_name = sq_queue q, qo_fifo_queue = is_fifo (sq_queue q),
     qo_visibility_timeout = map_option as_secs (visibility_value q),
     qo_receive_message_wait_time = as_secs (sq_wait q)\<rparr>"

subsection \<open>What a valid descriptor promises\<close>

lemma redrive_of_Ok_cases:
  "redrive_of q = Ok r \<longleftrightarrow>
     (case r of None \<Rightarrow> sq_max_attempts q = None \<and> sq_dead_letter q = None
      | Some rd \<Rightarrow> sq_max_attempts q = Some (max_receive_count rd) \<and>
                    sq_dead_letter q = Some (dead_letter rd))"
  by (cases "sq_max_attempts q"; cases "sq_dead_letter q"; cases r)
    (auto simp: redrive_of_def)

lemma validate_Ok_iff:
  "validate q = Ok () \<longleftrightarrow>
     sq_queue q \<noteq> [] \<and> sq_wait q \<le> MAX_WAIT \<and>
     (\<forall>v. sq_visibility q = Some v \<longrightarrow> from_secs 1 \<le> v \<and> v \<le> from_hours 12) \<and>
     (sq_max_attempts q = None \<longleftrightarrow> sq_dead_letter q = None)"
  by (cases "sq_max_attempts q"; cases "sq_dead_letter q"; cases "sq_visibility q")
    (auto simp: validate_def redrive_of_def)

lemma whole_seconds_range:
  assumes "from_secs 1 \<le> v" and "v \<le> from_hours 12"
  shows "1 \<le> whole_seconds v \<and> whole_seconds v \<le> 43200"
proof -
  have v: "NANOS \<le> v" "v \<le> 43200 * NANOS"
    using assms by (simp_all add: from_secs_def from_hours_def)
  then have "as_secs v \<le> 43200"
    by (simp add: as_secs_def NANOS_def)
  then have small: "as_secs v < U64_MAX" by (simp add: U64_MAX_def)
  have "NANOS \<le> whole_seconds v * NANOS" "whole_seconds v * NANOS < 43201 * NANOS"
    using whole_seconds_covers [OF small] v by (simp_all add: NANOS_def)
  then show ?thesis by (simp add: NANOS_def)
qed

end
