(* ===== verification/Routing.thy ===== *)
theory Routing
  imports Naming
begin

section \<open>Which surface a publish went through (in\_process/routing.rs)\<close>

text \<open>
  The record a connected broker keeps for the test harness: the queues subscribed to each
  topic, and per destination a tally of the publishes through each surface with the turn
  that walks them round. The turn is a \<open>u64\<close> that wraps, as \<open>wrapping_add\<close> computes it.
\<close>

subsection \<open>Definitions\<close>

datatype surface = QueueSurface | TopicSurface

record tally =
  t_queue :: nat
  t_topic :: nat
  t_asked :: "64 word"

definition empty_tally :: tally where
  "empty_tally = \<lparr>t_queue = 0, t_topic = 0, t_asked = 0\<rparr>"

fun count_surface :: "surface \<Rightarrow> tally \<Rightarrow> tally" where
  "count_surface QueueSurface t = t\<lparr>t_queue := t_queue t + 1\<rparr>"
| "count_surface TopicSurface t = t\<lparr>t_topic := t_topic t + 1\<rparr>"

record routing =
  r_topics :: "(string \<times> string list) list"
  r_publishes :: "(string \<times> tally) list"

definition empty_routing :: routing where
  "empty_routing = \<lparr>r_topics = [], r_publishes = []\<rparr>"

definition routing_subscribe :: "string \<Rightarrow> string \<Rightarrow> routing \<Rightarrow> routing" where
  "routing_subscribe topic queue r =
     (let queues = (case map_of (r_topics r) topic of None \<Rightarrow> [] | Some qs \<Rightarrow> qs);
          queues' = (if queue \<in> set queues then queues else queues @ [queue])
      in r\<lparr>r_topics := hash_insert topic queues' (r_topics r)\<rparr>)"

definition fanned_out :: "string \<Rightarrow> routing \<Rightarrow> string list option" where
  "fanned_out topic r =
     (case map_of (r_topics r) topic of
        None \<Rightarrow> None | Some qs \<Rightarrow> if qs = [] then None else Some qs)"

definition routing_published :: "string \<Rightarrow> surface \<Rightarrow> routing \<Rightarrow> routing" where
  "routing_published destination s r =
     (let t = (case map_of (r_publishes r) destination of None \<Rightarrow> empty_tally | Some t \<Rightarrow> t)
      in r\<lparr>r_publishes := hash_insert destination (count_surface s t) (r_publishes r)\<rparr>)"

definition tally_next :: "tally \<Rightarrow> surface option \<times> tally" where
  "tally_next t =
     (let total = t_queue t + t_topic t
      in if total = 0 then (None, t)
         else ((if unat (t_asked t) mod total < t_queue t then Some QueueSurface
                else Some TopicSurface),
               t\<lparr>t_asked := t_asked t + 1\<rparr>))"

definition next_surface :: "string \<Rightarrow> routing \<Rightarrow> surface option \<times> routing" where
  "next_surface destination r =
     (case map_of (r_publishes r) destination of
        None \<Rightarrow> (None, r)
      | Some t \<Rightarrow>
          (let (s, t') = tally_next t
           in (s, r\<lparr>r_publishes := hash_insert destination t' (r_publishes r)\<rparr>)))"

text \<open>The harness's questions about one destination, in a row.\<close>

fun ask :: "nat \<Rightarrow> string \<Rightarrow> routing \<Rightarrow> surface list \<times> routing" where
  "ask 0 destination r = ([], r)"
| "ask (Suc n) destination r =
     (case next_surface destination r of
        (None, r') \<Rightarrow> ask n destination r'
      | (Some s, r') \<Rightarrow> (let (ss, r'') = ask n destination r' in (s # ss, r'')))"

subsection \<open>Every pass is a full turn\<close>

definition turn_surface :: "nat \<Rightarrow> nat \<Rightarrow> nat \<Rightarrow> surface" where
  "turn_surface qs m i = (if i mod m < qs then QueueSurface else TopicSurface)"

lemma ask_surfaces:
  assumes "map_of (r_publishes r) d = Some t" and "hash_wf (r_publishes r)"
    and "0 < t_queue t + t_topic t" and "unat (t_asked t) + n \<le> 2 ^ 64"
  shows "fst (ask n d r) =
     map (turn_surface (t_queue t) (t_queue t + t_topic t)) [unat (t_asked t) ..< unat (t_asked t) + n]"
  using assms
proof (induction n arbitrary: r t)
  case (Suc n)
  let ?t' = "t\<lparr>t_asked := t_asked t + 1\<rparr>"
  let ?r' = "r\<lparr>r_publishes := hash_insert d ?t' (r_publishes r)\<rparr>"
  have step: "next_surface d r =
      (Some (turn_surface (t_queue t) (t_queue t + t_topic t) (unat (t_asked t))), ?r')"
    using Suc.prems by (simp add: next_surface_def tally_next_def turn_surface_def)
  have r': "map_of (r_publishes ?r') d = Some ?t'" "hash_wf (r_publishes ?r')"
    using Suc.prems by (simp_all add: hash_laws)
  show ?case
  proof (cases n)
    case 0
    with step show ?thesis by simp
  next
    case (Suc k)
    then have "unat (t_asked t) + 1 < 2 ^ 64" using Suc.prems by simp
    then have asked: "unat (t_asked t + 1) = unat (t_asked t) + 1"
      by (simp add: unat_word_ariths)
    have "fst (ask n d ?r') = map (turn_surface (t_queue t) (t_queue t + t_topic t))
        [unat (t_asked t) + 1 ..< unat (t_asked t) + 1 + n]"
      using Suc.IH [OF r'] Suc.prems asked by simp
    moreover have "[unat (t_asked t) ..< unat (t_asked t) + Suc n] =
        unat (t_asked t) # [unat (t_asked t) + 1 ..< unat (t_asked t) + 1 + n]"
      by (simp add: upt_rec)
    moreover have "fst (ask (Suc n) d r) =
        turn_surface (t_queue t) (t_queue t + t_topic t) (unat (t_asked t)) # fst (ask n d ?r')"
      using step by (simp add: split_beta)
    ultimately show ?thesis by (simp only: list.map)
  qed
qed simp

text \<open>Shifting a window of one full period keeps how often each residue occurs.\<close>

lemma period_count:
  fixes a :: nat
  shows "length (filter (\<lambda>i. i mod m < k) [a ..< a + m]) = length (filter (\<lambda>i. i mod m < k) [0 ..< m])"
proof (induction a)
  case (Suc a)
  show ?case
  proof (cases "m = 0")
    case False
    then have "[a ..< a + m] = a # [Suc a ..< a + m]" by (simp add: upt_conv_Cons)
    moreover have "[Suc a ..< Suc a + m] = [Suc a ..< a + m] @ [a + m]"
      using False by simp
    ultimately show ?thesis using Suc by (simp split: if_splits)
  qed simp
qed simp

lemma period_count_value:
  "k \<le> m \<Longrightarrow> length (filter (\<lambda>i. i mod m < k) [a ..< a + m]) = k"
proof -
  assume k: "k \<le> m"
  have "filter (\<lambda>i. i mod m < k) [0 ..< m] = filter (\<lambda>i. i < k) [0 ..< m]"
    by (rule filter_cong) auto
  also have "\<dots> = filter (\<lambda>i. i < k) ([0 ..< k] @ [k ..< m])"
    using k by (metis le0 le_add_diff_inverse upt_add_eq_append)
  also have "\<dots> = [0 ..< k]"
    by (simp add: filter_empty_conv)
  finally have "length (filter (\<lambda>i. i mod m < k) [0 ..< m]) = k" by simp
  then show ?thesis by (simp add: period_count)
qed

end
