(* ===== verification/Bus.thy ===== *)
theory Bus
  imports Queue_Descriptor Routing
begin

section \<open>The in-process account: state and operations (in\_process/bus.rs)\<close>

text \<open>
  The account a test's broker reaches: its queues, topics, log and deduplication windows, the
  harness coordinator, the shared id counter and the armed visibility timers. Every operation
  of \<open>Bus\<close> holds the account's lock for as long as it runs, so each is one state
  transformer; the account's fields and the bus's own are one record here. \<open>Instant::now()\<close>
  is the parameter \<open>now\<close>, read once per operation.

  Two things outside the repository appear through their calls only: the \<open>Coordinator\<close>,
  whose calls are appended to \<open>bus_coordinator\<close> when one is installed, and the runtime that
  runs a timer (\<open>tokio::spawn\<close> or \<open>Coordinator::schedule_redelivery\<close>), whose pending
  callbacks are \<open>bus_timers\<close>. A \<open>Notify\<close> is the number of \<open>notify_waiters\<close> calls it saw.
\<close>

subsection \<open>Constants\<close>

definition DEFAULT_VISIBILITY :: duration where "DEFAULT_VISIBILITY = from_secs 30"
definition DEDUPLICATION_WINDOW :: duration where "DEDUPLICATION_WINDOW = from_mins 5"
definition SQS_MAX_MESSAGE :: nat where "SQS_MAX_MESSAGE = 1048576"
definition SNS_MAX_MESSAGE :: nat where "SNS_MAX_MESSAGE = 262144"
definition MAX_RECEIVE_COUNT :: nat where "MAX_RECEIVE_COUNT = 1000"
definition MAX_VISIBILITY_SECS :: nat where "MAX_VISIBILITY_SECS = 12 * 60 * 60"
definition MAX_FIFO_ID :: nat where "MAX_FIFO_ID = 128"

subsection \<open>State\<close>

record outbound =
  ob_body :: string
  ob_attributes :: "(string \<times> message_attribute) list"
  ob_fifo :: "fifo_settings option"

record stored =
  st_seq :: nat
  st_outbound :: outbound
  st_receives :: nat

record in_flight =
  fl_stored :: stored
  fl_received :: instant
  fl_generation :: nat

record redrive_target =
  rt_max :: nat
  rt_queue :: string
  rt_name :: string

record bus_queue =
  q_fifo :: bool
  q_redrive :: "redrive_target option"
  q_subscriptions :: nat
  q_notify :: nat
  q_visible :: "(nat \<times> stored) list"
  q_in_flight :: "(nat \<times> in_flight) list"
  q_dedup :: "(string \<times> instant) list"

record endpoint =
  ep_queue :: string
  ep_name :: string

record 'h raw_message =
  rm_name :: string
  rm_payload :: bytes
  rm_headers :: 'h

record received =
  rc_message :: aws_message
  rc_receipt :: nat
  rc_at :: instant

datatype harness_call = Enqueued | Consumed | ScheduleRedelivery duration

record timer =
  tm_due :: instant
  tm_key :: string
  tm_receipt :: nat
  tm_generation :: nat

record 'h bus =
  bus_queues :: "(string \<times> bus_queue) list"
  bus_topics :: "(string \<times> endpoint list) list"
  bus_log :: "(string \<times> 'h raw_message list) list"
  bus_topic_dedup :: "(string \<times> (string \<times> instant) list) list"
  bus_coordinator :: "harness_call list option"
  bus_url_base :: string
  bus_next_id :: nat
  bus_timers :: "timer list"

definition new_bus :: "string option \<Rightarrow> string \<Rightarrow> 'h bus" where
  "new_bus endpoint region =
     \<lparr>bus_queues = [], bus_topics = [], bus_log = [], bus_topic_dedup = [],
      bus_coordinator = None, bus_url_base = url_base_of endpoint region, bus_next_id = 1,
      bus_timers = []\<rparr>"

definition install_coordinator :: "'h bus \<Rightarrow> 'h bus" where
  "install_coordinator b =
     (case bus_coordinator b of None \<Rightarrow> b\<lparr>bus_coordinator := Some []\<rparr> | Some _ \<Rightarrow> b)"

definition new_bus_queue :: "bool \<Rightarrow> bus_queue" where
  "new_bus_queue fifo = \<lparr>q_fifo = fifo, q_redrive = None, q_subscriptions = 0, q_notify = 0,
     q_visible = [], q_in_flight = [], q_dedup = []\<rparr>"

text \<open>\<open>queue_of\<close> creates the queue on first use; \<open>put_queue\<close> writes it back.\<close>

definition queue_of :: "'h bus \<Rightarrow> string \<Rightarrow> bus_queue" where
  "queue_of b key =
     (case map_of (bus_queues b) key of None \<Rightarrow> new_bus_queue (is_fifo key) | Some q \<Rightarrow> q)"

definition put_queue :: "string \<Rightarrow> bus_queue \<Rightarrow> 'h bus \<Rightarrow> 'h bus" where
  "put_queue key q b = b\<lparr>bus_queues := hash_insert key q (bus_queues b)\<rparr>"

definition tell :: "harness_call \<Rightarrow> 'h bus \<Rightarrow> 'h bus" where
  "tell c b = b\<lparr>bus_coordinator := map_option (\<lambda>cs. cs @ [c]) (bus_coordinator b)\<rparr>"

definition bus_url :: "'h bus \<Rightarrow> string \<Rightarrow> string" where
  "bus_url b key = queue_url_of (bus_url_base b) key"

subsection \<open>Groups and deduplication\<close>

definition group_of :: "stored \<Rightarrow> string option" where
  "group_of s = map_option fifo_group (ob_fifo (st_outbound s))"

definition blocked_groups :: "bus_queue \<Rightarrow> string set" where
  "blocked_groups q =
     (if q_fifo q
      then set (List.map_filter (\<lambda>e. group_of (fl_stored (snd e))) (q_in_flight q))
      else {})"

definition not_blocked :: "string set \<Rightarrow> stored \<Rightarrow> bool" where
  "not_blocked blocked s = (case group_of s of None \<Rightarrow> True | Some g \<Rightarrow> g \<notin> blocked)"

definition next_receivable :: "bus_queue \<Rightarrow> string set \<Rightarrow> nat option" where
  "next_receivable q blocked =
     map_option st_seq (find (not_blocked blocked) (map snd (q_visible q)))"

definition seen_within_window ::
    "instant \<Rightarrow> string \<Rightarrow> (string \<times> instant) list \<Rightarrow> bool \<times> (string \<times> instant) list" where
  "seen_within_window now ident seen =
     (let kept = filter (\<lambda>e. now - snd e < DEDUPLICATION_WINDOW) seen
      in if map_of kept ident \<noteq> None then (True, kept) else (False, hash_insert ident now kept))"

subsection \<open>What the account refuses in a message\<close>

definition attribute_name_char :: "nat \<Rightarrow> bool" where
  "attribute_name_char v \<longleftrightarrow> v < 128 \<and>
     (is_ascii_alphanumeric (of_byte v) \<or> of_byte v \<in> {CHR ''_'', CHR ''-'', CHR ''.''})"

definition check_attribute_name :: "string \<Rightarrow> (refusal, unit) rresult" where
  "check_attribute_name name =
     (let lower = to_ascii_lowercase name
      in if name \<noteq> [] \<and> length name \<le> 256 \<and> list_all attribute_name_char (chars name)
            \<and> \<not> starts_with name ''.'' \<and> \<not> ends_with name ''.'' \<and> \<not> contains_str name ''..''
            \<and> \<not> starts_with lower ''aws.'' \<and> \<not> starts_with lower ''amazon.''
         then Ok () else Err (AttributeNameRefused name))"

definition value_len :: "message_attribute \<Rightarrow> nat" where
  "value_len a = (case string_value a of None \<Rightarrow> 0 | Some s \<Rightarrow> length s)
     + (case binary_value a of None \<Rightarrow> 0 | Some bs \<Rightarrow> length bs)"

fun check_attributes :: "(string \<times> message_attribute) list \<Rightarrow> nat \<Rightarrow> (refusal, nat) rresult" where
  "check_attributes [] bytes_so_far = Ok bytes_so_far"
| "check_attributes ((name, a) # as) bytes_so_far =
     (case check_attribute_name name of
        Inl e \<Rightarrow> Err e
      | Inr _ \<Rightarrow>
          if value_len a = 0 then Err (AttributeValueEmpty name)
          else check_attributes as (bytes_so_far + (length name + length (data_type a) + value_len a)))"

definition check_message :: "outbound \<Rightarrow> nat \<Rightarrow> (refusal, unit) rresult" where
  "check_message ob limit =
     (if ob_body ob = [] then Err BodyEmpty
      else if \<not> is_service_text (ob_body ob) then Err BodyNotText
      else case check_attributes (ob_attributes ob) (length (ob_body ob)) of
             Inl e \<Rightarrow> Err e
           | Inr bytes_so_far \<Rightarrow> if limit < bytes_so_far then Err (MessageTooLarge bytes_so_far limit) else Ok ())"

definition fifo_id_char :: "nat \<Rightarrow> bool" where
  "fifo_id_char v \<longleftrightarrow> v < 128 \<and> (is_ascii_alphanumeric (of_byte v) \<or> is_ascii_punctuation (of_byte v))"

definition fifo_id_ok :: "string \<Rightarrow> bool" where
  "fifo_id_ok i \<longleftrightarrow> i \<noteq> [] \<and> length i \<le> MAX_FIFO_ID \<and> list_all fifo_id_char (chars i)"

definition check_fifo :: "outbound \<Rightarrow> (refusal, unit) rresult" where
  "check_fifo ob =
     (case ob_fifo ob of None \<Rightarrow> Ok ()
      | Some s \<Rightarrow>
          if \<not> fifo_id_ok (fifo_group s) then Err (FifoIdRefused ''MessageGroupId'' (fifo_group s))
          else if \<not> fifo_id_ok (fifo_deduplication s)
          then Err (FifoIdRefused ''MessageDeduplicationId'' (fifo_deduplication s))
          else Ok ())"

subsection \<open>The message a receive returns, and the log\<close>

definition wire_message :: "outbound \<Rightarrow> nat option \<Rightarrow> nat option \<Rightarrow> aws_message" where
  "wire_message ob receipt receives =
     (let system = (case receives of None \<Rightarrow> [] | Some n \<Rightarrow> [(ApproximateReceiveCount, show_nat n)])
            @ (case ob_fifo ob of None \<Rightarrow> [] | Some s \<Rightarrow> [(MessageGroupId, fifo_group s)])
      in \<lparr>msg_body = Some (ob_body ob),
          msg_attributes = (if ob_attributes ob = [] then None else Some (ob_attributes ob)),
          msg_system = (if system = [] then None else Some system),
          msg_receipt = map_option show_nat receipt\<rparr>)"

definition log_entry :: "'h externals \<Rightarrow> string \<Rightarrow> outbound \<Rightarrow> 'h raw_message" where
  "log_entry x name ob =
     (let (payload, headers) = decode_message x (wire_message ob None None)
      in \<lparr>rm_name = name, rm_payload = payload, rm_headers = headers\<rparr>)"

definition push_log :: "string \<Rightarrow> 'h raw_message \<Rightarrow> 'h bus \<Rightarrow> 'h bus" where
  "push_log name entry b =
     (let entries = (case map_of (bus_log b) name of None \<Rightarrow> [] | Some es \<Rightarrow> es)
      in b\<lparr>bus_log := hash_insert name (entries @ [entry]) (bus_log b)\<rparr>)"

definition bus_published :: "string \<Rightarrow> 'h bus \<Rightarrow> 'h raw_message list" where
  "bus_published name b = (case map_of (bus_log b) name of None \<Rightarrow> [] | Some es \<Rightarrow> es)"

subsection \<open>Arrivals\<close>

definition enqueue :: "string \<Rightarrow> stored \<Rightarrow> 'h bus \<Rightarrow> 'h bus" where
  "enqueue key s b =
     (let q = queue_of b key
      in if q_subscriptions q = 0 then put_queue key q b
         else put_queue key
                (q\<lparr>q_visible := btree_insert (st_seq s) s (q_visible q), q_notify := q_notify q + 1\<rparr>)
                (tell Enqueued b))"

definition deliver_fresh :: "string \<Rightarrow> outbound \<Rightarrow> 'h bus \<Rightarrow> 'h bus" where
  "deliver_fresh key ob b =
     enqueue key \<lparr>st_seq = bus_next_id b, st_outbound = ob, st_receives = 0\<rparr>
       (b\<lparr>bus_next_id := bus_next_id b + 1\<rparr>)"

definition deliver :: "instant \<Rightarrow> string \<Rightarrow> outbound \<Rightarrow> 'h bus \<Rightarrow> 'h bus" where
  "deliver now key ob b =
     (let q = queue_of b key
      in case ob_fifo ob of
           None \<Rightarrow> deliver_fresh key ob (put_queue key q b)
         | Some s \<Rightarrow>
             (let (dup, seen) = seen_within_window now (fifo_deduplication s) (q_dedup q);
                  b' = put_queue key (q\<lparr>q_dedup := seen\<rparr>) b
              in if dup then b' else deliver_fresh key ob b'))"

definition bus_send ::
    "'h externals \<Rightarrow> instant \<Rightarrow> string \<Rightarrow> string \<Rightarrow> outbound \<Rightarrow> 'h bus
      \<Rightarrow> (refusal, unit) rresult \<times> 'h bus" where
  "bus_send x now name key ob b =
     (case check_message ob SQS_MAX_MESSAGE of
        Inl e \<Rightarrow> (Err e, b)
      | Inr _ \<Rightarrow>
          if is_fifo key \<and> ob_fifo ob = None then (Err FifoQueueNeedsGroup, b)
          else if \<not> is_fifo key \<and> ob_fifo ob \<noteq> None then (Err FifoSettingsOnStandardQueue, b)
          else (case check_fifo ob of
                  Inl e \<Rightarrow> (Err e, b)
                | Inr _ \<Rightarrow> (Ok (), deliver now key ob (push_log name (log_entry x name ob) b))))"

subsection \<open>Topics\<close>

fun fan_out :: "'h externals \<Rightarrow> instant \<Rightarrow> outbound \<Rightarrow> endpoint list \<Rightarrow> 'h bus \<Rightarrow> 'h bus" where
  "fan_out x now ob [] b = b"
| "fan_out x now ob (ep # eps) b =
     (let copy = (if is_fifo (ep_queue ep) then ob else ob\<lparr>ob_fifo := None\<rparr>)
      in fan_out x now ob eps
           (deliver now (ep_queue ep) copy (push_log (ep_name ep) (log_entry x (ep_name ep) copy) b)))"

definition endpoints_of :: "'h bus \<Rightarrow> string \<Rightarrow> endpoint list" where
  "endpoints_of b topic = (case map_of (bus_topics b) topic of None \<Rightarrow> [] | Some eps \<Rightarrow> eps)"

definition bus_publish_topic ::
    "'h externals \<Rightarrow> instant \<Rightarrow> string \<Rightarrow> string \<Rightarrow> outbound \<Rightarrow> 'h bus
      \<Rightarrow> (refusal, unit) rresult \<times> 'h bus" where
  "bus_publish_topic x now name topic ob b =
     (case check_message ob SNS_MAX_MESSAGE of
        Inl e \<Rightarrow> (Err e, b)
      | Inr _ \<Rightarrow>
          if is_fifo topic \<and> ob_fifo ob = None then (Err FifoTopicNeedsGroup, b)
          else if \<not> is_fifo topic \<and> ob_fifo ob \<noteq> None then (Err FifoSettingsOnStandardTopic, b)
          else (case check_fifo ob of
                  Inl e \<Rightarrow> (Err e, b)
                | Inr _ \<Rightarrow>
                    (let b1 = push_log name (log_entry x name ob) b
                     in case ob_fifo ob of
                          None \<Rightarrow> (Ok (), fan_out x now ob (endpoints_of b1 topic) b1)
                        | Some s \<Rightarrow>
                            (let seen = (case map_of (bus_topic_dedup b1) topic of
                                           None \<Rightarrow> [] | Some m \<Rightarrow> m);
                                 (dup, seen') = seen_within_window now (fifo_deduplication s) seen;
                                 b2 = b1\<lparr>bus_topic_dedup := hash_insert topic seen' (bus_topic_dedup b1)\<rparr>
                             in if dup then (Ok (), b2)
                                else (Ok (), fan_out x now ob (endpoints_of b2 topic) b2)))))"

definition bus_subscribe_topic ::
    "string \<Rightarrow> string \<Rightarrow> string \<Rightarrow> 'h bus \<Rightarrow> (refusal, unit) rresult \<times> 'h bus" where
  "bus_subscribe_topic topic queue name b =
     (if \<not> is_fifo topic \<and> is_fifo queue then (Err (FifoQueueOnStandardTopic name), b)
      else let eps = endpoints_of b topic;
               eps' = (if list_ex (\<lambda>ep. ep_queue ep = queue) eps then eps
                       else eps @ [\<lparr>ep_queue = queue, ep_name = name\<rparr>])
           in (Ok (), b\<lparr>bus_topics := hash_insert topic eps' (bus_topics b)\<rparr>))"

subsection \<open>Subscriptions and the redrive policy\<close>

definition bus_open :: "string \<Rightarrow> 'h bus \<Rightarrow> 'h bus" where
  "bus_open key b =
     (let q = queue_of b key in put_queue key (q\<lparr>q_subscriptions := q_subscriptions q + 1\<rparr>) b)"

definition bus_close :: "string \<Rightarrow> 'h bus \<Rightarrow> 'h bus" where
  "bus_close key b =
     (let q = queue_of b key;
          q1 = q\<lparr>q_subscriptions := q_subscriptions q - 1\<rparr>
      in if q_subscriptions q1 = 0
         then (tell Consumed ^^ length (q_visible q1)) (put_queue key (q1\<lparr>q_visible := []\<rparr>) b)
         else put_queue key q1 b)"

definition bus_set_redrive ::
    "string \<Rightarrow> nat \<Rightarrow> string \<Rightarrow> 'h bus \<Rightarrow> (refusal, unit) rresult \<times> 'h bus" where
  "bus_set_redrive key limit dl b =
     (case queue_key dl of
        Inl e \<Rightarrow> (Err e, b)
      | Inr target \<Rightarrow>
          if MAX_RECEIVE_COUNT < limit then (Err (MaxReceiveCountTooLarge limit), b)
          else if is_fifo key \<noteq> is_fifo target then (Err (DeadLetterKindMismatch (is_fifo key) dl), b)
          else let b1 = put_queue target (queue_of b target) b;
                   q = queue_of b1 key
               in (Ok (), put_queue key
                     (q\<lparr>q_redrive := Some \<lparr>rt_max = limit, rt_queue = target, rt_name = dl\<rparr>\<rparr>) b1))"

subsection \<open>Receiving\<close>

definition bus_receivable :: "string \<Rightarrow> nat \<Rightarrow> 'h bus \<Rightarrow> nat \<times> 'h bus" where
  "bus_receivable key limit b =
     (let q = queue_of b key
      in (length (take limit (filter (not_blocked (blocked_groups q)) (map snd (q_visible q)))),
          put_queue key q b))"

text \<open>The redrive target of a message the policy has run out on, the message handed over as
  receipt \<open>nid\<close>, and the queue after that.\<close>

definition exhausted :: "bus_queue \<Rightarrow> stored \<Rightarrow> redrive_target option" where
  "exhausted q s =
     (case q_redrive q of None \<Rightarrow> None
      | Some rd \<Rightarrow> if rt_max rd \<le> st_receives s then Some rd else None)"

definition counted :: "stored \<Rightarrow> stored" where
  "counted s = s\<lparr>st_receives := u32_saturating_add (st_receives s) 1\<rparr>"

definition handed :: "instant \<Rightarrow> nat \<Rightarrow> stored \<Rightarrow> received" where
  "handed now nid s = \<lparr>rc_message = wire_message (st_outbound s) (Some nid) (Some (st_receives s)),
                       rc_receipt = nid, rc_at = now\<rparr>"

definition fly :: "instant \<Rightarrow> nat \<Rightarrow> stored \<Rightarrow> bus_queue \<Rightarrow> bus_queue" where
  "fly now nid s q = q\<lparr>q_in_flight :=
     hash_insert nid \<lparr>fl_stored = s, fl_received = now, fl_generation = 0\<rparr> (q_in_flight q)\<rparr>"

text \<open>The loop of one receive: it ends when \<open>limit\<close> messages are handed over or nothing
  receivable is left; every turn takes one message out of the visible ones.\<close>

lemma btree_remove_shorter: "map_of m k = Some v \<Longrightarrow> length (btree_remove k m) < length m"
  by (induction m rule: btree_remove.induct) (auto split: if_splits)

function receive_loop ::
    "instant \<Rightarrow> string set \<Rightarrow> nat \<Rightarrow> bus_queue \<Rightarrow> nat \<Rightarrow> received list \<Rightarrow> (redrive_target \<times> stored) list
      \<Rightarrow> bus_queue \<times> nat \<times> received list \<times> (redrive_target \<times> stored) list" where
  "receive_loop now blocked limit q nid rcvd spnt =
     (if limit \<le> length rcvd then (q, nid, rcvd, spnt)
      else case next_receivable q blocked of
             None \<Rightarrow> (q, nid, rcvd, spnt)
           | Some seq \<Rightarrow>
               (case map_of (q_visible q) seq of
                  None \<Rightarrow> (q, nid, rcvd, spnt)
                | Some s \<Rightarrow>
                    (let q1 = q\<lparr>q_visible := btree_remove seq (q_visible q)\<rparr>
                     in case exhausted q s of
                          Some rd \<Rightarrow> receive_loop now blocked limit q1 nid rcvd (spnt @ [(rd, s)])
                        | None \<Rightarrow> receive_loop now blocked limit (fly now nid (counted s) q1) (nid + 1)
                                   (rcvd @ [handed now nid (counted s)]) spnt)))"
  by pat_completeness auto

termination
  by (relation "measure (\<lambda>(now, blocked, limit, q, nid, rcvd, spnt). length (q_visible q))")
    (auto simp: fly_def btree_remove_shorter)

declare receive_loop.simps [simp del]

text \<open>The messages the loop found spent, moved to their dead-letter queues in order.\<close>

definition redrive_one ::
    "'h externals \<Rightarrow> redrive_target \<Rightarrow> stored \<Rightarrow> 'h bus \<Rightarrow> 'h bus" where
  "redrive_one x rd s b =
     enqueue (rt_queue rd) s
       (push_log (rt_name rd) (log_entry x (rt_name rd) (st_outbound s)) (tell Consumed b))"

fun redrive_spent ::
    "'h externals \<Rightarrow> (redrive_target \<times> stored) list \<Rightarrow> 'h bus \<Rightarrow> 'h bus" where
  "redrive_spent x [] b = b"
| "redrive_spent x ((rd, s) # rest) b = redrive_spent x rest (redrive_one x rd s b)"

definition bus_receive ::
    "'h externals \<Rightarrow> instant \<Rightarrow> string \<Rightarrow> nat \<Rightarrow> 'h bus \<Rightarrow> received list \<times> 'h bus" where
  "bus_receive x now key limit b =
     (let q = queue_of b key;
          (q', nid, rcvd, spnt) =
             receive_loop now (blocked_groups q) limit q (bus_next_id b) [] []
      in (rcvd, redrive_spent x spnt ((put_queue key q' b)\<lparr>bus_next_id := nid\<rparr>)))"

subsection \<open>Settling\<close>

definition bus_delete :: "string \<Rightarrow> nat \<Rightarrow> 'h bus \<Rightarrow> 'h bus" where
  "bus_delete key receipt b =
     (let q = queue_of b key
      in case map_of (q_in_flight q) receipt of
           None \<Rightarrow> put_queue key q b
         | Some _ \<Rightarrow> put_queue key
             (q\<lparr>q_in_flight := hash_remove receipt (q_in_flight q), q_notify := q_notify q + 1\<rparr>) b)"

definition lapse_after :: "instant \<Rightarrow> duration \<Rightarrow> string \<Rightarrow> nat \<Rightarrow> nat \<Rightarrow> 'h bus \<Rightarrow> 'h bus" where
  "lapse_after now delay key receipt generation b =
     (tell (ScheduleRedelivery delay) b)\<lparr>bus_timers := bus_timers b @
        [\<lparr>tm_due = now + delay, tm_key = key, tm_receipt = receipt, tm_generation = generation\<rparr>]\<rparr>"

text \<open>The entry leaves the ones in flight and its message is visible again.\<close>

definition requeue :: "string \<Rightarrow> nat \<Rightarrow> in_flight \<Rightarrow> 'h bus \<Rightarrow> 'h bus" where
  "requeue key receipt e b =
     (let q = queue_of b key
      in enqueue key (fl_stored e)
           (put_queue key (q\<lparr>q_in_flight := hash_remove receipt (q_in_flight q)\<rparr>) b))"

definition bus_change_visibility ::
    "instant \<Rightarrow> string \<Rightarrow> nat \<Rightarrow> duration \<Rightarrow> 'h bus \<Rightarrow> (refusal, unit) rresult \<times> 'h bus" where
  "bus_change_visibility now key receipt visibility b =
     (if MAX_VISIBILITY_SECS < as_secs visibility then (Err VisibilityTooLong, b)
      else
        let q = queue_of b key; b1 = put_queue key q b
        in case map_of (q_in_flight q) receipt of
             None \<Rightarrow> (Err ReceiptNotInFlight, b1)
           | Some e \<Rightarrow>
               if visibility = 0 then (Ok (), requeue key receipt e b1)
               else if VISIBILITY_WINDOW < (now - fl_received e) + visibility
               then (Err (WindowExceeded (as_secs (now - fl_received e)) (as_secs visibility)), b1)
               else let e' = e\<lparr>fl_generation := fl_generation e + 1\<rparr>
                    in (Ok (), lapse_after now visibility key receipt (fl_generation e')
                          (put_queue key
                             (q\<lparr>q_in_flight := hash_insert receipt e' (q_in_flight q)\<rparr>) b1)))"

definition lapse :: "string \<Rightarrow> nat \<Rightarrow> nat \<Rightarrow> 'h bus \<Rightarrow> 'h bus" where
  "lapse key receipt generation b =
     (let q = queue_of b key; b1 = put_queue key q b
      in case map_of (q_in_flight q) receipt of
           None \<Rightarrow> b1
         | Some e \<Rightarrow> if fl_generation e = generation then requeue key receipt e b1 else b1)"

text \<open>The runtime runs a pending timer: it is taken off the pending ones and its callback runs.\<close>

definition fire_timer :: "nat \<Rightarrow> 'h bus \<Rightarrow> 'h bus" where
  "fire_timer i b =
     (let tm = bus_timers b ! i
      in lapse (tm_key tm) (tm_receipt tm) (tm_generation tm)
           (b\<lparr>bus_timers := take i (bus_timers b) @ drop (Suc i) (bus_timers b)\<rparr>))"

end
