(* ===== verification/Bus_Laws.thy ===== *)
theory Bus_Laws
  imports Bus "HOL-Library.Multiset"
begin

section \<open>Laws of the in-process account\<close>

text \<open>
  What the account's operations do, seen through its queues (\<open>queue_of\<close>) and through totals
  over all queues. The account's queues form a keyed store in the sense of the locale
  \<open>keyed_store\<close>; a receive is shown to be one walk over the visible messages
  (\<open>receive_walk\<close>).
\<close>

subsection \<open>The account as a keyed store\<close>

text \<open>A store answers, for every key, the value written last, and a sum over its values moves
  by exactly what a write changes.\<close>

locale keyed_store =
  fixes look :: "'s \<Rightarrow> 'k \<Rightarrow> 'v" and store :: "'k \<Rightarrow> 'v \<Rightarrow> 's \<Rightarrow> 's"
    and weigh :: "('v \<Rightarrow> 'm::cancel_comm_monoid_add) \<Rightarrow> 's \<Rightarrow> 'm"
    and blank :: "'v \<Rightarrow> bool"
  assumes look_store: "look (store k v s) k' = (if k' = k then v else look s k')"
    and weigh_store: "(\<And>w. blank w \<Longrightarrow> f w = 0) \<Longrightarrow>
          weigh f (store k v s) + f (look s k) = weigh f s + f v"
    and weigh_above: "(\<And>w. blank w \<Longrightarrow> f w = 0) \<Longrightarrow> \<exists>rest. weigh f s = f (look s k) + rest"
begin

lemma look_same [simp]: "look (store k v s) k = v"
  by (simp add: look_store)

lemma weigh_gain:
  assumes "\<And>w. blank w \<Longrightarrow> f w = 0" and "f v = f (look s k) + d"
  shows "weigh f (store k v s) = weigh f s + d"
proof -
  have "weigh f (store k v s) + f (look s k) = (weigh f s + d) + f (look s k)"
    using weigh_store [of f k v s] assms by (simp add: ac_simps)
  then show ?thesis by simp
qed

lemma weigh_loss:
  assumes "\<And>w. blank w \<Longrightarrow> f w = 0" and "f (look s k) = f v + d"
  shows "weigh f (store k v s) + d = weigh f s"
proof -
  have "(weigh f (store k v s) + d) + f v = weigh f s + f v"
    using weigh_store [of f k v s] assms by (simp add: ac_simps)
  then show ?thesis by simp
qed

lemma weigh_same:
  assumes "\<And>w. blank w \<Longrightarrow> f w = 0" and "f v = f (look s k)"
  shows "weigh f (store k v s) = weigh f s"
  using weigh_gain [of f v s k 0] assms by simp

end

definition across :: "(bus_queue \<Rightarrow> 'm::cancel_comm_monoid_add) \<Rightarrow> 'h bus \<Rightarrow> 'm" where
  "across f b = (\<Sum>e\<leftarrow>bus_queues b. f (snd e))"

definition blank_queue :: "bus_queue \<Rightarrow> bool" where
  "blank_queue q \<longleftrightarrow> q_visible q = [] \<and> q_in_flight q = [] \<and> q_subscriptions q = 0"

lemma queue_of_put: "queue_of (put_queue k q b) k' = (if k' = k then q else queue_of b k')"
  by (simp add: queue_of_def put_queue_def hash_insert_def update_conv')

lemma blank_new_queue [simp]: "blank_queue (new_bus_queue fifo)"
  by (simp add: blank_queue_def new_bus_queue_def)

lemma sum_hash_insert:
  fixes f :: "'v \<Rightarrow> 'm::cancel_comm_monoid_add"
  shows "(\<Sum>e\<leftarrow>hash_insert k v m. f (snd e)) + (case map_of m k of None \<Rightarrow> 0 | Some w \<Rightarrow> f w) =
     (\<Sum>e\<leftarrow>m. f (snd e)) + f v"
  unfolding hash_insert_def
  by (induction m) (auto simp: ac_simps)

lemma sum_map_of:
  fixes f :: "'v \<Rightarrow> 'm::cancel_comm_monoid_add"
  shows "map_of m k = Some w \<Longrightarrow> \<exists>rest. (\<Sum>e\<leftarrow>m. f (snd e)) = f w + rest"
proof (induction m)
  case (Cons e m)
  show ?case
  proof (cases "fst e = k")
    case True with Cons show ?thesis by auto
  next
    case False
    with Cons obtain rest where "(\<Sum>e\<leftarrow>m. f (snd e)) = f w + rest" by auto
    then have "(\<Sum>e\<leftarrow>e # m. f (snd e)) = f w + (f (snd e) + rest)" by (simp add: ac_simps)
    then show ?thesis by blast
  qed
qed simp

interpretation acct: keyed_store queue_of put_queue across blank_queue
proof
  fix k k' v and s :: "'h bus" and f :: "bus_queue \<Rightarrow> 'm::cancel_comm_monoid_add"
  show "queue_of (put_queue k v s) k' = (if k' = k then v else queue_of s k')"
    by (rule queue_of_put)
  assume blank: "\<And>w. blank_queue w \<Longrightarrow> f w = 0"
  show "across f (put_queue k v s) + f (queue_of s k) = across f s + f v"
    using sum_hash_insert [of f k v "bus_queues s"] blank
    by (simp add: across_def put_queue_def queue_of_def split: option.splits)
  show "\<exists>rest. across f s = f (queue_of s k) + rest"
    using sum_map_of [of "bus_queues s" k _ f] blank
    by (auto simp: across_def queue_of_def split: option.split)
qed

subsection \<open>What an operation leaves alone\<close>

lemma put_queue_fields [simp]:
  "bus_topics (put_queue k q b) = bus_topics b" "bus_log (put_queue k q b) = bus_log b"
  "bus_topic_dedup (put_queue k q b) = bus_topic_dedup b"
  "bus_coordinator (put_queue k q b) = bus_coordinator b"
  "bus_url_base (put_queue k q b) = bus_url_base b"
  "bus_next_id (put_queue k q b) = bus_next_id b" "bus_timers (put_queue k q b) = bus_timers b"
  by (simp_all add: put_queue_def)

lemma tell_fields [simp]:
  "bus_queues (tell c b) = bus_queues b" "bus_topics (tell c b) = bus_topics b"
  "bus_log (tell c b) = bus_log b" "bus_topic_dedup (tell c b) = bus_topic_dedup b"
  "bus_url_base (tell c b) = bus_url_base b"
  "bus_next_id (tell c b) = bus_next_id b" "bus_timers (tell c b) = bus_timers b"
  "bus_coordinator (tell c b) = map_option (\<lambda>cs. cs @ [c]) (bus_coordinator b)"
  by (simp_all add: tell_def)

lemma push_log_fields [simp]:
  "bus_queues (push_log n e b) = bus_queues b" "bus_topics (push_log n e b) = bus_topics b"
  "bus_topic_dedup (push_log n e b) = bus_topic_dedup b"
  "bus_coordinator (push_log n e b) = bus_coordinator b"
  "bus_url_base (push_log n e b) = bus_url_base b"
  "bus_next_id (push_log n e b) = bus_next_id b" "bus_timers (push_log n e b) = bus_timers b"
  by (simp_all add: push_log_def Let_def)

lemma queue_of_cong: "bus_queues b = bus_queues b' \<Longrightarrow> queue_of b k = queue_of b' k"
  by (simp add: queue_of_def)

lemma across_cong: "bus_queues b = bus_queues b' \<Longrightarrow> across f b = across f b'"
  by (simp add: across_def)

lemma queue_of_updates [simp]:
  "queue_of (b\<lparr>bus_next_id := n\<rparr>) k = queue_of b k" "queue_of (b\<lparr>bus_timers := ts\<rparr>) k = queue_of b k"
  "queue_of (b\<lparr>bus_log := l\<rparr>) k = queue_of b k" "queue_of (b\<lparr>bus_topics := tp\<rparr>) k = queue_of b k"
  "queue_of (b\<lparr>bus_coordinator := c\<rparr>) k = queue_of b k"
  "queue_of (b\<lparr>bus_topic_dedup := d\<rparr>) k = queue_of b k"
  "queue_of (tell c2 b) k = queue_of b k" "queue_of (push_log nm e b) k = queue_of b k"
  by (simp_all add: queue_of_def)

lemma across_updates [simp]:
  "across f (b\<lparr>bus_next_id := n\<rparr>) = across f b" "across f (b\<lparr>bus_timers := ts\<rparr>) = across f b"
  "across f (b\<lparr>bus_log := l\<rparr>) = across f b" "across f (b\<lparr>bus_topics := tp\<rparr>) = across f b"
  "across f (b\<lparr>bus_coordinator := c\<rparr>) = across f b"
  "across f (b\<lparr>bus_topic_dedup := d\<rparr>) = across f b"
  "across f (tell c2 b) = across f b" "across f (push_log nm e b) = across f b"
  by (simp_all add: across_def)

lemma tell_pow_fields [simp]:
  "bus_queues ((tell c ^^ n) b) = bus_queues b" "bus_topics ((tell c ^^ n) b) = bus_topics b"
  "bus_log ((tell c ^^ n) b) = bus_log b" "bus_next_id ((tell c ^^ n) b) = bus_next_id b"
  "bus_topic_dedup ((tell c ^^ n) b) = bus_topic_dedup b"
  "bus_timers ((tell c ^^ n) b) = bus_timers b" "queue_of ((tell c ^^ n) b) k = queue_of b k"
  "across f ((tell c ^^ n) b) = across f b"
  "bus_coordinator ((tell c ^^ n) b) = map_option (\<lambda>cs. cs @ replicate n c) (bus_coordinator b)"
proof -
  show "bus_queues ((tell c ^^ n) b) = bus_queues b" by (induction n) simp_all
  then show "queue_of ((tell c ^^ n) b) k = queue_of b k" "across f ((tell c ^^ n) b) = across f b"
    by (simp_all add: queue_of_def across_def)
  show "bus_topics ((tell c ^^ n) b) = bus_topics b" "bus_log ((tell c ^^ n) b) = bus_log b"
    "bus_next_id ((tell c ^^ n) b) = bus_next_id b" "bus_timers ((tell c ^^ n) b) = bus_timers b"
    "bus_topic_dedup ((tell c ^^ n) b) = bus_topic_dedup b"
    by (induction n; simp)+
  show "bus_coordinator ((tell c ^^ n) b) = map_option (\<lambda>cs. cs @ replicate n c) (bus_coordinator b)"
    by (induction n) (simp_all add: option.map_comp comp_def replicate_append_same option.map_ident)
qed

subsection \<open>Queues in good order\<close>

text \<open>Every entry sits under its own number, numbers were handed out by the account, nothing was
  received in the future, and a queue nobody reads holds nothing.\<close>

definition queue_ok :: "instant \<Rightarrow> nat \<Rightarrow> bus_queue \<Rightarrow> bool" where
  "queue_ok clock nid q \<longleftrightarrow>
     btree_wf (q_visible q) \<and> hash_wf (q_in_flight q) \<and>
     (\<forall>e \<in> set (q_visible q). st_seq (snd e) = fst e \<and> fst e < nid) \<and>
     (\<forall>e \<in> set (q_in_flight q). fst e < nid \<and> st_seq (fl_stored (snd e)) < nid \<and>
        fl_received (snd e) \<le> clock) \<and>
     (q_subscriptions q = 0 \<longrightarrow> q_visible q = [])"

definition queue_seqs :: "bus_queue \<Rightarrow> nat multiset" where
  "queue_seqs q = mset (map fst (q_visible q)) + mset (map (st_seq \<circ> fl_stored \<circ> snd) (q_in_flight q))"

definition all_seqs :: "'h bus \<Rightarrow> nat multiset" where
  "all_seqs b = across queue_seqs b"

definition visible_total :: "'h bus \<Rightarrow> nat" where
  "visible_total b = across (length \<circ> q_visible) b"

lemma blank_weights [simp]:
  "blank_queue w \<Longrightarrow> queue_seqs w = 0" "blank_queue w \<Longrightarrow> q_visible w = []"
  by (simp_all add: blank_queue_def queue_seqs_def)

lemma queue_ok_mono: "queue_ok c n q \<Longrightarrow> c \<le> c' \<Longrightarrow> n \<le> n' \<Longrightarrow> queue_ok c' n' q"
  unfolding queue_ok_def by fastforce

lemma queue_ok_new [simp]: "queue_ok c n (new_bus_queue f)"
  by (simp add: queue_ok_def new_bus_queue_def btree_wf_def hash_wf_def)

subsection \<open>A receive is one walk over the visible messages\<close>

fun receive_walk ::
    "(stored \<Rightarrow> redrive_target option) \<Rightarrow> (stored \<Rightarrow> bool) \<Rightarrow> nat \<Rightarrow> (nat \<times> stored) list
      \<Rightarrow> (nat \<times> stored) list \<times> stored list \<times> (redrive_target \<times> stored) list" where
  "receive_walk ex free n [] = ([], [], [])"
| "receive_walk ex free n (e # vs) =
     (if n = 0 then (e # vs, [], [])
      else if \<not> free (snd e)
      then (let (kept, out, spnt) = receive_walk ex free n vs in (e # kept, out, spnt))
      else case ex (snd e) of
             Some rd \<Rightarrow> (let (kept, out, spnt) = receive_walk ex free n vs
                        in (kept, out, (rd, snd e) # spnt))
           | None \<Rightarrow> (let (kept, out, spnt) = receive_walk ex free (n - 1) vs
                      in (kept, snd e # out, spnt)))"

definition flights :: "instant \<Rightarrow> nat \<Rightarrow> stored list \<Rightarrow> (nat \<times> in_flight) list" where
  "flights now nid ss =
     map (\<lambda>(i, s). (i, \<lparr>fl_stored = counted s, fl_received = now, fl_generation = 0\<rparr>)) (enumerate nid ss)"

definition handovers :: "instant \<Rightarrow> nat \<Rightarrow> stored list \<Rightarrow> received list" where
  "handovers now nid ss = map (\<lambda>(i, s). handed now i (counted s)) (enumerate nid ss)"

lemma flights_simps [simp]:
  "flights now nid [] = []"
  "flights now nid (s # ss) =
     (nid, \<lparr>fl_stored = counted s, fl_received = now, fl_generation = 0\<rparr>) # flights now (Suc nid) ss"
  by (simp_all add: flights_def)

lemma handovers_simps [simp]:
  "handovers now nid [] = []"
  "handovers now nid (s # ss) = handed now nid (counted s) # handovers now (Suc nid) ss"
  by (simp_all add: handovers_def)

lemma walk_zero [simp]: "receive_walk ex free 0 vs = (vs, [], [])"
  by (cases vs) simp_all

lemma next_receivable_skip:
  assumes "q_visible q = pre @ e # vs" and "\<forall>p \<in> set pre. \<not> not_blocked bl (snd p)"
    and "not_blocked bl (snd e)"
  shows "next_receivable q bl = Some (st_seq (snd e))"
proof -
  have "find (not_blocked bl) (map snd pre @ snd e # rest) = Some (snd e)" for rest
    using assms(2,3) by (induction pre) auto
  then show ?thesis by (simp add: next_receivable_def assms(1))
qed

lemma next_receivable_none:
  "(\<forall>p \<in> set (q_visible q). \<not> not_blocked bl (snd p)) \<Longrightarrow> next_receivable q bl = None"
  by (auto simp: next_receivable_def find_None_iff)

lemma btree_wf_drop_mid: "btree_wf (pre @ e # vs) \<Longrightarrow> btree_wf (pre @ vs)"
  by (simp add: btree_wf_def sorted_wrt_append)

lemma btree_mid:
  assumes "btree_wf (pre @ e # vs)"
  shows "map_of (pre @ e # vs) (fst e) = Some (snd e)" "btree_remove (fst e) (pre @ e # vs) = pre @ vs"
proof -
  have notin: "fst e \<notin> fst ` set pre"
    using assms by (auto simp: btree_wf_def sorted_wrt_append)
  show "map_of (pre @ e # vs) (fst e) = Some (snd e)"
    using notin by (induction pre) auto
  show "btree_remove (fst e) (pre @ e # vs) = pre @ vs"
    using notin by (induction pre) (cases e; auto)+
qed

lemma exhausted_cong: "q_redrive q = q_redrive q' \<Longrightarrow> exhausted q s = exhausted q' s"
  by (simp add: exhausted_def)

lemma receive_loop_walk:
  assumes "q_visible q = pre @ vs" and "btree_wf (q_visible q)"
    and "\<forall>e \<in> set vs. st_seq (snd e) = fst e"
    and "\<forall>p \<in> set pre. \<not> not_blocked bl (snd p)"
    and "\<forall>e \<in> set (q_in_flight q). fst e < nid"
    and "receive_walk (exhausted q) (not_blocked bl) (limit - length rcvd) vs = (kept, out, spnt')"
  shows "receive_loop now bl limit q nid rcvd spnt =
     (q\<lparr>q_visible := pre @ kept, q_in_flight := q_in_flight q @ flights now nid out\<rparr>,
      nid + length out, rcvd @ handovers now nid out, spnt @ spnt')"
  using assms
proof (induction vs arbitrary: q pre nid rcvd spnt kept out spnt')
  case Nil
  then have "next_receivable q bl = None" by (intro next_receivable_none) simp
  with Nil show ?case by (subst receive_loop.simps) auto
next
  case (Cons e vs)
  show ?case
  proof (cases "limit \<le> length rcvd")
    case True
    with Cons.prems show ?thesis by (subst receive_loop.simps) auto
  next
    case room: False
    show ?thesis
    proof (cases "not_blocked bl (snd e)")
      case False
      with Cons.prems room obtain kept' where k:
        "receive_walk (exhausted q) (not_blocked bl) (limit - length rcvd) vs = (kept', out, spnt')"
        "kept = e # kept'"
        by (auto split: prod.splits)
      show ?thesis
        using Cons.IH [of q "pre @ [e]" nid rcvd kept' out spnt' spnt] Cons.prems False k by simp
    next
      case free: True
      have nxt: "next_receivable q bl = Some (fst e)"
        using next_receivable_skip [OF Cons.prems(1,4) free] Cons.prems(3) by simp
      let ?q1 = "q\<lparr>q_visible := pre @ vs\<rparr>"
      have wf: "btree_wf (pre @ e # vs)" using Cons.prems(1,2) by simp
      have mid: "map_of (q_visible q) (fst e) = Some (snd e)"
        "q\<lparr>q_visible := btree_remove (fst e) (q_visible q)\<rparr> = ?q1"
        using btree_mid [OF wf] Cons.prems(1) by simp_all
      have wf1: "btree_wf (pre @ vs)" by (rule btree_wf_drop_mid [OF wf])
      show ?thesis
      proof (cases "exhausted q (snd e)")
        case (Some rd)
        with Cons.prems room free obtain sp where k:
          "receive_walk (exhausted q) (not_blocked bl) (limit - length rcvd) vs = (kept, out, sp)"
          "spnt' = (rd, snd e) # sp"
          by (auto split: prod.splits)
        have "receive_loop now bl limit q nid rcvd spnt =
            receive_loop now bl limit ?q1 nid rcvd (spnt @ [(rd, snd e)])"
          using room nxt mid Some by (subst receive_loop.simps) simp
        moreover have "exhausted ?q1 = exhausted q" by (simp add: exhausted_def fun_eq_iff)
        ultimately show ?thesis
          using Cons.IH [of ?q1 pre nid rcvd kept out sp "spnt @ [(rd, snd e)]"] Cons.prems k wf1
          by simp
      next
        case None
        with Cons.prems room free obtain o' where k:
          "receive_walk (exhausted q) (not_blocked bl) (limit - Suc (length rcvd)) vs = (kept, o', spnt')"
          "out = snd e # o'"
          by (auto split: prod.splits)
        let ?q2 = "fly now nid (counted (snd e)) ?q1"
        have "receive_loop now bl limit q nid rcvd spnt =
            receive_loop now bl limit ?q2 (nid + 1) (rcvd @ [handed now nid (counted (snd e))]) spnt"
          using room nxt mid None by (subst receive_loop.simps) simp
        moreover have "exhausted ?q2 = exhausted q" by (simp add: exhausted_def fun_eq_iff fly_def)
        moreover have fl: "q_in_flight ?q2 = q_in_flight q @ flights now nid [snd e]"
          using Cons.prems(5) by (auto simp: fly_def intro!: hash_insert_fresh)
        ultimately show ?thesis
          using Cons.IH [of ?q2 pre "nid + 1" "rcvd @ [handed now nid (counted (snd e))]" kept o' spnt' spnt]
            Cons.prems k wf1
          by (auto simp: fly_def less_Suc_eq)
      qed
    qed
  qed
qed

lemma walk_Cons_E [consumes 1, case_names stop hold spend hand]:
  assumes "receive_walk ex free n (e # vs) = (kept, out, spnt)"
  obtains "n = 0" "kept = e # vs" "out = []" "spnt = []"
  | k where "0 < n" "\<not> free (snd e)" "receive_walk ex free n vs = (k, out, spnt)" "kept = e # k"
  | rd sp where "0 < n" "free (snd e)" "ex (snd e) = Some rd"
      "receive_walk ex free n vs = (kept, out, sp)" "spnt = (rd, snd e) # sp"
  | o' where "0 < n" "free (snd e)" "ex (snd e) = None"
      "receive_walk ex free (n - 1) vs = (kept, o', spnt)" "out = snd e # o'"
  using assms by (auto split: if_splits option.splits prod.splits)

lemma walk_partition:
  assumes "receive_walk ex free n vs = (kept, out, spnt)"
  shows "mset (map snd vs) = mset (map snd kept) + mset out + mset (map snd spnt)"
  using assms
proof (induction vs arbitrary: n kept out spnt)
  case (Cons e vs)
  from Cons.prems show ?case
    by (cases rule: walk_Cons_E) (simp, (drule Cons.IH, simp)+)
qed simp

lemma walk_kept:
  assumes "receive_walk ex free n vs = (kept, out, spnt)"
  shows "set kept \<subseteq> set vs \<and> (btree_wf vs \<longrightarrow> btree_wf kept)"
  using assms
proof (induction vs arbitrary: n kept out spnt)
  case (Cons e vs)
  from Cons.prems show ?case
    by (cases rule: walk_Cons_E) (fastforce simp: btree_wf_def dest: Cons.IH)+
qed simp

lemma walk_out:
  assumes "receive_walk ex free n vs = (kept, out, spnt)"
  shows "length out \<le> n \<and> (\<forall>s \<in> set out. free s \<and> ex s = None) \<and>
    (\<forall>(rd, s) \<in> set spnt. free s \<and> ex s = Some rd) \<and>
    set out \<union> snd ` set spnt \<subseteq> snd ` set vs \<and>
    (length out < n \<longrightarrow> (\<forall>e \<in> set kept. \<not> free (snd e)))"
  using assms
proof (induction vs arbitrary: n kept out spnt)
  case (Cons e vs)
  from Cons.prems show ?case
  proof (cases rule: walk_Cons_E)
    case stop then show ?thesis by simp
  next
    case (hold k) with Cons.IH [OF hold(3)] show ?thesis by auto
  next
    case (spend rd sp) with Cons.IH [OF spend(4)] show ?thesis by auto
  next
    case (hand o') with Cons.IH [OF hand(4)] show ?thesis by auto
  qed
qed simp

lemma walk_order:
  assumes "receive_walk ex free n vs = (kept, out, spnt)" and "sorted_wrt R (map snd vs)"
  shows "sorted_wrt R out"
  using assms
proof (induction vs arbitrary: n kept out spnt)
  case (Cons e vs)
  from Cons.prems(1) show ?case
  proof (cases rule: walk_Cons_E)
    case (hand o')
    with walk_out [OF hand(4)] Cons.IH [OF hand(4)] Cons.prems(2) show ?thesis by auto
  qed (use Cons in auto)
qed simp

lemma walk_without_redrive:
  assumes "receive_walk (\<lambda>_. None) free n vs = (kept, out, spnt)"
  shows "out = take n (filter free (map snd vs)) \<and> spnt = []"
  using assms
proof (induction vs arbitrary: n kept out spnt)
  case (Cons e vs)
  from Cons.prems show ?case
  proof (cases rule: walk_Cons_E)
    case (hold k) with Cons.IH [OF hold(3)] show ?thesis by simp
  next
    case (hand o') with Cons.IH [OF hand(4)] show ?thesis by (cases n) auto
  qed auto
qed simp

text \<open>The whole of \<open>bus_receive\<close>, then: the walk, then the spent messages' move.\<close>

lemma bus_receive_walk:
  assumes "queue_ok c (bus_next_id b) (queue_of b key)"
    and "receive_walk (exhausted (queue_of b key)) (not_blocked (blocked_groups (queue_of b key))) limit
           (q_visible (queue_of b key)) = (kept, out, spnt)"
  shows "bus_receive x now key limit b =
     (handovers now (bus_next_id b) out,
      redrive_spent x spnt
        ((put_queue key ((queue_of b key)\<lparr>q_visible := kept,
            q_in_flight := q_in_flight (queue_of b key) @ flights now (bus_next_id b) out\<rparr>) b)
          \<lparr>bus_next_id := bus_next_id b + length out\<rparr>))"
proof -
  have "receive_loop now (blocked_groups (queue_of b key)) limit (queue_of b key) (bus_next_id b) [] [] =
    ((queue_of b key)\<lparr>q_visible := [] @ kept,
        q_in_flight := q_in_flight (queue_of b key) @ flights now (bus_next_id b) out\<rparr>,
     bus_next_id b + length out, [] @ handovers now (bus_next_id b) out, [] @ spnt)"
    using assms by (intro receive_loop_walk) (auto simp: queue_ok_def)
  then show ?thesis by (simp add: bus_receive_def Let_def)
qed

end
