(* ===== verification/Bus_Inv.thy ===== *)
theory Bus_Inv
  imports Bus_Laws
begin

section \<open>What every operation of the account keeps\<close>

text \<open>
  Four readings of an account and, for each, one lemma per operation: \<open>bus_ok\<close> (queues in
  good order, every message in one place only), \<open>balanced\<close> (the harness's count of
  deliveries owed is the visible messages plus the handles held), \<open>flight\<close> (the messages in
  flight, by queue and receipt), and \<open>wakes\<close> (a queue that becomes receivable has notified
  its waiters).
\<close>

definition bus_ok :: "instant \<Rightarrow> 'h bus \<Rightarrow> bool" where
  "bus_ok clock b \<longleftrightarrow> (\<forall>k. queue_ok clock (bus_next_id b) (queue_of b k)) \<and>
     (\<forall>n. count (all_seqs b) n \<le> (if n < bus_next_id b then 1 else 0))"

definition owed :: "harness_call list \<Rightarrow> nat \<Rightarrow> bool" where
  "owed cs n \<longleftrightarrow> count_list cs Enqueued = count_list cs Consumed + n"

definition balanced :: "nat \<Rightarrow> 'h bus \<Rightarrow> bool" where
  "balanced h b \<longleftrightarrow> (\<forall>cs. bus_coordinator b = Some cs \<longrightarrow> owed cs (visible_total b + h))"

definition flight :: "'h bus \<Rightarrow> string \<Rightarrow> nat \<Rightarrow> in_flight option" where
  "flight b k r = map_of (q_in_flight (queue_of b k)) r"

definition ready :: "bus_queue \<Rightarrow> bool" where
  "ready q \<longleftrightarrow> (\<exists>e \<in> set (q_visible q). not_blocked (blocked_groups q) (snd e))"

definition wakes :: "'h bus \<Rightarrow> 'h bus \<Rightarrow> bool" where
  "wakes b b' \<longleftrightarrow> (\<forall>k. q_notify (queue_of b k) \<le> q_notify (queue_of b' k) \<and>
     (ready (queue_of b' k) \<and> \<not> ready (queue_of b k) \<longrightarrow>
        q_notify (queue_of b k) < q_notify (queue_of b' k)))"

subsection \<open>Reading the four\<close>

lemma bus_okD: "bus_ok c b \<Longrightarrow> queue_ok c (bus_next_id b) (queue_of b k)"
  by (simp add: bus_ok_def)

lemma bus_ok_mono: "bus_ok c b \<Longrightarrow> c \<le> c' \<Longrightarrow> bus_ok c' b"
  using queue_ok_mono by (fastforce simp: bus_ok_def)

lemma bus_ok_cong:
  "bus_queues b = bus_queues b' \<Longrightarrow> bus_next_id b = bus_next_id b' \<Longrightarrow> bus_ok c b = bus_ok c b'"
  by (simp add: bus_ok_def all_seqs_def across_def queue_of_def)

lemma flight_cong: "bus_queues b = bus_queues b' \<Longrightarrow> flight b = flight b'"
  by (simp add: flight_def fun_eq_iff queue_of_def)

lemma flight_row: "flight b k = map_of (q_in_flight (queue_of b k))"
  by (simp add: flight_def fun_eq_iff)

lemma flight_put:
  "flight (put_queue k q b) = (flight b)(k := map_of (q_in_flight q))"
  by (auto simp: flight_def fun_eq_iff queue_of_put)

lemma flight_updates [simp]:
  "flight (b\<lparr>bus_next_id := n\<rparr>) = flight b" "flight (b\<lparr>bus_timers := ts\<rparr>) = flight b"
  "flight (b\<lparr>bus_log := l\<rparr>) = flight b" "flight (b\<lparr>bus_topics := tp\<rparr>) = flight b"
  "flight (b\<lparr>bus_coordinator := c\<rparr>) = flight b" "flight (b\<lparr>bus_topic_dedup := d\<rparr>) = flight b"
  "flight (tell c2 b) = flight b" "flight (push_log nm e b) = flight b"
  "flight ((tell c2 ^^ j) b) = flight b"
  by (simp_all add: flight_def fun_eq_iff)

lemma flight_put_same: "q_in_flight q = q_in_flight (queue_of b k) \<Longrightarrow> flight (put_queue k q b) = flight b"
  by (auto simp: flight_put fun_eq_iff) (simp add: flight_def)

lemma wakes_refl [simp, intro]: "wakes b b"
  by (simp add: wakes_def)

lemma wakes_trans [trans]: "wakes b b' \<Longrightarrow> wakes b' b'' \<Longrightarrow> wakes b b''"
  unfolding wakes_def by (meson le_less_trans less_le_trans order_trans)

lemma wakes_cong:
  "bus_queues b = bus_queues c \<Longrightarrow> bus_queues b' = bus_queues c' \<Longrightarrow> wakes b b' = wakes c c'"
  by (simp add: wakes_def queue_of_def)

lemma wakes_eq: "bus_queues b = bus_queues b' \<Longrightarrow> wakes b b'"
  using wakes_cong [of b b b b'] by simp

lemma wakes_put:
  assumes "q_notify (queue_of b k) \<le> q_notify q"
    and "ready q \<Longrightarrow> \<not> ready (queue_of b k) \<Longrightarrow> q_notify (queue_of b k) < q_notify q"
  shows "wakes b (put_queue k q b)"
  using assms by (simp add: wakes_def queue_of_put)

lemma owed_append [simp]:
  "owed (cs @ [Enqueued]) n \<longleftrightarrow> count_list cs Enqueued + 1 = count_list cs Consumed + n"
  "owed (cs @ [ScheduleRedelivery d]) n \<longleftrightarrow> owed cs n"
  "owed (cs @ [Consumed]) n \<longleftrightarrow> owed cs (Suc n)"
  by (auto simp: owed_def)

lemma owed_consumed: "owed (cs @ replicate m Consumed) n \<longleftrightarrow> owed cs (m + n)"
proof -
  have "count_list (replicate m Consumed) c = (if c = Consumed then m else 0)" for c
    by (induction m) auto
  then show ?thesis by (simp add: owed_def add.assoc)
qed

lemma balanced_tell [simp]:
  "balanced h (tell Consumed b) = balanced (Suc h) b"
  "balanced h (tell (ScheduleRedelivery d) b) = balanced h b"
  "balanced h ((tell Consumed ^^ n) b) = balanced (h + n) b"
  by (auto simp: balanced_def owed_consumed visible_total_def ac_simps split: option.splits)

lemma balanced_updates [simp]:
  "balanced h (b\<lparr>bus_next_id := n\<rparr>) = balanced h b" "balanced h (b\<lparr>bus_timers := ts\<rparr>) = balanced h b"
  "balanced h (b\<lparr>bus_log := l\<rparr>) = balanced h b" "balanced h (b\<lparr>bus_topics := tp\<rparr>) = balanced h b"
  "balanced h (b\<lparr>bus_topic_dedup := d\<rparr>) = balanced h b" "balanced h (push_log nm e b) = balanced h b"
  by (simp_all add: balanced_def visible_total_def)

subsection \<open>Writing a queue back\<close>

lemma all_seqs_put_gain:
  "queue_seqs q = queue_seqs (queue_of b k) + d \<Longrightarrow> all_seqs (put_queue k q b) = all_seqs b + d"
  unfolding all_seqs_def by (rule acct.weigh_gain) simp_all

lemma all_seqs_put_loss:
  "queue_seqs (queue_of b k) = queue_seqs q + d \<Longrightarrow> all_seqs (put_queue k q b) + d = all_seqs b"
  unfolding all_seqs_def by (rule acct.weigh_loss) simp_all

lemma all_seqs_put_same:
  "queue_seqs q = queue_seqs (queue_of b k) \<Longrightarrow> all_seqs (put_queue k q b) = all_seqs b"
  unfolding all_seqs_def by (rule acct.weigh_same) simp_all

lemma visible_put_gain:
  "length (q_visible q) = length (q_visible (queue_of b k)) + d \<Longrightarrow>
     visible_total (put_queue k q b) = visible_total b + d"
  unfolding visible_total_def by (rule acct.weigh_gain) simp_all

lemma visible_put_loss:
  "length (q_visible (queue_of b k)) = length (q_visible q) + d \<Longrightarrow>
     visible_total (put_queue k q b) + d = visible_total b"
  unfolding visible_total_def by (rule acct.weigh_loss) simp_all

lemma seqs_of_queue: "\<exists>rest. all_seqs b = queue_seqs (queue_of b k) + rest"
  unfolding all_seqs_def by (rule acct.weigh_above) simp

lemma seqs_other_queue:
  assumes "k \<noteq> k'"
  shows "\<exists>rest. all_seqs b = queue_seqs (queue_of b k) + queue_seqs (queue_of b k') + rest"
proof -
  let ?b = "put_queue k (new_bus_queue True) b"
  have "all_seqs ?b + queue_seqs (queue_of b k) = all_seqs b"
    by (intro all_seqs_put_loss) (simp add: queue_seqs_def new_bus_queue_def)
  moreover obtain rest where "all_seqs ?b = queue_seqs (queue_of ?b k') + rest"
    using seqs_of_queue by blast
  ultimately show ?thesis
    using assms by (auto simp: queue_of_put ac_simps intro: exI [of _ rest])
qed

lemma all_seqs_updates [simp]:
  "all_seqs (b\<lparr>bus_next_id := n\<rparr>) = all_seqs b" "all_seqs (b\<lparr>bus_timers := ts\<rparr>) = all_seqs b"
  "all_seqs (tell c2 b) = all_seqs b" "all_seqs (push_log nm e b) = all_seqs b"
  "all_seqs ((tell c2 ^^ j) b) = all_seqs b" "all_seqs (b\<lparr>bus_topics := tp\<rparr>) = all_seqs b"
  "all_seqs (b\<lparr>bus_topic_dedup := d\<rparr>) = all_seqs b" "all_seqs (b\<lparr>bus_coordinator := c\<rparr>) = all_seqs b"
  by (simp_all add: all_seqs_def)

lemma visible_updates [simp]:
  "visible_total (b\<lparr>bus_next_id := n\<rparr>) = visible_total b"
  "visible_total (b\<lparr>bus_timers := ts\<rparr>) = visible_total b"
  "visible_total (tell c2 b) = visible_total b" "visible_total (push_log nm e b) = visible_total b"
  "visible_total ((tell c2 ^^ j) b) = visible_total b"
  by (simp_all add: visible_total_def)

lemma bus_ok_updates [simp]:
  "bus_ok c (b\<lparr>bus_timers := ts\<rparr>) = bus_ok c b" "bus_ok c (b\<lparr>bus_topics := tp\<rparr>) = bus_ok c b"
  "bus_ok c (b\<lparr>bus_topic_dedup := d\<rparr>) = bus_ok c b" "bus_ok c (push_log nm e b) = bus_ok c b"
  "bus_ok c (tell c2 b) = bus_ok c b" "bus_ok c ((tell c2 ^^ j) b) = bus_ok c b"
  "bus_ok c (b\<lparr>bus_coordinator := cc\<rparr>) = bus_ok c b"
  by (rule bus_ok_cong; simp)+

lemma bus_ok_next:
  assumes "bus_ok c b" and "bus_next_id b \<le> m"
  shows "bus_ok c (b\<lparr>bus_next_id := m\<rparr>)"
proof -
  have "count (all_seqs b) n \<le> (if n < m then 1 else 0)" for n
    by (rule order_trans [of _ "if n < bus_next_id b then 1 else 0"])
      (use assms in \<open>simp_all add: bus_ok_def\<close>)
  moreover have "queue_ok c m (queue_of b k)" for k
    by (rule queue_ok_mono [OF bus_okD [OF assms(1)] order_refl assms(2)])
  ultimately show ?thesis by (simp add: bus_ok_def)
qed

lemma bus_ok_put_less:
  assumes "bus_ok c b" and "queue_ok c (bus_next_id b) q"
    and "queue_seqs (queue_of b k) = queue_seqs q + d"
  shows "bus_ok c (put_queue k q b)"
proof -
  have "all_seqs b = all_seqs (put_queue k q b) + d"
    using all_seqs_put_loss [OF assms(3)] by simp
  then have less: "count (all_seqs (put_queue k q b)) n \<le> count (all_seqs b) n" for n by simp
  have "count (all_seqs (put_queue k q b)) n \<le> (if n < bus_next_id b then 1 else 0)" for n
    using assms(1) by (intro order_trans [OF less]) (simp only: bus_ok_def)
  with assms(1,2) show ?thesis
    unfolding bus_ok_def by (simp add: queue_of_put)
qed

lemmas bus_ok_put_same = bus_ok_put_less [where d = "{#}", simplified]

lemma balanced_put_same:
  "length (q_visible q) = length (q_visible (queue_of b k)) \<Longrightarrow> balanced h (put_queue k q b) = balanced h b"
  using visible_put_gain [of q b k 0] by (simp add: balanced_def)

lemma balanced_shift:
  assumes "bus_coordinator b' = bus_coordinator b" and "visible_total b' + d = visible_total b"
  shows "balanced (h + d) b' = balanced h b"
proof -
  have "visible_total b' + (h + d) = visible_total b + h" using assms(2) by linarith
  then show ?thesis unfolding balanced_def assms(1) by (simp only:)
qed

subsection \<open>Arrivals\<close>

lemma mset_btree_insert:
  "k \<notin> fst ` set m \<Longrightarrow> mset (btree_insert k v m) = add_mset (k, v) (mset m)"
  by (induction k v m rule: btree_insert.induct) auto

lemma set_btree_insert: "set (btree_insert k v m) \<subseteq> insert (k, v) (set m)"
  by (induction k v m rule: btree_insert.induct) auto

lemma enqueue_fields [simp]:
  "bus_topics (enqueue k s b) = bus_topics b" "bus_log (enqueue k s b) = bus_log b"
  "bus_topic_dedup (enqueue k s b) = bus_topic_dedup b"
  "bus_next_id (enqueue k s b) = bus_next_id b" "bus_timers (enqueue k s b) = bus_timers b"
  by (simp_all add: enqueue_def Let_def)

lemma flight_enqueue [simp]: "flight (enqueue k s b) = flight b"
  by (auto simp: enqueue_def Let_def flight_put fun_eq_iff) (simp_all add: flight_def)

lemma subscriptions_enqueue [simp]:
  "q_subscriptions (queue_of (enqueue k s b) k') = q_subscriptions (queue_of b k')"
  by (simp add: enqueue_def Let_def queue_of_put)

lemma wakes_enqueue: "wakes b (enqueue k s b)"
proof (cases "q_subscriptions (queue_of b k) = 0")
  case True
  then show ?thesis by (auto simp: enqueue_def Let_def intro!: wakes_put)
next
  case False
  have "wakes (tell Enqueued b) (enqueue k s b)"
    using False by (auto simp: enqueue_def Let_def intro!: wakes_put)
  moreover have "wakes b (tell Enqueued b)" by (rule wakes_eq) simp
  ultimately show ?thesis by (blast intro: wakes_trans)
qed

lemma not_visible_if_fresh:
  assumes "st_seq s \<notin># all_seqs b"
  shows "st_seq s \<notin> fst ` set (q_visible (queue_of b k))"
proof -
  obtain rest where "all_seqs b = queue_seqs (queue_of b k) + rest" using seqs_of_queue by blast
  with assms show ?thesis by (auto simp: queue_seqs_def)
qed

lemma all_seqs_enqueue:
  assumes "st_seq s \<notin># all_seqs b"
  shows "all_seqs (enqueue k s b) =
    all_seqs b + (if q_subscriptions (queue_of b k) = 0 then {#} else {#st_seq s#})"
proof -
  let ?q = "queue_of b k"
  have "queue_seqs (?q\<lparr>q_visible := btree_insert (st_seq s) s (q_visible ?q), q_notify := j\<rparr>) =
      queue_seqs ?q + {#st_seq s#}" for j
    using not_visible_if_fresh [OF assms, of k] by (simp add: queue_seqs_def mset_btree_insert)
  then show ?thesis
    by (auto simp: enqueue_def Let_def all_seqs_put_same intro!: trans [OF all_seqs_put_gain])
qed

lemma queue_ok_insert:
  assumes "queue_ok c n q" and "st_seq s < n" and "q_subscriptions q \<noteq> 0"
  shows "queue_ok c n (q\<lparr>q_visible := btree_insert (st_seq s) s (q_visible q), q_notify := j\<rparr>)"
  using assms set_btree_insert [of "st_seq s" s "q_visible q"]
  by (fastforce simp: queue_ok_def btree_wf_insert)

lemma bus_ok_enqueue [inv_intros]:
  assumes "bus_ok c b" and "st_seq s \<notin># all_seqs b" and "st_seq s < bus_next_id b"
  shows "bus_ok c (enqueue k s b)"
proof -
  have "queue_ok c (bus_next_id b) (queue_of (enqueue k s b) k')" for k'
    using bus_okD [OF assms(1)] assms(3)
    by (simp add: enqueue_def Let_def queue_of_put queue_ok_insert)
  moreover have "count (all_seqs (enqueue k s b)) n \<le> (if n < bus_next_id b then 1 else 0)" for n
  proof (cases "n = st_seq s")
    case True
    then show ?thesis using assms(2,3) by (simp add: all_seqs_enqueue not_in_iff)
  next
    case False
    then show ?thesis
      using assms(1,2) unfolding bus_ok_def by (cases "q_subscriptions (queue_of b k) = 0")
        (simp_all add: all_seqs_enqueue)
  qed
  ultimately show ?thesis by (simp add: bus_ok_def)
qed

lemma balanced_enqueue [simp]:
  assumes "st_seq s \<notin># all_seqs b"
  shows "balanced h (enqueue k s b) = balanced h b"
proof (cases "q_subscriptions (queue_of b k) = 0")
  case True
  then show ?thesis by (simp add: enqueue_def Let_def balanced_put_same)
next
  case False
  let ?q = "queue_of b k"
  have "visible_total (put_queue k (?q\<lparr>q_visible := btree_insert (st_seq s) s (q_visible ?q),
      q_notify := q_notify ?q + 1\<rparr>) (tell Enqueued b)) = visible_total (tell Enqueued b) + 1"
    using mset_btree_insert [OF not_visible_if_fresh [OF assms, of k], THEN arg_cong [where f = size]]
    by (intro visible_put_gain) simp
  with False show ?thesis
    by (auto simp: enqueue_def Let_def balanced_def owed_def)
qed

subsection \<open>Sends and publishes\<close>

lemma deliver_fresh_keeps:
  assumes "bus_ok c b"
  shows "bus_ok c (deliver_fresh k ob b)" "balanced h (deliver_fresh k ob b) = balanced h b"
    "flight (deliver_fresh k ob b) = flight b" "bus_timers (deliver_fresh k ob b) = bus_timers b"
    "bus_next_id b \<le> bus_next_id (deliver_fresh k ob b)"
    "q_subscriptions (queue_of (deliver_fresh k ob b) k') = q_subscriptions (queue_of b k')"
    "wakes b (deliver_fresh k ob b)"
proof -
  let ?b = "b\<lparr>bus_next_id := bus_next_id b + 1\<rparr>"
  have "count (all_seqs b) (bus_next_id b) \<le> 0"
    using assms unfolding bus_ok_def by (metis less_irrefl)
  then have fresh: "bus_next_id b \<notin># all_seqs ?b" by (simp add: not_in_iff)
  have ok: "bus_ok c ?b" using assms by (simp add: bus_ok_next)
  show "bus_ok c (deliver_fresh k ob b)" unfolding deliver_fresh_def
    by (rule bus_ok_enqueue [OF ok]) (use fresh in simp_all)
  show "balanced h (deliver_fresh k ob b) = balanced h b"
    unfolding deliver_fresh_def using fresh by simp
  show "wakes b (deliver_fresh k ob b)"
    unfolding deliver_fresh_def by (rule wakes_trans [OF wakes_eq wakes_enqueue]) simp
qed (simp_all add: deliver_fresh_def)

lemma ready_updates [simp]:
  "ready (q\<lparr>q_dedup := m\<rparr>) = ready q" "ready (q\<lparr>q_notify := n\<rparr>) = ready q"
  "ready (q\<lparr>q_subscriptions := j\<rparr>) = ready q" "ready (q\<lparr>q_redrive := rd\<rparr>) = ready q"
  by (simp_all add: ready_def blocked_groups_def cong: if_cong)

lemma put_dedup_keeps:
  "bus_ok c b \<Longrightarrow> bus_ok c (put_queue k ((queue_of b k)\<lparr>q_dedup := m\<rparr>) b)"
  "balanced h (put_queue k ((queue_of b k)\<lparr>q_dedup := m\<rparr>) b) = balanced h b"
  "flight (put_queue k ((queue_of b k)\<lparr>q_dedup := m\<rparr>) b) = flight b"
  "q_subscriptions (queue_of (put_queue k ((queue_of b k)\<lparr>q_dedup := m\<rparr>) b) k') =
     q_subscriptions (queue_of b k')"
  "wakes b (put_queue k ((queue_of b k)\<lparr>q_dedup := m\<rparr>) b)"
proof -
  show "bus_ok c b \<Longrightarrow> bus_ok c (put_queue k ((queue_of b k)\<lparr>q_dedup := m\<rparr>) b)"
    by (rule bus_ok_put_same) (use bus_okD [of c b k] in \<open>simp_all add: queue_ok_def queue_seqs_def\<close>)
  show "wakes b (put_queue k ((queue_of b k)\<lparr>q_dedup := m\<rparr>) b)"
    by (rule wakes_put) simp_all
qed (simp_all add: balanced_put_same flight_put_same queue_of_put)

lemma put_back_keeps:
  "bus_ok c b \<Longrightarrow> bus_ok c (put_queue k (queue_of b k) b)"
  "balanced h (put_queue k (queue_of b k) b) = balanced h b"
  "flight (put_queue k (queue_of b k) b) = flight b"
  "queue_of (put_queue k (queue_of b k) b) k' = queue_of b k'"
  "wakes b (put_queue k (queue_of b k) b)"
  using put_dedup_keeps(1,2,3,5) [where b = b and k = k and m = "q_dedup (queue_of b k)"]
  by (simp_all add: queue_of_put)

text \<open>What a send-like operation keeps, as one fact.\<close>

definition keeps_traffic :: "instant \<Rightarrow> 'h bus \<Rightarrow> 'h bus \<Rightarrow> bool" where
  "keeps_traffic c b b' \<longleftrightarrow> bus_ok c b' \<and> (\<forall>h. balanced h b' = balanced h b) \<and> flight b' = flight b \<and>
     bus_timers b' = bus_timers b \<and> bus_next_id b \<le> bus_next_id b' \<and>
     (\<forall>k. q_subscriptions (queue_of b' k) = q_subscriptions (queue_of b k)) \<and> wakes b b'"

lemma keeps_traffic_refl: "bus_ok c b \<Longrightarrow> keeps_traffic c b b"
  by (simp add: keeps_traffic_def)

lemma keeps_traffic_trans:
  "keeps_traffic c b b' \<Longrightarrow> keeps_traffic c b' b'' \<Longrightarrow> keeps_traffic c b b''"
  unfolding keeps_traffic_def using wakes_trans by fastforce

lemma keeps_traffic_ok: "keeps_traffic c b b' \<Longrightarrow> bus_ok c b'"
  by (simp add: keeps_traffic_def)

lemma deliver_keeps [inv_intros]:
  assumes "bus_ok c b"
  shows "keeps_traffic c b (deliver now k ob b)"
proof -
  have fresh: "keeps_traffic c b' (deliver_fresh k ob b')" if "bus_ok c b'" for b'
    using deliver_fresh_keeps [OF that] by (simp add: keeps_traffic_def)
  have "keeps_traffic c b (put_queue k (queue_of b k) b)"
    using assms by (simp add: keeps_traffic_def put_back_keeps)
  moreover have "keeps_traffic c b (put_queue k ((queue_of b k)\<lparr>q_dedup := m\<rparr>) b)" for m
    using assms by (simp add: keeps_traffic_def put_dedup_keeps)
  ultimately have "keeps_traffic c b (deliver_fresh k ob (put_queue k (queue_of b k) b))"
    "keeps_traffic c b (deliver_fresh k ob (put_queue k ((queue_of b k)\<lparr>q_dedup := m\<rparr>) b))"
    "keeps_traffic c b (put_queue k ((queue_of b k)\<lparr>q_dedup := m\<rparr>) b)" for m
    using fresh keeps_traffic_trans keeps_traffic_ok by blast+
  then show ?thesis
    by (simp add: deliver_def Let_def split: option.split prod.split)
qed

lemma push_log_keeps [inv_intros]: "bus_ok c b \<Longrightarrow> keeps_traffic c b (push_log n e b)"
  by (simp add: keeps_traffic_def wakes_eq)

lemma bus_send_keeps [inv_intros]:
  assumes "bus_ok c b"
  shows "keeps_traffic c b (snd (bus_send x now name key ob b))"
proof -
  have "keeps_traffic c b (deliver now key ob (push_log name (log_entry x name ob) b))"
    using assms by (meson deliver_keeps push_log_keeps keeps_traffic_trans keeps_traffic_ok)
  with keeps_traffic_refl [OF assms] show ?thesis
    by (auto simp: bus_send_def split: sum.split)
qed

lemma fan_out_keeps [inv_intros]:
  "bus_ok c b \<Longrightarrow> keeps_traffic c b (fan_out x now ob eps b)"
proof (induction x now ob eps b rule: fan_out.induct)
  case (1 x now ob b)
  then show ?case by (simp add: keeps_traffic_refl)
next
  case (2 x now ob ep eps b)
  let ?copy = "if is_fifo (ep_queue ep) then ob else ob\<lparr>ob_fifo := None\<rparr>"
  let ?b = "deliver now (ep_queue ep) ?copy (push_log (ep_name ep) (log_entry x (ep_name ep) ?copy) b)"
  have step: "keeps_traffic c b ?b"
    using "2.prems" by (meson deliver_keeps push_log_keeps keeps_traffic_trans keeps_traffic_ok)
  show ?case
    using keeps_traffic_trans [OF step "2.IH" [OF refl keeps_traffic_ok [OF step]]]
    by (simp only: fan_out.simps Let_def)
qed

lemma topic_fields_keep:
  "bus_ok c b \<Longrightarrow> keeps_traffic c b (b\<lparr>bus_topic_dedup := d\<rparr>)"
  "bus_ok c b \<Longrightarrow> keeps_traffic c b (b\<lparr>bus_topics := tp\<rparr>)"
  by (simp_all add: keeps_traffic_def wakes_eq)

lemma bus_publish_topic_keeps [inv_intros]:
  assumes "bus_ok c b"
  shows "keeps_traffic c b (snd (bus_publish_topic x now name topic ob b))"
proof -
  let ?b1 = "push_log name (log_entry x name ob) b"
  have 1: "keeps_traffic c b ?b1" using assms by (rule push_log_keeps)
  have plain: "keeps_traffic c b (fan_out x now ob eps ?b1)" for eps
    using 1 fan_out_keeps keeps_traffic_trans keeps_traffic_ok by blast
  have 2: "keeps_traffic c b (?b1\<lparr>bus_topic_dedup := d\<rparr>)" for d
    using 1 topic_fields_keep(1) keeps_traffic_trans keeps_traffic_ok by blast
  have fifo: "keeps_traffic c b (fan_out x now ob eps (?b1\<lparr>bus_topic_dedup := d\<rparr>))" for eps d
    using 2 fan_out_keeps keeps_traffic_trans keeps_traffic_ok by blast
  show ?thesis
    using keeps_traffic_refl [OF assms] plain 2 fifo
    by (auto simp: bus_publish_topic_def Let_def split: sum.split option.split prod.split)
qed

lemma bus_subscribe_topic_keeps [inv_intros]:
  "bus_ok c b \<Longrightarrow> keeps_traffic c b (snd (bus_subscribe_topic topic queue name b))"
  by (simp add: bus_subscribe_topic_def Let_def keeps_traffic_refl topic_fields_keep)

subsection \<open>Subscriptions and the redrive policy\<close>

lemma bus_open_keeps [inv_intros]:
  assumes "bus_ok c b"
  shows "bus_ok c (bus_open k b)" "balanced h (bus_open k b) = balanced h b"
    "flight (bus_open k b) = flight b" "bus_timers (bus_open k b) = bus_timers b"
    "bus_next_id (bus_open k b) = bus_next_id b" "wakes b (bus_open k b)"
    "q_subscriptions (queue_of (bus_open k b) k') =
       q_subscriptions (queue_of b k') + (if k' = k then 1 else 0)"
proof -
  show "bus_ok c (bus_open k b)" unfolding bus_open_def Let_def
    by (rule bus_ok_put_same [OF assms])
      (use bus_okD [OF assms, of k] in \<open>simp_all add: queue_ok_def queue_seqs_def\<close>)
  show "wakes b (bus_open k b)" unfolding bus_open_def Let_def
    by (rule wakes_put) simp_all
qed (simp_all add: bus_open_def Let_def balanced_put_same flight_put_same queue_of_put)

lemma not_ready_empty [simp]: "q_visible q = [] \<Longrightarrow> \<not> ready q"
  by (simp add: ready_def)

lemma bus_close_keeps [inv_intros]:
  assumes "bus_ok c b"
  shows "bus_ok c (bus_close k b)" "balanced h (bus_close k b) = balanced h b"
    "flight (bus_close k b) = flight b" "bus_timers (bus_close k b) = bus_timers b"
    "bus_next_id (bus_close k b) = bus_next_id b" "wakes b (bus_close k b)"
    "q_subscriptions (queue_of (bus_close k b) k') =
       q_subscriptions (queue_of b k') - (if k' = k then 1 else 0)"
proof -
  let ?q = "queue_of b k"
  let ?some = "put_queue k (?q\<lparr>q_subscriptions := q_subscriptions ?q - 1\<rparr>) b"
  let ?none = "put_queue k (?q\<lparr>q_subscriptions := 0, q_visible := []\<rparr>) b"
  note q = bus_okD [OF assms, of k]
  have eq: "bus_close k b =
      (if q_subscriptions ?q - 1 = 0 then (tell Consumed ^^ length (q_visible ?q)) ?none else ?some)"
    by (simp add: bus_close_def Let_def)
  have "bus_ok c ?none"
    by (rule bus_ok_put_less [OF assms, where d = "mset (map fst (q_visible ?q))"])
      (use q in \<open>simp_all add: queue_ok_def queue_seqs_def btree_wf_def\<close>)
  moreover have "bus_ok c ?some" if "q_subscriptions ?q - 1 \<noteq> 0"
    by (rule bus_ok_put_same [OF assms]) (use q that in \<open>simp_all add: queue_ok_def queue_seqs_def\<close>)
  ultimately show "bus_ok c (bus_close k b)" by (simp add: eq)
  have "balanced (h + length (q_visible ?q)) ?none = balanced h b"
    by (intro balanced_shift visible_put_loss) simp_all
  then show "balanced h (bus_close k b) = balanced h b"
    by (simp add: eq balanced_put_same)
  show "flight (bus_close k b) = flight b" by (simp add: eq flight_put_same)
  have "wakes b ?some" by (rule wakes_put) simp_all
  moreover have "wakes b ((tell Consumed ^^ n) ?none)" for n
    by (rule wakes_trans [OF wakes_put wakes_eq]) simp_all
  ultimately show "wakes b (bus_close k b)" by (simp add: eq)
qed (simp_all add: bus_close_def Let_def queue_of_put)

lemma put_redrive_keeps:
  assumes "bus_ok c b"
  shows "keeps_traffic c b (put_queue k ((queue_of b k)\<lparr>q_redrive := r\<rparr>) b)"
proof -
  have "bus_ok c (put_queue k ((queue_of b k)\<lparr>q_redrive := r\<rparr>) b)"
    by (rule bus_ok_put_same [OF assms])
      (use bus_okD [OF assms, of k] in \<open>simp_all add: queue_ok_def queue_seqs_def\<close>)
  moreover have "wakes b (put_queue k ((queue_of b k)\<lparr>q_redrive := r\<rparr>) b)"
    by (rule wakes_put) simp_all
  ultimately show ?thesis
    by (simp add: keeps_traffic_def balanced_put_same flight_put_same queue_of_put)
qed

lemma put_back_traffic: "bus_ok c b \<Longrightarrow> keeps_traffic c b (put_queue k (queue_of b k) b)"
  by (simp add: keeps_traffic_def put_back_keeps)

lemma bus_set_redrive_keeps [inv_intros]:
  assumes "bus_ok c b"
  shows "keeps_traffic c b (snd (bus_set_redrive k n dl b))"
proof -
  have "keeps_traffic c b (put_queue k ((queue_of (put_queue t (queue_of b t) b) k)\<lparr>q_redrive := r\<rparr>)
      (put_queue t (queue_of b t) b))" for t r
    using put_back_traffic [OF assms] put_redrive_keeps keeps_traffic_trans keeps_traffic_ok by blast
  with keeps_traffic_refl [OF assms] show ?thesis
    by (simp add: bus_set_redrive_def Let_def split: sum.split)
qed

lemma bus_receivable_keeps [inv_intros]:
  "bus_ok c b \<Longrightarrow> keeps_traffic c b (snd (bus_receivable k n b))"
  by (simp add: bus_receivable_def Let_def put_back_traffic)

subsection \<open>Receiving\<close>

lemma st_seq_counted [simp]: "st_seq (counted s) = st_seq s" "st_outbound (counted s) = st_outbound s"
  "group_of (counted s) = group_of s"
  by (simp_all add: counted_def group_of_def)

lemma redrive_one_keeps:
  assumes "bus_ok c b" and "st_seq s \<notin># all_seqs b" and "st_seq s < bus_next_id b"
  shows "bus_ok c (redrive_one x rd s b)" "balanced h (redrive_one x rd s b) = balanced (Suc h) b"
    "all_seqs (redrive_one x rd s b) \<subseteq># all_seqs b + {#st_seq s#}"
    "flight (redrive_one x rd s b) = flight b" "bus_timers (redrive_one x rd s b) = bus_timers b"
    "bus_next_id (redrive_one x rd s b) = bus_next_id b" "wakes b (redrive_one x rd s b)"
    "q_subscriptions (queue_of (redrive_one x rd s b) k) = q_subscriptions (queue_of b k)"
proof -
  show "bus_ok c (redrive_one x rd s b)"
    unfolding redrive_one_def by (rule bus_ok_enqueue) (use assms in simp_all)
  show "wakes b (redrive_one x rd s b)"
    unfolding redrive_one_def by (rule wakes_trans [OF wakes_eq wakes_enqueue]) simp
  show "all_seqs (redrive_one x rd s b) \<subseteq># all_seqs b + {#st_seq s#}"
    using assms(2) by (simp add: redrive_one_def all_seqs_enqueue)
qed (use assms in \<open>simp_all add: redrive_one_def\<close>)

lemma redrive_spent_step:
  fixes x :: "'h externals" and b :: "'h bus"
  assumes "bus_ok c b" and "distinct (map (st_seq \<circ> snd) ((rd, s) # rest))"
    and "\<forall>e \<in> set ((rd, s) # rest). st_seq (snd e) \<notin># all_seqs b \<and> st_seq (snd e) < bus_next_id b"
  defines "b' \<equiv> redrive_one x rd s b"
  shows "bus_ok c b'" "distinct (map (st_seq \<circ> snd) rest)"
    "\<forall>e \<in> set rest. st_seq (snd e) \<notin># all_seqs b' \<and> st_seq (snd e) < bus_next_id b'"
proof -
  have s: "st_seq s \<notin># all_seqs b" "st_seq s < bus_next_id b" using assms(3) by simp_all
  note one = redrive_one_keeps [OF assms(1) s, where x = x and rd = rd, folded b'_def]
  show "bus_ok c b'" by (rule one(1))
  show "distinct (map (st_seq \<circ> snd) rest)" using assms(2) by (simp add: comp_def)
  show "\<forall>e \<in> set rest. st_seq (snd e) \<notin># all_seqs b' \<and> st_seq (snd e) < bus_next_id b'"
  proof
    fix e assume e: "e \<in> set rest"
    with assms(2,3) have "st_seq (snd e) \<notin># all_seqs b + {#st_seq s#}" by (auto simp: rev_image_eqI)
    with mset_subset_eqD [OF one(3)] have "st_seq (snd e) \<notin># all_seqs b'" by blast
    with assms(3) e one(6) show "st_seq (snd e) \<notin># all_seqs b' \<and> st_seq (snd e) < bus_next_id b'" by simp
  qed
qed

lemma redrive_spent_keeps:
  assumes "bus_ok c b" and "distinct (map (st_seq \<circ> snd) sp)"
    and "\<forall>e \<in> set sp. st_seq (snd e) \<notin># all_seqs b \<and> st_seq (snd e) < bus_next_id b"
  shows "bus_ok c (redrive_spent x sp b) \<and>
    balanced h (redrive_spent x sp b) = balanced (h + length sp) b \<and>
    flight (redrive_spent x sp b) = flight b \<and> bus_timers (redrive_spent x sp b) = bus_timers b \<and>
    bus_next_id (redrive_spent x sp b) = bus_next_id b \<and> wakes b (redrive_spent x sp b) \<and>
    (\<forall>k. q_subscriptions (queue_of (redrive_spent x sp b) k) = q_subscriptions (queue_of b k)) \<and>
    all_seqs (redrive_spent x sp b) \<subseteq># all_seqs b + mset (map (st_seq \<circ> snd) sp)"
  using assms
proof (induction x sp b rule: redrive_spent.induct)
  case (2 x rd s rest b)
  let ?b = "redrive_one x rd s b"
  from "2.prems" have s: "st_seq s \<notin># all_seqs b" "st_seq s < bus_next_id b" by simp_all
  note one = redrive_one_keeps [OF "2.prems"(1) s, where x = x and rd = rd]
  note ih = "2.IH" [OF redrive_spent_step [OF "2.prems"]]
  have sub: "all_seqs (redrive_spent x rest ?b) \<subseteq># (all_seqs b + {#st_seq s#}) + mset (map (st_seq \<circ> snd) rest)"
    using ih one(3) by (meson mset_subset_eq_mono_add_right_cancel subset_mset.order_trans)
  have w: "wakes b (redrive_spent x rest ?b)" using ih one(7) wakes_trans by blast
  show ?case using ih sub w one by (simp add: comp_def)
qed simp

lemma flights_keys: "map fst (flights now nid ss) = [nid ..< nid + length ss]"
  by (induction ss arbitrary: nid) (simp_all add: upt_rec)

lemma flights_seqs: "map (st_seq \<circ> fl_stored \<circ> snd) (flights now nid ss) = map st_seq ss"
  by (induction ss arbitrary: nid) simp_all

lemma flights_seqs_mset:
  "{#st_seq (fl_stored (snd e)). e \<in># mset (flights now nid ss)#} = image_mset st_seq (mset ss)"
  by (induction ss arbitrary: nid) simp_all

lemma distinct_by_count:
  assumes "\<And>n. count (mset xs) n \<le> 1"
  shows "distinct xs"
  using assms
proof (induction xs)
  case (Cons x xs)
  have "count (mset xs) x = 0" using Cons.prems [of x] by simp
  moreover have "count (mset xs) n \<le> count (mset (x # xs)) n" for n by simp
  then have "count (mset xs) n \<le> 1" for n using Cons.prems order_trans by blast
  ultimately show ?case using Cons.IH by (simp add: count_mset_0_iff)
qed simp

lemma flights_entry:
  "(r, e) \<in> set (flights now nid ss) \<Longrightarrow> nid \<le> r \<and> r < nid + length ss \<and>
     (\<exists>s \<in> set ss. fl_stored e = counted s) \<and> fl_received e = now \<and> fl_generation e = 0"
  by (induction ss arbitrary: nid) fastforce+

lemma blocked_iff: "g \<in> blocked_groups q \<longleftrightarrow>
    q_fifo q \<and> (\<exists>x \<in> set (q_in_flight q). group_of (fl_stored (snd x)) = Some g)"
  by (force simp: blocked_groups_def List.map_filter_def)

lemma blocked_groups_mono:
  "q_fifo q' = q_fifo q \<Longrightarrow> set (q_in_flight q) \<subseteq> set (q_in_flight q') \<Longrightarrow>
     blocked_groups q \<subseteq> blocked_groups q'"
  by (auto simp: blocked_groups_def List.map_filter_def image_iff)

lemma not_blocked_antimono: "bl \<subseteq> bl' \<Longrightarrow> not_blocked bl' s \<Longrightarrow> not_blocked bl s"
  by (auto simp: not_blocked_def split: option.splits)

lemma ready_shrink:
  assumes "q_fifo q' = q_fifo q" and "set (q_in_flight q) \<subseteq> set (q_in_flight q')"
    and "set (q_visible q') \<subseteq> set (q_visible q)" and "ready q'"
  shows "ready q"
  using assms(3,4) not_blocked_antimono [OF blocked_groups_mono [OF assms(1,2)]]
  by (auto simp: ready_def)

lemma keys_are_seqs:
  "\<forall>e \<in> set m. st_seq (snd e) = fst e \<Longrightarrow> mset (map fst m) = image_mset st_seq (mset (map snd m))"
  by (induction m) auto

text \<open>The queue a receive leaves: what it took out is in flight or spent.\<close>

definition after_receive :: "instant \<Rightarrow> nat \<Rightarrow> (nat \<times> stored) list \<Rightarrow> stored list \<Rightarrow> bus_queue \<Rightarrow> bus_queue" where
  "after_receive now nid kept out q =
     q\<lparr>q_visible := kept, q_in_flight := q_in_flight q @ flights now nid out\<rparr>"

lemma after_receive_ok:
  assumes ok: "queue_ok c nid q" and "now \<le> c"
    and walk: "receive_walk ex free n (q_visible q) = (kept, out, spnt)"
  shows "queue_ok c (nid + length out) (after_receive now nid kept out q)"
    "queue_seqs q = queue_seqs (after_receive now nid kept out q) + mset (map (st_seq \<circ> snd) spnt)"
    "length (q_visible q) = length kept + (length out + length spnt)"
proof -
  note part = walk_partition [OF walk] and kept = walk_kept [OF walk] and out = walk_out [OF walk]
  have "map fst (q_in_flight q @ flights now nid out) = map fst (q_in_flight q) @ [nid ..< nid + length out]"
    by (simp add: flights_keys)
  then have wf: "hash_wf (q_in_flight q @ flights now nid out)"
    using ok by (auto simp: queue_ok_def hash_wf_def)
  have seqs: "\<forall>s \<in> set out. st_seq s < nid"
    using out ok by (fastforce simp: queue_ok_def)
  have "\<forall>e \<in> set (flights now nid out). fst e < nid + length out \<and>
      st_seq (fl_stored (snd e)) < nid + length out \<and> fl_received (snd e) \<le> c"
    using seqs assms(2) by (fastforce dest!: flights_entry)
  then show "queue_ok c (nid + length out) (after_receive now nid kept out q)"
    using ok kept wf unfolding queue_ok_def after_receive_def by fastforce
  have "mset (map fst kept) = image_mset st_seq (mset (map snd kept))"
    using ok kept by (intro keys_are_seqs) (auto simp: queue_ok_def)
  moreover have "mset (map fst (q_visible q)) = image_mset st_seq (mset (map snd (q_visible q)))"
    using ok by (intro keys_are_seqs) (auto simp: queue_ok_def)
  ultimately show "queue_seqs q = queue_seqs (after_receive now nid kept out q) + mset (map (st_seq \<circ> snd) spnt)"
    unfolding queue_seqs_def after_receive_def part
    by (simp add: flights_seqs_mset multiset.map_comp comp_def ac_simps)
  show "length (q_visible q) = length kept + (length out + length spnt)"
    using part [THEN arg_cong [where f = size]] by simp
qed

text \<open>The account between the walk and the moves of the spent messages.\<close>

lemma receive_middle:
  assumes ok: "bus_ok c b" and now: "now \<le> c"
    and walk: "receive_walk (exhausted (queue_of b key)) (not_blocked (blocked_groups (queue_of b key))) limit
      (q_visible (queue_of b key)) = (kept, out, sp)"
  defines "b1 \<equiv> put_queue key (after_receive now (bus_next_id b) kept out (queue_of b key)) b"
  defines "b2 \<equiv> b1\<lparr>bus_next_id := bus_next_id b + length out\<rparr>"
  shows "bus_ok c b2" "distinct (map (st_seq \<circ> snd) sp)"
    "\<forall>e \<in> set sp. st_seq (snd e) \<notin># all_seqs b2 \<and> st_seq (snd e) < bus_next_id b2"
    "all_seqs b1 + mset (map (st_seq \<circ> snd) sp) = all_seqs b"
proof -
  let ?q = "queue_of b key" and ?nid = "bus_next_id b"
  note after = after_receive_ok [OF bus_okD [OF ok] now walk]
  show seqs: "all_seqs b1 + mset (map (st_seq \<circ> snd) sp) = all_seqs b"
    unfolding b1_def by (rule all_seqs_put_loss [OF after(2)])
  have once: "count (all_seqs b1) n + count (mset (map (st_seq \<circ> snd) sp)) n \<le> (if n < ?nid then 1 else 0)" for n
    using ok unfolding bus_ok_def by (simp only: seqs [symmetric] count_union)
  show "distinct (map (st_seq \<circ> snd) sp)"
  proof (rule distinct_by_count)
    fix n show "count (mset (map (st_seq \<circ> snd) sp)) n \<le> 1"
      using once [of n] by (cases "n < ?nid") simp_all
  qed
  have "queue_ok c (?nid + length out) (queue_of b2 k)" for k
    using after(1) queue_ok_mono [OF bus_okD [OF ok] order_refl, of "?nid + length out" k]
    by (simp add: queue_of_put b2_def b1_def)
  moreover have "count (all_seqs b2) n \<le> (if n < bus_next_id b2 then 1 else 0)" for n
    using once [of n] by (simp add: b2_def split: if_splits)
  ultimately show "bus_ok c b2" by (simp add: bus_ok_def b2_def)
  show "\<forall>e \<in> set sp. st_seq (snd e) \<notin># all_seqs b2 \<and> st_seq (snd e) < bus_next_id b2"
  proof
    fix e assume "e \<in> set sp"
    then have "count (mset (map (st_seq \<circ> snd) sp)) (st_seq (snd e)) \<noteq> 0" by auto
    with once [of "st_seq (snd e)"]
    have "st_seq (snd e) < ?nid \<and> count (all_seqs b1) (st_seq (snd e)) = 0"
      by (cases "st_seq (snd e) < ?nid") (simp only: if_True if_False simp_thms; linarith)+
    then show "st_seq (snd e) \<notin># all_seqs b2 \<and> st_seq (snd e) < bus_next_id b2"
      by (simp add: not_in_iff b2_def)
  qed
qed

lemma flight_after_receive:
  assumes "queue_ok c (bus_next_id b) (queue_of b key)"
  shows "flight (put_queue key (after_receive now (bus_next_id b) kept out (queue_of b key)) b) =
    (flight b)(key := flight b key ++ map_of (flights now (bus_next_id b) out))"
    "dom (flight b key) \<inter> dom (map_of (flights now (bus_next_id b) out)) = {}"
proof -
  have "\<forall>e \<in> set (q_in_flight (queue_of b key)). fst e < bus_next_id b" using assms by (simp add: queue_ok_def)
  moreover have "\<forall>e \<in> set (flights now (bus_next_id b) out). bus_next_id b \<le> fst e" by (auto dest: flights_entry)
  ultimately show disj: "dom (flight b key) \<inter> dom (map_of (flights now (bus_next_id b) out)) = {}"
    unfolding flight_row dom_map_of_conv_image_fst by force
  show "flight (put_queue key (after_receive now (bus_next_id b) kept out (queue_of b key)) b) =
    (flight b)(key := flight b key ++ map_of (flights now (bus_next_id b) out))"
    using map_add_comm [OF disj] by (simp add: flight_put after_receive_def flight_row)
qed

lemma bus_receive_keeps [inv_intros]:
  assumes "bus_ok c b" and "now \<le> c"
    and "bus_receive x now key limit b = (rs, b')"
  shows "bus_ok c b'" "balanced (h + length rs) b' = balanced h b"
    "\<exists>out. rs = handovers now (bus_next_id b) out \<and>
       flight b' = (flight b)(key := flight b key ++ map_of (flights now (bus_next_id b) out))"
    "bus_timers b' = bus_timers b" "bus_next_id b' = bus_next_id b + length rs" "wakes b b'"
    "q_subscriptions (queue_of b' k) = q_subscriptions (queue_of b k)"
    "all_seqs b' \<subseteq># all_seqs b"
proof -
  let ?q = "queue_of b key" and ?nid = "bus_next_id b"
  obtain kept out sp where w: "receive_walk (exhausted ?q) (not_blocked (blocked_groups ?q)) limit
      (q_visible ?q) = (kept, out, sp)" by (metis prod_cases3)
  let ?q' = "after_receive now ?nid kept out ?q"
  let ?b1 = "put_queue key ?q' b" let ?b2 = "?b1\<lparr>bus_next_id := ?nid + length out\<rparr>"
  have okn: "queue_ok c ?nid ?q" by (rule bus_okD [OF assms(1)])
  note after = after_receive_ok [OF okn assms(2) w]
  have rs: "rs = handovers now ?nid out" and b': "b' = redrive_spent x sp ?b2"
    using bus_receive_walk [OF okn w, of x now] assms(3) by (simp_all add: after_receive_def)
  then have len: "length rs = length out" by (simp add: handovers_def)
  note mid = receive_middle [OF assms(1,2) w]
  note seqs = mid(4) and ok2 = mid(1) and d = mid(2) and fresh = mid(3)
  note spend = redrive_spent_keeps [OF ok2 d fresh, of x]
  show "bus_ok c b'" using spend by (simp add: b')
  have vis: "visible_total ?b1 + (length out + length sp) = visible_total b"
    by (rule visible_put_loss) (simp add: after(3) after_receive_def)
  have shift: "balanced (h + (length out + length sp)) ?b2 = balanced h b"
    by (rule balanced_shift) (simp_all only: visible_updates vis, simp)
  have "balanced (h + length out) b' = balanced (h + length out + length sp) ?b2"
    unfolding b' using redrive_spent_keeps [OF ok2 d fresh, of x "h + length out"] by blast
  also have "\<dots> = balanced h b" unfolding add.assoc by (rule shift)
  finally show "balanced (h + length rs) b' = balanced h b" by (simp only: len)
  have "flight b' = flight ?b1" using spend by (simp add: b')
  also have "\<dots> = (flight b)(key := flight b key ++ map_of (flights now ?nid out))"
    by (rule flight_after_receive(1) [OF okn])
  finally show "\<exists>out. rs = handovers now ?nid out \<and>
      flight b' = (flight b)(key := flight b key ++ map_of (flights now ?nid out))"
    using rs by blast
  show "bus_timers b' = bus_timers b" "bus_next_id b' = ?nid + length rs"
    using spend by (simp_all add: b' len)
  have "wakes b ?b1"
  proof (rule wakes_put)
    assume "ready ?q'" and "\<not> ready ?q"
    with ready_shrink [of ?q' ?q] walk_kept [OF w] show "q_notify ?q < q_notify ?q'"
      by (simp add: after_receive_def)
  qed (simp add: after_receive_def)
  then have "wakes b ?b2" by (rule wakes_trans [OF _ wakes_eq]) simp
  then show "wakes b b'" using spend wakes_trans b' by blast
  show "q_subscriptions (queue_of b' k) = q_subscriptions (queue_of b k)"
    using spend by (simp add: b' queue_of_put after_receive_def)
  have "all_seqs b' \<subseteq># all_seqs ?b1 + mset (map (st_seq \<circ> snd) sp)" using spend by (simp add: b')
  then show "all_seqs b' \<subseteq># all_seqs b" by (simp only: seqs)
qed

subsection \<open>Settling\<close>

lemma hash_remove_mset:
  assumes "hash_wf m" and "map_of m r = Some e"
  shows "mset m = add_mset (r, e) (mset (hash_remove r m))"
  using assms unfolding hash_wf_def hash_remove_def
proof (induction m)
  case (Cons a m)
  show ?case
  proof (cases "fst a = r")
    case True
    moreover from this have "AList.delete r m = m"
      using Cons.prems(1) by (intro delete_id) auto
    ultimately show ?thesis using Cons.prems(2) by (cases a) auto
  next
    case False
    with Cons show ?thesis by (cases a) auto
  qed
qed simp

lemma hash_remove_sub: "set (hash_remove r m) \<subseteq> set m"
  by (auto simp: hash_remove_def AList.delete_eq)

text \<open>Taking one message out of the ones in flight, whatever the queue's other fields.\<close>

definition landed :: "nat \<Rightarrow> bus_queue \<Rightarrow> bus_queue" where
  "landed r q = q\<lparr>q_in_flight := hash_remove r (q_in_flight q)\<rparr>"

lemma landed_fields [simp]:
  "q_visible (landed r q) = q_visible q" "q_subscriptions (landed r q) = q_subscriptions q"
  "q_notify (landed r q) = q_notify q" "q_redrive (landed r q) = q_redrive q"
  by (simp_all add: landed_def)

lemma landed_ok: "queue_ok c n q \<Longrightarrow> queue_ok c n (landed r q)"
  using hash_remove_sub [of r "q_in_flight q"] by (auto simp: queue_ok_def landed_def hm.wf_remove)

lemma landed_seqs:
  assumes "queue_ok c n q" and "map_of (q_in_flight q) r = Some e"
  shows "queue_seqs q = queue_seqs (landed r q) + {#st_seq (fl_stored e)#}"
proof -
  have wf: "hash_wf (q_in_flight q)" using assms(1) by (simp add: queue_ok_def)
  show ?thesis
    using hash_remove_mset [OF wf assms(2), THEN arg_cong [where f = "image_mset (st_seq \<circ> fl_stored \<circ> snd)"]]
    by (simp add: queue_seqs_def landed_def)
qed

lemma in_flight_fresh:
  assumes "bus_ok c b" and "map_of (q_in_flight (queue_of b k)) r = Some e"
  shows "bus_ok c (put_queue k (landed r (queue_of b k)) b)"
    "st_seq (fl_stored e) \<notin># all_seqs (put_queue k (landed r (queue_of b k)) b)"
    "st_seq (fl_stored e) < bus_next_id b"
proof -
  note q = bus_okD [OF assms(1), of k]
  note seqs = landed_seqs [OF q assms(2)]
  show "bus_ok c (put_queue k (landed r (queue_of b k)) b)"
    by (rule bus_ok_put_less [OF assms(1) landed_ok [OF q] seqs])
  have "all_seqs (put_queue k (landed r (queue_of b k)) b) + {#st_seq (fl_stored e)#} = all_seqs b"
    by (rule all_seqs_put_loss [OF seqs])
  then have "count (all_seqs (put_queue k (landed r (queue_of b k)) b)) (st_seq (fl_stored e)) + 1
      = count (all_seqs b) (st_seq (fl_stored e))" by (metis count_single count_union)
  moreover have "count (all_seqs b) (st_seq (fl_stored e)) \<le> (if st_seq (fl_stored e) < bus_next_id b then 1 else 0)"
    using assms(1) unfolding bus_ok_def by blast
  ultimately show "st_seq (fl_stored e) \<notin># all_seqs (put_queue k (landed r (queue_of b k)) b)"
    "st_seq (fl_stored e) < bus_next_id b"
    by (auto simp: not_in_iff split: if_splits)
qed

lemma map_of_landed: "map_of (q_in_flight (landed r q)) = (map_of (q_in_flight q))(r := None)"
  by (simp add: landed_def hash_remove_def delete_conv')

lemma flight_landed:
  "flight (put_queue k (landed r (queue_of b k)) b) = (flight b)(k := (flight b k)(r := None))"
  by (auto simp: flight_put map_of_landed fun_eq_iff flight_def)

text \<open>A delete: the message is gone, its group is released, the waiters are told.\<close>

lemma bus_delete_keeps [inv_intros]:
  assumes "bus_ok c b"
  shows "bus_ok c (bus_delete k r b)" "balanced h (bus_delete k r b) = balanced h b"
    "flight (bus_delete k r b) = (flight b)(k := (flight b k)(r := None))"
    "bus_timers (bus_delete k r b) = bus_timers b" "bus_next_id (bus_delete k r b) = bus_next_id b"
    "wakes b (bus_delete k r b)"
    "q_subscriptions (queue_of (bus_delete k r b) k') = q_subscriptions (queue_of b k')"
    "all_seqs (bus_delete k r b) \<subseteq># all_seqs b"
proof -
  let ?q = "queue_of b k"
  let ?gone = "put_queue k ((landed r ?q)\<lparr>q_notify := q_notify ?q + 1\<rparr>) b"
  have eq: "bus_delete k r b = (case map_of (q_in_flight ?q) r of None \<Rightarrow> put_queue k ?q b | Some _ \<Rightarrow> ?gone)"
    by (cases "map_of (q_in_flight ?q) r") (simp_all add: bus_delete_def Let_def landed_def)
  have "flight ?gone = (flight b)(k := (flight b k)(r := None))"
    using flight_landed [of k r b] by (simp add: flight_put)
  moreover have "flight b = (flight b)(k := (flight b k)(r := None))" if "map_of (q_in_flight ?q) r = None"
    using that by (auto simp: fun_eq_iff flight_def)
  ultimately show "flight (bus_delete k r b) = (flight b)(k := (flight b k)(r := None))"
    by (auto simp: eq put_back_keeps split: option.split)
  have gone: "queue_ok c (bus_next_id b) ((landed r ?q)\<lparr>q_notify := q_notify ?q + 1\<rparr>)"
    using landed_ok [OF bus_okD [OF assms, of k], of r] by (simp add: queue_ok_def)
  have seqs: "queue_seqs ?q = queue_seqs ((landed r ?q)\<lparr>q_notify := q_notify ?q + 1\<rparr>) + {#st_seq (fl_stored e)#}"
    if "map_of (q_in_flight ?q) r = Some e" for e
    using landed_seqs [OF bus_okD [OF assms, of k] that] by (simp add: queue_seqs_def)
  show "bus_ok c (bus_delete k r b)"
    using assms bus_ok_put_less [OF assms gone seqs] by (simp add: eq put_back_keeps split: option.split)
  show "all_seqs (bus_delete k r b) \<subseteq># all_seqs b"
  proof (cases "map_of (q_in_flight ?q) r")
    case (Some e)
    then have "all_seqs (bus_delete k r b) + {#st_seq (fl_stored e)#} = all_seqs b"
      using all_seqs_put_loss [OF seqs [OF Some]] by (simp add: eq)
    then show ?thesis by (metis mset_subset_eq_add_left)
  qed (simp add: eq all_seqs_put_same)
  have "wakes b ?gone" by (rule wakes_put) simp_all
  then show "wakes b (bus_delete k r b)" by (simp add: eq put_back_keeps split: option.split)
qed (simp_all add: bus_delete_def Let_def balanced_put_same queue_of_put split: option.split)

text \<open>A message coming back: it leaves the ones in flight, and its queue is told when the queue
  has a reader to take it.\<close>

lemma requeue_eq: "requeue k r e b = enqueue k (fl_stored e) (put_queue k (landed r (queue_of b k)) b)"
  by (simp add: requeue_def Let_def landed_def)

lemma requeue_keeps [inv_intros]:
  assumes "bus_ok c b" and "flight b k r = Some e"
  shows "bus_ok c (requeue k r e b)" "balanced h (requeue k r e b) = balanced h b"
    "flight (requeue k r e b) = (flight b)(k := (flight b k)(r := None))"
    "bus_timers (requeue k r e b) = bus_timers b" "bus_next_id (requeue k r e b) = bus_next_id b"
    "wakes b (requeue k r e b)"
    "q_subscriptions (queue_of (requeue k r e b) k') = q_subscriptions (queue_of b k')"
proof -
  let ?q = "queue_of b k" let ?b = "put_queue k (landed r ?q) b"
  have e: "map_of (q_in_flight ?q) r = Some e" using assms(2) by (simp add: flight_def)
  note fresh = in_flight_fresh [OF assms(1) e]
  show "bus_ok c (requeue k r e b)"
    unfolding requeue_eq by (rule bus_ok_enqueue [OF fresh(1,2)]) (use fresh(3) in simp)
  show "balanced h (requeue k r e b) = balanced h b"
    unfolding requeue_eq balanced_enqueue [OF fresh(2)] by (rule balanced_put_same) simp
  show "flight (requeue k r e b) = (flight b)(k := (flight b k)(r := None))"
    unfolding requeue_eq by (simp add: flight_landed)
  have "q_subscriptions ?q = 0 \<Longrightarrow> \<not> ready (landed r ?q)"
    using bus_okD [OF assms(1), of k] by (simp add: queue_ok_def)
  then show "wakes b (requeue k r e b)"
    by (simp add: requeue_eq enqueue_def Let_def wakes_def queue_of_put)
qed (simp_all add: requeue_eq queue_of_put)

lemma lapse_keeps:
  assumes "bus_ok c b"
  shows "bus_ok c (lapse k r g b)" "balanced h (lapse k r g b) = balanced h b"
    "flight (lapse k r g b) =
       (if \<exists>e. flight b k r = Some e \<and> fl_generation e = g then (flight b)(k := (flight b k)(r := None))
        else flight b)"
    "bus_timers (lapse k r g b) = bus_timers b" "bus_next_id (lapse k r g b) = bus_next_id b"
    "wakes b (lapse k r g b)"
    "q_subscriptions (queue_of (lapse k r g b) k') = q_subscriptions (queue_of b k')"
proof -
  let ?b = "put_queue k (queue_of b k) b"
  have ok: "bus_ok c ?b" by (rule put_back_keeps(1) [OF assms])
  have eq: "lapse k r g b = (case flight b k r of None \<Rightarrow> ?b
      | Some e \<Rightarrow> if fl_generation e = g then requeue k r e ?b else ?b)"
    by (simp add: lapse_def Let_def flight_def)
  consider (stale) "\<not> (\<exists>e. flight b k r = Some e \<and> fl_generation e = g)" "lapse k r g b = ?b"
    | (due) e where "flight b k r = Some e" "fl_generation e = g" "lapse k r g b = requeue k r e ?b"
    using eq by (cases "flight b k r") auto
  then have "bus_ok c (lapse k r g b) \<and> balanced h (lapse k r g b) = balanced h b \<and>
    flight (lapse k r g b) =
       (if \<exists>e. flight b k r = Some e \<and> fl_generation e = g then (flight b)(k := (flight b k)(r := None))
        else flight b) \<and>
    bus_timers (lapse k r g b) = bus_timers b \<and> bus_next_id (lapse k r g b) = bus_next_id b \<and>
    wakes b (lapse k r g b) \<and>
    q_subscriptions (queue_of (lapse k r g b) k') = q_subscriptions (queue_of b k')"
  proof cases
    case stale
    then show ?thesis using assms by (auto simp: put_back_keeps)
  next
    case due
    have "flight ?b k r = Some e" using due(1) by (simp add: put_back_keeps)
    note rq = requeue_keeps [OF ok this]
    show ?thesis
      using due rq(1-5,7) wakes_trans [OF put_back_keeps(5) rq(6)]
      by (simp add: put_back_keeps)
  qed
  then show "bus_ok c (lapse k r g b)" "balanced h (lapse k r g b) = balanced h b"
    "flight (lapse k r g b) =
       (if \<exists>e. flight b k r = Some e \<and> fl_generation e = g then (flight b)(k := (flight b k)(r := None))
        else flight b)"
    "bus_timers (lapse k r g b) = bus_timers b" "bus_next_id (lapse k r g b) = bus_next_id b"
    "wakes b (lapse k r g b)"
    "q_subscriptions (queue_of (lapse k r g b) k') = q_subscriptions (queue_of b k')"
    by blast+
qed

subsection \<open>Changing a visibility\<close>

text \<open>What a change does, by the entry it meets.\<close>

definition rearmed :: "in_flight \<Rightarrow> in_flight" where
  "rearmed e = e\<lparr>fl_generation := fl_generation e + 1\<rparr>"

lemma rearmed_fields [simp]:
  "fl_stored (rearmed e) = fl_stored e" "fl_received (rearmed e) = fl_received e"
  "fl_generation (rearmed e) = Suc (fl_generation e)"
  by (simp_all add: rearmed_def)

lemma change_visibility_cases:
  obtains (long) "MAX_VISIBILITY_SECS < as_secs v"
      "bus_change_visibility now k r v b = (Err VisibilityTooLong, b)"
  | (absent) "as_secs v \<le> MAX_VISIBILITY_SECS" "flight b k r = None"
      "bus_change_visibility now k r v b = (Err ReceiptNotInFlight, put_queue k (queue_of b k) b)"
  | (returned) e where "as_secs v \<le> MAX_VISIBILITY_SECS" "flight b k r = Some e" "v = 0"
      "bus_change_visibility now k r v b = (Ok (), requeue k r e (put_queue k (queue_of b k) b))"
  | (refused) e where "as_secs v \<le> MAX_VISIBILITY_SECS" "flight b k r = Some e" "v \<noteq> 0"
      "VISIBILITY_WINDOW < (now - fl_received e) + v"
      "bus_change_visibility now k r v b =
         (Err (WindowExceeded (as_secs (now - fl_received e)) (as_secs v)), put_queue k (queue_of b k) b)"
  | (armed) e where "as_secs v \<le> MAX_VISIBILITY_SECS" "flight b k r = Some e" "v \<noteq> 0"
      "(now - fl_received e) + v \<le> VISIBILITY_WINDOW"
      "bus_change_visibility now k r v b = (Ok (), lapse_after now v k r (fl_generation (rearmed e))
          (put_queue k ((queue_of b k)\<lparr>q_in_flight := hash_insert r (rearmed e) (q_in_flight (queue_of b k))\<rparr>)
             (put_queue k (queue_of b k) b)))"
  unfolding flight_def
  by (cases "MAX_VISIBILITY_SECS < as_secs v"; cases "map_of (q_in_flight (queue_of b k)) r";
      cases "v = 0"; cases "VISIBILITY_WINDOW < (now - fl_received (the (map_of (q_in_flight (queue_of b k)) r))) + v")
    (auto simp: bus_change_visibility_def Let_def rearmed_def not_less)

lemma lapse_after_fields [simp]:
  "bus_queues (lapse_after now v k r g b) = bus_queues b"
  "bus_next_id (lapse_after now v k r g b) = bus_next_id b"
  "bus_timers (lapse_after now v k r g b) =
     bus_timers b @ [\<lparr>tm_due = now + v, tm_key = k, tm_receipt = r, tm_generation = g\<rparr>]"
  "queue_of (lapse_after now v k r g b) k' = queue_of b k'"
  "flight (lapse_after now v k r g b) = flight b" "bus_ok c (lapse_after now v k r g b) = bus_ok c b"
  "balanced h (lapse_after now v k r g b) = balanced h b"
  by (simp_all add: lapse_after_def)

lemma put_rearmed_keeps:
  assumes "bus_ok c b" and "flight b k r = Some e"
  defines "b' \<equiv> put_queue k ((queue_of b k)\<lparr>q_in_flight := hash_insert r (rearmed e) (q_in_flight (queue_of b k))\<rparr>) b"
  shows "bus_ok c b'" "balanced h b' = balanced h b"
    "flight b' = (flight b)(k := (flight b k)(r \<mapsto> rearmed e))"
    "wakes b b'" "q_subscriptions (queue_of b' k') = q_subscriptions (queue_of b k')"
proof -
  let ?q = "queue_of b k" let ?m = "hash_insert r (rearmed e) (q_in_flight ?q)"
  note q = bus_okD [OF assms(1), of k]
  have wf: "hash_wf (q_in_flight ?q)" and e: "map_of (q_in_flight ?q) r = Some e"
    using q assms(2) by (simp_all add: queue_ok_def flight_def)
  have wf': "hash_wf ?m" using wf by (rule hm.wf_insert)
  have set: "set ?m = insert (r, rearmed e) {x \<in> set (q_in_flight ?q). fst x \<noteq> r}"
    by (rule hm.entries_insert [OF wf])
  have mem: "(r, e) \<in> set (q_in_flight ?q)" using e by (rule map_of_SomeD)
  have "queue_ok c (bus_next_id b) (?q\<lparr>q_in_flight := ?m\<rparr>)"
    using q wf' mem unfolding queue_ok_def by (auto simp: set)
  moreover have "hash_remove r ?m = hash_remove r (q_in_flight ?q)"
    by (simp add: hash_remove_def hash_insert_def delete_update_same)
  then have "mset ?m = add_mset (r, rearmed e) (mset (hash_remove r (q_in_flight ?q)))"
    using hash_remove_mset [OF wf', of r "rearmed e"] wf by (simp add: hm.lookup_insert)
  then have seqs: "queue_seqs (?q\<lparr>q_in_flight := ?m\<rparr>) = queue_seqs ?q"
    using hash_remove_mset [OF wf e] by (simp add: queue_seqs_def)
  ultimately show "bus_ok c b'" unfolding b'_def by (intro bus_ok_put_same [OF assms(1)]) simp_all
  show "balanced h b' = balanced h b" unfolding b'_def by (rule balanced_put_same) simp
  show "flight b' = (flight b)(k := (flight b k)(r \<mapsto> rearmed e))"
    unfolding b'_def by (simp add: flight_put flight_row hash_insert_def update_conv')
  have kept: "x \<in> set ?m \<or> (x = (r, e) \<and> (r, rearmed e) \<in> set ?m)" if "x \<in> set (q_in_flight ?q)" for x
  proof (cases "fst x = r")
    case True
    with that e hm.entry_iff_lookup [OF wf, of x] have "x = (r, e)" by (simp add: prod_eq_iff)
    then show ?thesis by (simp add: set)
  qed (simp add: set that)
  have "blocked_groups ?q \<subseteq> blocked_groups (?q\<lparr>q_in_flight := ?m\<rparr>)"
  proof
    fix g assume "g \<in> blocked_groups ?q"
    then obtain x where x: "q_fifo ?q" "x \<in> set (q_in_flight ?q)" "group_of (fl_stored (snd x)) = Some g"
      by (auto simp: blocked_iff)
    with kept [OF x(2)] have "\<exists>y \<in> set ?m. group_of (fl_stored (snd y)) = Some g"
      by (metis rearmed_fields(1) snd_conv)
    with x(1) show "g \<in> blocked_groups (?q\<lparr>q_in_flight := ?m\<rparr>)" by (simp add: blocked_iff)
  qed
  then have "ready (?q\<lparr>q_in_flight := ?m\<rparr>) \<Longrightarrow> ready ?q"
    by (auto simp: ready_def intro: not_blocked_antimono)
  then show "wakes b b'" unfolding b'_def by (intro wakes_put) simp_all
  show "q_subscriptions (queue_of b' k') = q_subscriptions (queue_of b k')"
    by (simp add: b'_def queue_of_put)
qed

end
