(* ===== verification/Deliveries.thy ===== *)
theory Deliveries
  imports Bus_Inv
begin

section \<open>Subscriptions and handles of the in-process account (in\_process/deliveries.rs)\<close>

text \<open>
  A subscription (\<open>BusDeliveries\<close>) opens a queue, waits for it, receives from it and closes
  it when dropped; a delivery's handle (\<open>BusReceipt\<close>) deletes, changes the visibility, and,
  dropped unsettled, leaves the message invisible for what its visibility has left.

  The \<open>world\<close> is everything these share: the account, the clock, the handles alive, the
  receipts settled (the handles' \<open>settled\<close> flags), and the subscriptions open. The handle's
  three calls are an instance of \<open>receipt_api\<close>, so the settlement of theory Message runs over
  the account.
\<close>

subsection \<open>Definitions\<close>

definition BATCH_WINDOW :: duration where "BATCH_WINDOW = from_millis 100"

record bus_receipt =
  br_queue :: string
  br_receipt :: nat
  br_visibility :: duration
  br_received :: instant

record bus_deliveries =
  bd_queue :: string
  bd_queue_url :: string
  bd_visibility :: duration
  bd_redrive_max :: "nat option"

record 'h world =
  w_bus :: "'h bus"
  w_now :: instant
  w_held :: "bus_receipt list"
  w_settled :: "nat list"
  w_open :: "bus_deliveries list"

definition new_world :: "'h bus \<Rightarrow> 'h world" where
  "new_world b = \<lparr>w_bus = b, w_now = 0, w_held = [], w_settled = [], w_open = []\<rparr>"

text \<open>\<open>BusReceipt::delete\<close> and \<open>BusReceipt::change_visibility\<close>.\<close>

definition receipt_delete :: "bus_receipt \<Rightarrow> 'h world \<Rightarrow> (ack_error, unit) rresult \<times> 'h world" where
  "receipt_delete r w =
     (Ok (), w\<lparr>w_bus := bus_delete (br_queue r) (br_receipt r) (w_bus w),
               w_settled := br_receipt r # w_settled w\<rparr>)"

definition receipt_change_visibility ::
    "bus_receipt \<Rightarrow> int \<Rightarrow> 'h world \<Rightarrow> (ack_error, unit) rresult \<times> 'h world" where
  "receipt_change_visibility r seconds w =
     (if seconds < 0 then (Err (AckBroker (Refused (NegativeVisibility seconds))), w)
      else case bus_change_visibility (w_now w) (br_queue r) (br_receipt r)
                  (from_secs (nat seconds)) (w_bus w) of
             (Inl e, b) \<Rightarrow> (Err (AckBroker (Refused e)), w\<lparr>w_bus := b\<rparr>)
           | (Inr _, b) \<Rightarrow> (Ok (), w\<lparr>w_bus := b, w_settled := br_receipt r # w_settled w\<rparr>))"

definition bus_receipt_api :: "(bus_receipt, 'h world) receipt_api" where
  "bus_receipt_api = \<lparr>stop_extending_call = (\<lambda>_ w. w), delete_call = receipt_delete,
     visibility_call = receipt_change_visibility\<rparr>"

text \<open>What a dropped delivery's visibility has left; \<open>None\<close> is a panic (a division by a zero
  period, or a sum past the longest \<open>Duration\<close>).\<close>

definition remaining_visibility :: "duration \<Rightarrow> duration \<Rightarrow> duration option" where
  "remaining_visibility visibility held =
     (if visibility = 0 then Some 0
      else let period = extension_period visibility
           in if period = 0 then None
              else let periods = held div period;
                       last_extension = min (period * (if periods \<le> U32_MAX then periods else U32_MAX))
                                            DURATION_MAX
                   in if DURATION_MAX < last_extension + visibility then None
                      else Some (min (last_extension + visibility) (VISIBILITY_WINDOW - WINDOW_MARGIN)
                                 - held))"

text \<open>\<open>Drop for BusReceipt\<close>: unsettled, the message comes back once the visibility lapses;
  either way the handle leaves the ones alive and the harness is told.\<close>

definition receipt_drop :: "bus_receipt \<Rightarrow> 'h world \<Rightarrow> 'h world option" where
  "receipt_drop r w =
     map_option
       (\<lambda>b. w\<lparr>w_bus := tell Consumed b, w_held := remove1 r (w_held w)\<rparr>)
       (if br_receipt r \<in> set (w_settled w) then Some (w_bus w)
        else case remaining_visibility (br_visibility r) (w_now w - br_received r) of
               None \<Rightarrow> None
             | Some left \<Rightarrow> Some (snd (bus_change_visibility (w_now w) (br_queue r) (br_receipt r)
                                         left (w_bus w))))"

text \<open>\<open>BusDeliveries::open\<close> and its \<open>Drop\<close>.\<close>

definition deliveries_open ::
    "string \<Rightarrow> duration \<Rightarrow> nat option \<Rightarrow> 'h world \<Rightarrow> bus_deliveries \<times> 'h world" where
  "deliveries_open queue visibility redrive_max w =
     (let d = \<lparr>bd_queue = queue, bd_queue_url = bus_url (w_bus w) queue,
               bd_visibility = visibility, bd_redrive_max = redrive_max\<rparr>
      in (d, w\<lparr>w_bus := bus_open queue (w_bus w), w_open := d # w_open w\<rparr>))"

definition deliveries_drop :: "bus_deliveries \<Rightarrow> 'h world \<Rightarrow> 'h world" where
  "deliveries_drop d w =
     w\<lparr>w_bus := bus_close (bd_queue d) (w_bus w), w_open := remove1 d (w_open w)\<rparr>"

text \<open>
  One turn of the receive loop. It reads how much is receivable: with nothing it parks until it
  is notified and turns again; with less than a batch asks for it sleeps the window first; then
  it takes. A take that comes back empty turns again.
\<close>

datatype turn = Park | TakeAfter duration | TakeNow

definition receive_check ::
    "nat \<Rightarrow> duration option \<Rightarrow> bus_deliveries \<Rightarrow> 'h world \<Rightarrow> turn \<times> 'h world" where
  "receive_check limit window d w =
     (let (n, b) = bus_receivable (bd_queue d) limit (w_bus w)
      in (if n = 0 then Park
          else case window of
                 None \<Rightarrow> TakeNow
               | Some span \<Rightarrow> if n < limit then TakeAfter span else TakeNow,
          w\<lparr>w_bus := b\<rparr>))"

definition receipt_of :: "bus_deliveries \<Rightarrow> received \<Rightarrow> bus_receipt" where
  "receipt_of d rc = \<lparr>br_queue = bd_queue d, br_receipt = rc_receipt rc,
     br_visibility = bd_visibility d, br_received = rc_at rc\<rparr>"

definition delivery_of ::
    "'h externals \<Rightarrow> bus_deliveries \<Rightarrow> received \<Rightarrow> ('h, bus_receipt) sqs_message" where
  "delivery_of x d rc = new_message x (rc_message rc) (receipt_of d rc) (rc_at rc) (bd_redrive_max d)"

definition receive_take ::
    "'h externals \<Rightarrow> nat \<Rightarrow> bus_deliveries \<Rightarrow> 'h world
      \<Rightarrow> ('h, bus_receipt) sqs_message list \<times> 'h world" where
  "receive_take x limit d w =
     (let (rs, b) = bus_receive x (w_now w) (bd_queue d) limit (w_bus w)
      in (map (delivery_of x d) rs, w\<lparr>w_bus := b, w_held := w_held w @ map (receipt_of d) rs\<rparr>))"

subsection \<open>What is left of a visibility\<close>

lemma period_bounds: "period * (held div period) \<le> (held::nat)"
  by (simp add: div_times_less_eq_dividend mult.commute)

lemma remaining_within:
  assumes "remaining_visibility v held = Some left"
  shows "left = 0 \<or> held + left \<le> VISIBILITY_WINDOW - WINDOW_MARGIN"
  using assms by (auto simp: remaining_visibility_def Let_def split: if_splits)

lemma window_fits: "VISIBILITY_WINDOW - WINDOW_MARGIN \<le> VISIBILITY_WINDOW"
  "as_secs (VISIBILITY_WINDOW - WINDOW_MARGIN) \<le> MAX_VISIBILITY_SECS"
  by (simp_all add: VISIBILITY_WINDOW_def WINDOW_MARGIN_def MAX_VISIBILITY_SECS_def duration_defs)

text \<open>So what a dropped handle asks for is never refused.\<close>

lemma remaining_never_refused:
  assumes "remaining_visibility v held = Some left"
  shows "as_secs left \<le> MAX_VISIBILITY_SECS" "left = 0 \<or> held + left \<le> VISIBILITY_WINDOW"
proof -
  have "left \<le> VISIBILITY_WINDOW - WINDOW_MARGIN"
    using remaining_within [OF assms] by auto
  then have "as_secs left \<le> as_secs (VISIBILITY_WINDOW - WINDOW_MARGIN)"
    by (simp add: as_secs_def div_le_mono)
  then show "as_secs left \<le> MAX_VISIBILITY_SECS" using window_fits(2) by linarith
  show "left = 0 \<or> held + left \<le> VISIBILITY_WINDOW"
    using remaining_within [OF assms] window_fits(1) by auto
qed

text \<open>For a visibility of a second or more, held for no longer than an account lives, there is
  no panic, and the message stays out for at least half and at most one visibility.\<close>

lemma remaining_defined:
  assumes "from_secs 1 \<le> v" and "v \<le> from_hours 12" and "held \<le> from_secs (2 ^ 62)"
  shows "remaining_visibility v held =
    Some (min (extension_period v * min (held div extension_period v) U32_MAX + v)
            (VISIBILITY_WINDOW - WINDOW_MARGIN) - held)"
proof -
  let ?p = "extension_period v"
  have p: "0 < ?p" "v \<noteq> 0" using assms(1) by (simp_all add: extension_period_def duration_defs)
  have "?p * min (held div ?p) U32_MAX \<le> ?p * (held div ?p)" by simp
  also have "\<dots> \<le> held" by (rule period_bounds)
  finally have le: "?p * min (held div ?p) U32_MAX \<le> held" .
  then have "?p * min (held div ?p) U32_MAX + v \<le> DURATION_MAX"
    using assms(2,3) by (simp add: DURATION_MAX_def U64_MAX_def duration_defs)
  with p show ?thesis
    by (simp add: remaining_visibility_def Let_def min_def)
qed

end
