(* ===== verification/Account_System.thy ===== *)
theory Account_System
  imports Deliveries
begin

section \<open>The account as a transition system\<close>

text \<open>
  Everything that can happen to an in-process account, as the steps of a relation on worlds:
  sends, publishes, the declarations, subscriptions opening and closing, the two halves of a
  receive, handles settling and being dropped, armed timers running out, and time passing. The
  invariants hold in every reachable world: messages sit in one place, the harness's count is
  what is visible or held, every subscription is counted, and a message in flight has a live
  handle that has not settled, or a timer that will return it within twelve hours of its
  receive.
\<close>

subsection \<open>Reachability and invariants, once\<close>

inductive reachable :: "('s \<Rightarrow> bool) \<Rightarrow> ('s \<Rightarrow> 's \<Rightarrow> bool) \<Rightarrow> 's \<Rightarrow> bool"
  for init step where
  start: "init s \<Longrightarrow> reachable init step s"
| move: "reachable init step s \<Longrightarrow> step s s' \<Longrightarrow> reachable init step s'"

locale safe_system =
  fixes init :: "'s \<Rightarrow> bool" and step :: "'s \<Rightarrow> 's \<Rightarrow> bool" and inv :: "'s \<Rightarrow> bool"
  assumes init_inv: "init s \<Longrightarrow> inv s"
    and step_inv: "inv s \<Longrightarrow> step s s' \<Longrightarrow> inv s'"
begin

lemma reachable_inv: "reachable init step s \<Longrightarrow> inv s"
  by (induction rule: reachable.induct) (auto intro: init_inv step_inv)

lemma reachable_step_inv: "reachable init step s \<Longrightarrow> step s s' \<Longrightarrow> inv s \<and> inv s'"
  using reachable_inv step_inv by blast

end

subsection \<open>Steps\<close>

definition visibility_ok :: "duration \<Rightarrow> bool" where
  "visibility_ok v \<longleftrightarrow> from_secs 1 \<le> v \<and> v \<le> from_hours 12"

inductive world_step :: "'h externals \<Rightarrow> 'h world \<Rightarrow> 'h world \<Rightarrow> bool" for x where
  tick: "w_now w \<le> t \<Longrightarrow> world_step x w (w\<lparr>w_now := t\<rparr>)"
| send: "bus_send x (w_now w) name key ob (w_bus w) = (r, b) \<Longrightarrow> world_step x w (w\<lparr>w_bus := b\<rparr>)"
| publish: "bus_publish_topic x (w_now w) name topic ob (w_bus w) = (r, b) \<Longrightarrow>
    world_step x w (w\<lparr>w_bus := b\<rparr>)"
| subscribe: "bus_subscribe_topic topic queue name (w_bus w) = (r, b) \<Longrightarrow>
    world_step x w (w\<lparr>w_bus := b\<rparr>)"
| policy: "bus_set_redrive key limit dl (w_bus w) = (r, b) \<Longrightarrow> world_step x w (w\<lparr>w_bus := b\<rparr>)"
| enter: "visibility_ok v \<Longrightarrow> deliveries_open key v limit w = (d, w') \<Longrightarrow> world_step x w w'"
| leave: "d \<in> set (w_open w) \<Longrightarrow> world_step x w (deliveries_drop d w)"
| check: "d \<in> set (w_open w) \<Longrightarrow> receive_check limit window d w = (t, w') \<Longrightarrow> world_step x w w'"
| take: "d \<in> set (w_open w) \<Longrightarrow> receive_take x limit d w = (ms, w') \<Longrightarrow> world_step x w w'"
| deleted: "r \<in> set (w_held w) \<Longrightarrow> receipt_delete r w = (res, w') \<Longrightarrow> world_step x w w'"
| changed: "r \<in> set (w_held w) \<Longrightarrow> receipt_change_visibility r secs w = (res, w') \<Longrightarrow> world_step x w w'"
| dropped: "r \<in> set (w_held w) \<Longrightarrow> receipt_drop r w = Some w' \<Longrightarrow> world_step x w w'"
| expired: "i < length (bus_timers (w_bus w)) \<Longrightarrow>
    tm_due (bus_timers (w_bus w) ! i) \<le> w_now w \<or> bus_coordinator (w_bus w) \<noteq> None \<Longrightarrow>
    world_step x w (w\<lparr>w_bus := fire_timer i (w_bus w)\<rparr>)"

inductive_cases world_stepE: "world_step x w w'"

definition world_init :: "'h world \<Rightarrow> bool" where
  "world_init w \<longleftrightarrow> (\<exists>endpoint region. w = new_world (new_bus endpoint region) \<or>
     w = new_world (install_coordinator (new_bus endpoint region)))"

subsection \<open>Invariants\<close>

text \<open>A message in flight is on its way back or in hand.\<close>

definition in_hand :: "bus_receipt list \<Rightarrow> nat list \<Rightarrow> string \<Rightarrow> nat \<Rightarrow> bool" where
  "in_hand held settled k r \<longleftrightarrow>
     r \<notin> set settled \<and> (\<exists>h \<in> set held. br_queue h = k \<and> br_receipt h = r)"

definition armed :: "timer list \<Rightarrow> string \<Rightarrow> nat \<Rightarrow> in_flight \<Rightarrow> bool" where
  "armed ts k r e \<longleftrightarrow> (\<exists>tm \<in> set ts. tm_key tm = k \<and> tm_receipt tm = r \<and>
     tm_generation tm = fl_generation e \<and> tm_due tm \<le> fl_received e + VISIBILITY_WINDOW)"

definition covered :: "'h world \<Rightarrow> bool" where
  "covered w \<longleftrightarrow> (\<forall>k r e. flight (w_bus w) k r = Some e \<longrightarrow>
     (fl_generation e = 0 \<and> in_hand (w_held w) (w_settled w) k r) \<or>
     (0 < fl_generation e \<and> armed (bus_timers (w_bus w)) k r e))"

definition handles_ok :: "'h world \<Rightarrow> bool" where
  "handles_ok w \<longleftrightarrow> distinct (map br_receipt (w_held w)) \<and>
     (\<forall>r \<in> set (w_settled w). r < bus_next_id (w_bus w)) \<and>
     (\<forall>h \<in> set (w_held w). br_receipt h < bus_next_id (w_bus w) \<and> br_received h \<le> w_now w \<and>
        visibility_ok (br_visibility h) \<and>
        (\<forall>e. flight (w_bus w) (br_queue h) (br_receipt h) = Some e \<longrightarrow> fl_received e = br_received h))"

definition subscribers_ok :: "'h world \<Rightarrow> bool" where
  "subscribers_ok w \<longleftrightarrow> (\<forall>d \<in> set (w_open w). visibility_ok (bd_visibility d)) \<and>
     (\<forall>k. q_subscriptions (queue_of (w_bus w) k) = length (filter (\<lambda>d. bd_queue d = k) (w_open w)))"

definition world_ok :: "'h world \<Rightarrow> bool" where
  "world_ok w \<longleftrightarrow> bus_ok (w_now w) (w_bus w) \<and> balanced (length (w_held w)) (w_bus w) \<and>
     covered w \<and> handles_ok w \<and> subscribers_ok w"

lemma world_okD:
  "world_ok w \<Longrightarrow> bus_ok (w_now w) (w_bus w)" "world_ok w \<Longrightarrow> balanced (length (w_held w)) (w_bus w)"
  "world_ok w \<Longrightarrow> covered w" "world_ok w \<Longrightarrow> handles_ok w" "world_ok w \<Longrightarrow> subscribers_ok w"
  by (simp_all add: world_ok_def)

lemma fresh_bus: "bus_queues b = [] \<Longrightarrow> queue_of b k = new_bus_queue (is_fifo k)"
  "bus_queues b = [] \<Longrightarrow> all_seqs b = {#}" "bus_queues b = [] \<Longrightarrow> visible_total b = 0"
  "bus_queues b = [] \<Longrightarrow> flight b k r = None"
  by (simp_all add: queue_of_def all_seqs_def visible_total_def across_def flight_def new_bus_queue_def)

lemma world_ok_init: "world_init w \<Longrightarrow> world_ok w"
  by (auto simp: world_init_def new_world_def world_ok_def bus_ok_def balanced_def owed_def fresh_bus
      covered_def handles_ok_def subscribers_ok_def install_coordinator_def new_bus_def new_bus_queue_def
      queue_ok_def btree_wf_def hash_wf_def)

text \<open>Steps that touch no handle, no message in flight and no timer.\<close>

lemma world_ok_quiet:
  assumes "world_ok w" and "bus_ok (w_now w) (w_bus w')"
    and "balanced (length (w_held w)) (w_bus w') = balanced (length (w_held w)) (w_bus w)"
    and "flight (w_bus w') = flight (w_bus w)" and "bus_timers (w_bus w') = bus_timers (w_bus w)"
    and "bus_next_id (w_bus w) \<le> bus_next_id (w_bus w')" and "w_held w' = w_held w"
    and "w_settled w' = w_settled w" and "w_now w' = w_now w" and "subscribers_ok w'"
  shows "world_ok w'"
proof -
  have "covered w'" using world_okD(3) [OF assms(1)] assms(4,5,7,8) by (simp only: covered_def)
  moreover have "handles_ok w'"
    using world_okD(4) [OF assms(1)] assms(6)
    unfolding handles_ok_def assms(4,7,8,9) by (meson less_le_trans)
  ultimately show ?thesis
    using assms world_okD(2) [OF assms(1)] by (simp add: world_ok_def)
qed

lemma world_ok_traffic:
  assumes "world_ok w" and "keeps_traffic (w_now w) (w_bus w) b"
  shows "world_ok (w\<lparr>w_bus := b\<rparr>)"
  using assms(2) world_okD(5) [OF assms(1)]
  by (intro world_ok_quiet [OF assms(1)]) (simp_all add: keeps_traffic_def subscribers_ok_def)

lemma world_ok_tick: "world_ok w \<Longrightarrow> w_now w \<le> t \<Longrightarrow> world_ok (w\<lparr>w_now := t\<rparr>)"
  unfolding world_ok_def covered_def handles_ok_def subscribers_ok_def
  by (auto intro: bus_ok_mono order_trans)

text \<open>Subscriptions opening and closing.\<close>

lemma world_ok_enter:
  assumes "world_ok w" and "visibility_ok v" and "deliveries_open key v limit w = (d, w')"
  shows "world_ok w'"
  using assms(2,3) world_okD(5) [OF assms(1)]
  by (intro world_ok_quiet [OF assms(1)])
    (auto simp: deliveries_open_def Let_def subscribers_ok_def
      bus_open_keeps [OF world_okD(1) [OF assms(1)]])

lemma length_filter_remove1:
  "a \<in> set xs \<Longrightarrow> length (filter P (remove1 a xs)) = length (filter P xs) - (if P a then 1 else 0)"
proof (induction xs)
  case (Cons b xs)
  have "P a \<Longrightarrow> a \<in> set xs \<Longrightarrow> 0 < length (filter P xs)" by (metis filter_empty_conv length_greater_0_conv)
  with Cons show ?case by auto
qed simp

lemma world_ok_leave:
  assumes "world_ok w" and "d \<in> set (w_open w)"
  shows "world_ok (deliveries_drop d w)"
  using assms(2) world_okD(5) [OF assms(1)]
  by (intro world_ok_quiet [OF assms(1)])
    (auto simp: deliveries_drop_def subscribers_ok_def length_filter_remove1
      bus_close_keeps [OF world_okD(1) [OF assms(1)]] dest: notin_set_remove1)

text \<open>Receiving: the new handles are the new messages in flight.\<close>

lemma handovers_receipts: "map rc_receipt (handovers now nid out) = [nid ..< nid + length out]"
  by (induction out arbitrary: nid) (simp_all add: handed_def upt_rec)

lemma handovers_at: "rc \<in> set (handovers now nid out) \<Longrightarrow> rc_at rc = now"
  by (induction out arbitrary: nid) (auto simp: handed_def)

lemma map_of_flights:
  assumes "map_of (flights now nid out) r = Some e"
  shows "nid \<le> r \<and> r < nid + length out \<and> fl_received e = now \<and> fl_generation e = 0"
  using flights_entry [OF map_of_SomeD [OF assms]] by simp

lemma world_ok_take:
  assumes "world_ok w" and d: "d \<in> set (w_open w)" and "receive_take x limit d w = (ms, w')"
  shows "world_ok w'"
proof -
  let ?b = "w_bus w" and ?k = "bd_queue d" and ?nid = "bus_next_id (w_bus w)"
  obtain rs b' where rcv: "bus_receive x (w_now w) ?k limit ?b = (rs, b')" by fastforce
  have w': "w' = w\<lparr>w_bus := b', w_held := w_held w @ map (receipt_of d) rs\<rparr>"
    using assms(3) rcv by (simp add: receive_take_def)
  note keep = bus_receive_keeps [OF world_okD(1) [OF assms(1)] order_refl rcv]
  obtain out where rs: "rs = handovers (w_now w) ?nid out"
    and fl: "flight b' = (flight ?b)(?k := flight ?b ?k ++ map_of (flights (w_now w) ?nid out))"
    using keep(3) by blast
  have split_flight: "flight b' k r = Some e \<Longrightarrow> flight ?b k r = Some e \<or>
      (k = ?k \<and> ?nid \<le> r \<and> r < ?nid + length out \<and> fl_received e = w_now w \<and> fl_generation e = 0)" for k r e
    using map_of_flights [of "w_now w" ?nid out r e]
    by (auto simp: fl map_add_def split: if_splits option.splits)
  have receipts: "map br_receipt (map (receipt_of d) rs) = [?nid ..< ?nid + length out]"
    using handovers_receipts [of "w_now w" ?nid out] by (simp add: rs receipt_of_def comp_def)
  have new: "h \<in> set (map (receipt_of d) rs) \<Longrightarrow> br_queue h = ?k \<and> br_received h = w_now w \<and>
      br_visibility h = bd_visibility d \<and> ?nid \<le> br_receipt h \<and> br_receipt h < ?nid + length out" for h
    using receipts [THEN arg_cong [where f = set]] handovers_at [of _ "w_now w" ?nid out]
    by (fastforce simp: rs receipt_of_def)
  have len: "length rs = length out" by (simp add: rs handovers_def)
  note hok = world_okD(4) [OF assms(1), unfolded handles_ok_def]
  have old: "h \<in> set (w_held w) \<Longrightarrow> br_receipt h < ?nid" for h using hok by blast
  have "covered w'" unfolding covered_def
  proof (intro allI impI)
    fix k r e assume "flight (w_bus w') k r = Some e"
    then consider "flight ?b k r = Some e"
      | "k = ?k" "?nid \<le> r" "r < ?nid + length out" "fl_generation e = 0"
      using split_flight [of k r e] by (auto simp: w')
    then show "fl_generation e = 0 \<and> in_hand (w_held w') (w_settled w') k r \<or>
        0 < fl_generation e \<and> armed (bus_timers (w_bus w')) k r e"
    proof cases
      case 1
      then show ?thesis using world_okD(3) [OF assms(1)] keep(4)
        by (fastforce simp: covered_def in_hand_def w')
    next
      case 2
      then have "r \<in> br_receipt ` set (map (receipt_of d) rs)"
        using receipts [THEN arg_cong [where f = set]] by (simp only: set_map set_upt) simp
      then obtain h where h: "h \<in> set (map (receipt_of d) rs)" "br_receipt h = r" by blast
      moreover have "br_queue h = k" using new [OF h(1)] 2(1) by simp
      moreover have "h \<in> set (w_held w')" using h(1) by (simp add: w')
      moreover have "r \<notin> set (w_settled w')"
      proof
        assume "r \<in> set (w_settled w')"
        then have "r \<in> set (w_settled w)" by (simp add: w')
        with hok 2(2) show False by (meson not_less)
      qed
      ultimately show ?thesis using 2(4) unfolding in_hand_def by blast
    qed
  qed
  moreover have "handles_ok w'" unfolding handles_ok_def
  proof (intro conjI ballI allI impI)
    have "set (map br_receipt (w_held w)) \<inter> set (map br_receipt (map (receipt_of d) rs)) = {}"
      unfolding receipts using old by fastforce
    moreover have "distinct (map br_receipt (map (receipt_of d) rs))" unfolding receipts by simp
    ultimately show "distinct (map br_receipt (w_held w'))" using hok by (simp add: w')
    show "r < bus_next_id (w_bus w')" if "r \<in> set (w_settled w')" for r
      using hok that keep(5) by (simp add: w' trans_less_add1)
    fix h assume "h \<in> set (w_held w')"
    then have "h \<in> set (w_held w) \<or> h \<in> set (map (receipt_of d) rs)" by (simp add: w')
    then have "br_receipt h < ?nid + length out \<and> br_received h \<le> w_now w \<and>
        visibility_ok (br_visibility h) \<and>
        (\<forall>e. flight b' (br_queue h) (br_receipt h) = Some e \<longrightarrow> fl_received e = br_received h)"
    proof
      assume h: "h \<in> set (w_held w)"
      with hok have f: "br_receipt h < ?nid" "br_received h \<le> w_now w" "visibility_ok (br_visibility h)"
        "\<forall>e. flight ?b (br_queue h) (br_receipt h) = Some e \<longrightarrow> fl_received e = br_received h" by blast+
      then show ?thesis using split_flight [of "br_queue h" "br_receipt h"] by (auto simp: trans_less_add1)
    next
      assume h: "h \<in> set (map (receipt_of d) rs)"
      have "flight ?b (br_queue h) (br_receipt h) = None"
      proof (rule ccontr)
        assume "flight ?b (br_queue h) (br_receipt h) \<noteq> None"
        then obtain e where "map_of (q_in_flight (queue_of ?b (br_queue h))) (br_receipt h) = Some e"
          by (auto simp: flight_def)
        from map_of_SomeD [OF this] bus_okD [OF world_okD(1) [OF assms(1)], of "br_queue h"]
        have "br_receipt h < ?nid" unfolding queue_ok_def by (metis fst_conv)
        with new [OF h] show False by simp
      qed
      then show ?thesis using new [OF h] split_flight [of "br_queue h" "br_receipt h"]
          d world_okD(5) [OF assms(1)] by (auto simp: subscribers_ok_def)
    qed
    then show "br_receipt h < bus_next_id (w_bus w')" "br_received h \<le> w_now w'"
      "visibility_ok (br_visibility h)"
      "\<And>e. flight (w_bus w') (br_queue h) (br_receipt h) = Some e \<Longrightarrow> fl_received e = br_received h"
      using keep(5) len by (simp_all add: w')
  qed
  moreover have "subscribers_ok w'"
    using world_okD(5) [OF assms(1)] keep(7) by (simp add: subscribers_ok_def w')
  moreover have "balanced (length (w_held w) + length rs) b'"
    using keep(2) world_okD(2) [OF assms(1)] by blast
  ultimately show ?thesis using keep(1) by (simp add: world_ok_def w')
qed

text \<open>Steps that settle one handle, or drop it: one entry at most changes, and what it becomes
  is on its way back.\<close>

lemma world_ok_settle:
  assumes ok: "world_ok w" and h: "h \<in> set (w_held w)"
    and bus: "bus_ok (w_now w) (w_bus w')" "bus_next_id (w_bus w') = bus_next_id (w_bus w)"
      "\<And>k. q_subscriptions (queue_of (w_bus w') k) = q_subscriptions (queue_of (w_bus w) k)"
    and bal: "balanced (length (w_held w')) (w_bus w')"
    and fl: "flight (w_bus w') =
        (flight (w_bus w))(br_queue h := (flight (w_bus w) (br_queue h))(br_receipt h := slot))"
    and slot: "\<And>e'. slot = Some e' \<Longrightarrow> 0 < fl_generation e' \<and> fl_received e' = br_received h \<and>
        armed (bus_timers (w_bus w')) (br_queue h) (br_receipt h) e'"
    and ts: "set (bus_timers (w_bus w)) \<subseteq> set (bus_timers (w_bus w'))"
    and held: "w_held w' = w_held w \<or> w_held w' = remove1 h (w_held w)"
    and settled: "w_settled w' = w_settled w \<or> w_settled w' = br_receipt h # w_settled w"
    and same: "w_now w' = w_now w" "w_open w' = w_open w"
  shows "world_ok w'"
proof -
  note hok = world_okD(4) [OF ok, unfolded handles_ok_def]
  have d: "distinct (map br_receipt (w_held w))" using hok by blast
  have one: "g \<in> set (w_held w) \<Longrightarrow> br_receipt g = br_receipt h \<Longrightarrow> g = h" for g
    using d h by (auto simp: distinct_map dest: inj_onD)
  have sub: "set (w_held w') \<subseteq> set (w_held w)" using held set_remove1_subset [of h "w_held w"] by auto
  have stays: "g \<in> set (w_held w) \<Longrightarrow> g \<noteq> h \<Longrightarrow> g \<in> set (w_held w')" for g using held by auto
  have "covered w'" unfolding covered_def
  proof (intro allI impI)
    fix k r e assume e: "flight (w_bus w') k r = Some e"
    show "fl_generation e = 0 \<and> in_hand (w_held w') (w_settled w') k r \<or>
        0 < fl_generation e \<and> armed (bus_timers (w_bus w')) k r e"
    proof (cases "k = br_queue h \<and> r = br_receipt h")
      case True
      with e slot [of e] show ?thesis by (simp add: fl)
    next
      case False
      with e have "flight (w_bus w) k r = Some e" by (auto simp: fl split: if_splits)
      then have "fl_generation e = 0 \<and> in_hand (w_held w) (w_settled w) k r \<or>
          0 < fl_generation e \<and> armed (bus_timers (w_bus w)) k r e"
        by (rule world_okD(3) [OF ok, unfolded covered_def, rule_format])
      then consider "fl_generation e = 0" "in_hand (w_held w) (w_settled w) k r"
        | "0 < fl_generation e" "armed (bus_timers (w_bus w)) k r e" by (elim disjE conjE)
      then show ?thesis
      proof cases
        case 1
        then obtain g where g: "g \<in> set (w_held w)" "br_queue g = k" "br_receipt g = r"
          "r \<notin> set (w_settled w)" by (auto simp: in_hand_def)
        with False have "g \<noteq> h" by auto
        with g one have "br_receipt g \<noteq> br_receipt h" "g \<in> set (w_held w')" using stays by auto
        with 1 g settled show ?thesis by (auto simp: in_hand_def)
      next
        case 2 with ts show ?thesis by (auto simp: armed_def)
      qed
    qed
  qed
  moreover have "handles_ok w'" unfolding handles_ok_def
  proof (intro conjI ballI allI impI)
    show "distinct (map br_receipt (w_held w'))"
      using d held set_remove1_subset [of h "w_held w"]
      by (auto simp: distinct_map intro: inj_on_subset)
    show "r < bus_next_id (w_bus w')" if "r \<in> set (w_settled w')" for r
      using that settled hok h bus(2) by auto
    fix g assume "g \<in> set (w_held w')"
    with sub have g: "g \<in> set (w_held w)" by blast
    with hok bus(2) same show "br_receipt g < bus_next_id (w_bus w')" "br_received g \<le> w_now w'"
      "visibility_ok (br_visibility g)" by simp_all
    fix e assume e: "flight (w_bus w') (br_queue g) (br_receipt g) = Some e"
    show "fl_received e = br_received g"
    proof (cases "g = h")
      case True with e slot [of e] show ?thesis by (simp add: fl)
    next
      case False
      with one g have "br_receipt g \<noteq> br_receipt h" by blast
      with e have "flight (w_bus w) (br_queue g) (br_receipt g) = Some e" by (auto simp: fl split: if_splits)
      with hok g show ?thesis by blast
    qed
  qed
  moreover have "subscribers_ok w'"
    using world_okD(5) [OF ok] bus(3) same by (simp add: subscribers_ok_def)
  ultimately show ?thesis using bus(1) bal same by (simp add: world_ok_def)
qed

lemma world_ok_deleted:
  assumes "world_ok w" and "h \<in> set (w_held w)" and "receipt_delete h w = (res, w')"
  shows "world_ok w'"
proof -
  note keep = bus_delete_keeps [OF world_okD(1) [OF assms(1)]]
  have w': "w' = w\<lparr>w_bus := bus_delete (br_queue h) (br_receipt h) (w_bus w),
      w_settled := br_receipt h # w_settled w\<rparr>"
    using assms(3) by (simp add: receipt_delete_def)
  show ?thesis
    by (rule world_ok_settle [OF assms(1,2), where slot = None])
      (use world_okD(2) [OF assms(1)] in \<open>simp_all add: w' keep\<close>)
qed

text \<open>What one change of a live handle's visibility does to the account.\<close>

lemma change_keeps:
  assumes ok: "world_ok w" and h: "h \<in> set (w_held w)"
    and chg: "bus_change_visibility (w_now w) (br_queue h) (br_receipt h) v (w_bus w) = (res, b)"
  shows "bus_ok (w_now w) b \<and> bus_next_id b = bus_next_id (w_bus w) \<and>
    (\<forall>n. balanced n b = balanced n (w_bus w)) \<and> wakes (w_bus w) b \<and>
    (\<forall>k. q_subscriptions (queue_of b k) = q_subscriptions (queue_of (w_bus w) k)) \<and>
    set (bus_timers (w_bus w)) \<subseteq> set (bus_timers b)"
    and "(\<exists>e. res = Inl e) \<Longrightarrow> flight b = flight (w_bus w) \<and> bus_timers b = bus_timers (w_bus w)"
    and "res = Ok () \<Longrightarrow> \<exists>slot. flight b = (flight (w_bus w))(br_queue h :=
        (flight (w_bus w) (br_queue h))(br_receipt h := slot)) \<and>
        (\<forall>e'. slot = Some e' \<longrightarrow> 0 < fl_generation e' \<and> fl_received e' = br_received h \<and>
           armed (bus_timers b) (br_queue h) (br_receipt h) e')"
proof -
  let ?k = "br_queue h" and ?r = "br_receipt h" and ?b = "w_bus w"
  let ?b1 = "put_queue ?k (queue_of ?b ?k) ?b"
  note ok1 = put_back_keeps(1) [OF world_okD(1) [OF ok], of ?k]
  have b1: "flight ?b1 = flight ?b" "bus_timers ?b1 = bus_timers ?b" "bus_next_id ?b1 = bus_next_id ?b"
    "\<And>n. balanced n ?b1 = balanced n ?b" "wakes ?b ?b1" "\<And>k. queue_of ?b1 k = queue_of ?b k"
    by (simp_all add: put_back_keeps)
  have recv: "flight ?b ?k ?r = Some e \<Longrightarrow> fl_received e = br_received h \<and> br_received h \<le> w_now w" for e
    using world_okD(4) [OF ok] h by (simp add: handles_ok_def)
  let ?A = "bus_ok (w_now w) b \<and> bus_next_id b = bus_next_id ?b \<and>
    (\<forall>n. balanced n b = balanced n ?b) \<and> wakes ?b b \<and>
    (\<forall>k. q_subscriptions (queue_of b k) = q_subscriptions (queue_of ?b k)) \<and>
    set (bus_timers ?b) \<subseteq> set (bus_timers b)"
  let ?B = "(\<exists>e. res = Inl e) \<longrightarrow> flight b = flight ?b \<and> bus_timers b = bus_timers ?b"
  let ?C = "res = Ok () \<longrightarrow> (\<exists>slot. flight b = (flight ?b)(?k := (flight ?b ?k)(?r := slot)) \<and>
        (\<forall>e'. slot = Some e' \<longrightarrow> 0 < fl_generation e' \<and> fl_received e' = br_received h \<and>
           armed (bus_timers b) ?k ?r e'))"
  have "?A \<and> ?B \<and> ?C"
  proof (cases rule: change_visibility_cases [of v "w_now w" ?k ?r ?b])
    case long
    with chg world_okD(1) [OF ok] show ?thesis by auto
  next
    case absent
    with chg ok1 b1 show ?thesis by auto
  next
    case (returned e)
    with b1(1) have e: "flight ?b1 ?k ?r = Some e" by simp
    note rq = requeue_keeps [OF ok1 e]
    from returned chg have "res = Ok ()" "b = requeue ?k ?r e ?b1" by auto
    then show ?thesis using rq(1-5,7) wakes_trans [OF b1(5) rq(6)] b1 by auto
  next
    case (refused e)
    with chg ok1 b1 show ?thesis by auto
  next
    case (armed e)
    with b1(1) have e: "flight ?b1 ?k ?r = Some e" by simp
    note pr = put_rearmed_keeps [OF ok1 e]
    let ?b2 = "put_queue ?k ((queue_of ?b1 ?k)\<lparr>q_in_flight :=
        hash_insert ?r (rearmed e) (q_in_flight (queue_of ?b1 ?k))\<rparr>) ?b1"
    from armed chg b1(6) have res: "res = Ok ()"
      and b: "b = lapse_after (w_now w) v ?k ?r (fl_generation (rearmed e)) ?b2" by auto
    have "w_now w + v \<le> fl_received e + VISIBILITY_WINDOW"
      using armed(4) recv [OF armed(2)] by linarith
    then have arm: "Account_System.armed (bus_timers b) ?k ?r (rearmed e)"
      by (auto simp: Account_System.armed_def b)
    have "wakes ?b b"
      by (rule wakes_trans [OF b1(5) wakes_trans [OF pr(4) wakes_eq]]) (simp add: b)
    moreover have "flight b = (flight ?b)(?k := (flight ?b ?k)(?r \<mapsto> rearmed e))"
      using pr(3) by (simp add: b b1(1))
    ultimately show ?thesis
      using pr(1,2,5) arm recv [OF armed(2)] res b1 by (auto simp: b)
  qed
  then show ?A and "(\<exists>e. res = Inl e) \<Longrightarrow> flight b = flight ?b \<and> bus_timers b = bus_timers ?b"
    and "res = Ok () \<Longrightarrow> \<exists>slot. flight b = (flight ?b)(?k := (flight ?b ?k)(?r := slot)) \<and>
        (\<forall>e'. slot = Some e' \<longrightarrow> 0 < fl_generation e' \<and> fl_received e' = br_received h \<and>
           armed (bus_timers b) ?k ?r e')"
    by blast+
qed

lemma world_ok_changed:
  assumes "world_ok w" and "h \<in> set (w_held w)"
    and "receipt_change_visibility h secs w = (res, w')"
  shows "world_ok w'"
proof (cases "secs < 0")
  case True
  with assms show ?thesis by (simp add: receipt_change_visibility_def)
next
  case False
  obtain r b where chg: "bus_change_visibility (w_now w) (br_queue h) (br_receipt h)
      (from_secs (nat secs)) (w_bus w) = (r, b)" by fastforce
  note keep = change_keeps [OF assms(1,2) chg]
  show ?thesis
  proof (cases r)
    case (Inl e)
    with assms(3) False chg have w': "w' = w\<lparr>w_bus := b\<rparr>"
      by (simp add: receipt_change_visibility_def)
    show ?thesis
      by (rule world_ok_quiet [OF assms(1)])
        (use keep(1,2) Inl world_okD(5) [OF assms(1)] in \<open>simp_all add: w' subscribers_ok_def\<close>)
  next
    case (Inr u)
    with assms(3) False chg have w': "w' = w\<lparr>w_bus := b, w_settled := br_receipt h # w_settled w\<rparr>"
      by (simp add: receipt_change_visibility_def)
    from Inr have "r = Ok ()" by simp
    then obtain slot where "flight b = (flight (w_bus w))(br_queue h :=
        (flight (w_bus w) (br_queue h))(br_receipt h := slot))"
      "\<forall>e'. slot = Some e' \<longrightarrow> 0 < fl_generation e' \<and> fl_received e' = br_received h \<and>
         armed (bus_timers b) (br_queue h) (br_receipt h) e'" using keep(3) by blast
    then show ?thesis
      by (intro world_ok_settle [OF assms(1,2), where slot = slot])
        (use keep(1) world_okD(2) [OF assms(1)] in \<open>simp_all add: w'\<close>)
  qed
qed

lemma world_ok_dropped:
  assumes "world_ok w" and "h \<in> set (w_held w)" and "receipt_drop h w = Some w'"
  shows "world_ok w'"
proof -
  have len: "length (w_held w) = Suc (length (remove1 h (w_held w)))"
    using assms(2) length_pos_if_in_set [OF assms(2)] by (simp add: length_remove1)
  have bal: "balanced (length (remove1 h (w_held w))) (tell Consumed b) = balanced (length (w_held w)) b" for b :: "'a bus"
    by (simp add: len)
  show ?thesis
  proof (cases "br_receipt h \<in> set (w_settled w)")
    case True
    then have w': "w' = w\<lparr>w_bus := tell Consumed (w_bus w), w_held := remove1 h (w_held w)\<rparr>"
      using assms(3) by (simp add: receipt_drop_def)
    have slot: "0 < fl_generation e \<and> fl_received e = br_received h \<and>
        armed (bus_timers (w_bus w)) (br_queue h) (br_receipt h) e"
      if "flight (w_bus w) (br_queue h) (br_receipt h) = Some e" for e
    proof -
      have "\<not> in_hand (w_held w) (w_settled w) (br_queue h) (br_receipt h)" using True by (simp add: in_hand_def)
      with that world_okD(3) [OF assms(1), unfolded covered_def, rule_format, OF that]
      have "0 < fl_generation e \<and> armed (bus_timers (w_bus w)) (br_queue h) (br_receipt h) e" by simp
      with that world_okD(4) [OF assms(1)] assms(2) show ?thesis by (simp add: handles_ok_def)
    qed
    show ?thesis
      by (rule world_ok_settle [OF assms(1,2), where slot = "flight (w_bus w) (br_queue h) (br_receipt h)"])
        (use world_okD(1,2) [OF assms(1)] slot bal in \<open>simp_all add: w'\<close>)
  next
    case False
    with assms(3) obtain left where left: "remaining_visibility (br_visibility h) (w_now w - br_received h) = Some left"
      by (auto simp: receipt_drop_def split: option.splits)
    obtain r b where chg: "bus_change_visibility (w_now w) (br_queue h) (br_receipt h) left (w_bus w) = (r, b)"
      by fastforce
    have w': "w' = w\<lparr>w_bus := tell Consumed b, w_held := remove1 h (w_held w)\<rparr>"
      using assms(3) False left chg by (simp add: receipt_drop_def)
    note keep = change_keeps [OF assms(1,2) chg]
    have "\<exists>slot. flight b = (flight (w_bus w))(br_queue h :=
        (flight (w_bus w) (br_queue h))(br_receipt h := slot)) \<and>
        (\<forall>e'. slot = Some e' \<longrightarrow> 0 < fl_generation e' \<and> fl_received e' = br_received h \<and>
         armed (bus_timers b) (br_queue h) (br_receipt h) e')"
    proof (cases "flight (w_bus w) (br_queue h) (br_receipt h)")
      case None
      then have "flight b = flight (w_bus w)"
        using remaining_never_refused(1) [OF left] chg
        by (cases rule: change_visibility_cases [of left "w_now w" "br_queue h" "br_receipt h" "w_bus w"])
          (auto simp: put_back_keeps)
      with None show ?thesis by (intro exI [of _ None]) (auto simp: fun_eq_iff)
    next
      case (Some e)
      have "fl_received e = br_received h"
        using world_okD(4) [OF assms(1)] assms(2) Some by (simp add: handles_ok_def)
      then have "r = Ok ()"
        using remaining_never_refused [OF left] chg Some
        by (cases rule: change_visibility_cases [of left "w_now w" "br_queue h" "br_receipt h" "w_bus w"]) auto
      with keep(3) show ?thesis by blast
    qed
    then obtain slot where "flight b = (flight (w_bus w))(br_queue h :=
        (flight (w_bus w) (br_queue h))(br_receipt h := slot))"
      "\<forall>e'. slot = Some e' \<longrightarrow> 0 < fl_generation e' \<and> fl_received e' = br_received h \<and>
         armed (bus_timers b) (br_queue h) (br_receipt h) e'" by blast
    then show ?thesis
      by (intro world_ok_settle [OF assms(1,2), where slot = slot])
        (use keep(1) world_okD(2) [OF assms(1)] bal in \<open>simp_all add: w'\<close>)
  qed
qed

text \<open>A timer running out: it is gone, and the entry it was armed for with it.\<close>

lemma world_ok_expired:
  assumes ok: "world_ok w" and i: "i < length (bus_timers (w_bus w))"
  shows "world_ok (w\<lparr>w_bus := fire_timer i (w_bus w)\<rparr>)"
proof -
  let ?b = "w_bus w" let ?tm = "bus_timers ?b ! i"
  let ?ts = "take i (bus_timers ?b) @ drop (Suc i) (bus_timers ?b)"
  let ?rest = "?b\<lparr>bus_timers := ?ts\<rparr>"
  have ok0: "bus_ok (w_now w) ?rest" using world_okD(1) [OF ok] by simp
  note keep = lapse_keeps [OF ok0, where k = "tm_key ?tm" and r = "tm_receipt ?tm" and g = "tm_generation ?tm"]
  have fire: "fire_timer i ?b = lapse (tm_key ?tm) (tm_receipt ?tm) (tm_generation ?tm) ?rest"
    unfolding fire_timer_def Let_def by (rule refl)
  have ts: "set (bus_timers ?b) = insert ?tm (set ?ts)"
    using i by (subst id_take_nth_drop [OF i]) auto
  have left: "flight (fire_timer i ?b) k r = Some e \<Longrightarrow> flight ?b k r = Some e \<and>
      \<not> (k = tm_key ?tm \<and> r = tm_receipt ?tm \<and> fl_generation e = tm_generation ?tm)" for k r e
    using keep(3) by (auto simp: fire split: if_splits)
  have timers: "bus_timers (fire_timer i ?b) = ?ts" using keep(4) by (simp add: fire)
  have "covered (w\<lparr>w_bus := fire_timer i ?b\<rparr>)" unfolding covered_def
  proof (intro allI impI)
    fix k r e assume "flight (w_bus (w\<lparr>w_bus := fire_timer i ?b\<rparr>)) k r = Some e"
    then have e: "flight ?b k r = Some e"
      "\<not> (k = tm_key ?tm \<and> r = tm_receipt ?tm \<and> fl_generation e = tm_generation ?tm)"
      using left [of k r e] by auto
    have "armed (bus_timers ?b) k r e \<Longrightarrow> armed ?ts k r e"
      using e(2) unfolding armed_def ts by auto
    with world_okD(3) [OF ok, unfolded covered_def, rule_format, OF e(1)] timers
    show "fl_generation e = 0 \<and> in_hand (w_held (w\<lparr>w_bus := fire_timer i ?b\<rparr>))
          (w_settled (w\<lparr>w_bus := fire_timer i ?b\<rparr>)) k r \<or>
        0 < fl_generation e \<and> armed (bus_timers (w_bus (w\<lparr>w_bus := fire_timer i ?b\<rparr>))) k r e"
      by auto
  qed
  moreover have "handles_ok (w\<lparr>w_bus := fire_timer i ?b\<rparr>)"
    using world_okD(4) [OF ok] left keep(5) by (auto simp: handles_ok_def fire)
  moreover have "subscribers_ok (w\<lparr>w_bus := fire_timer i ?b\<rparr>)"
    using world_okD(5) [OF ok] keep(7) by (simp add: subscribers_ok_def fire)
  ultimately show ?thesis
    using keep(1,2) world_okD(2) [OF ok] by (simp add: world_ok_def fire)
qed

text \<open>Every step keeps every invariant.\<close>

lemma traffic_steps:
  assumes "bus_ok c b"
  shows "bus_send x now name key ob b = (r, b') \<Longrightarrow> keeps_traffic c b b'"
    "bus_publish_topic x now name topic ob b = (r, b') \<Longrightarrow> keeps_traffic c b b'"
    "bus_subscribe_topic topic queue name b = (r, b') \<Longrightarrow> keeps_traffic c b b'"
    "bus_set_redrive key n dl b = (r, b') \<Longrightarrow> keeps_traffic c b b'"
  using assms by (metis bus_send_keeps snd_conv, metis bus_publish_topic_keeps snd_conv,
      metis bus_subscribe_topic_keeps snd_conv, metis bus_set_redrive_keeps snd_conv)

lemma world_ok_step:
  assumes "world_ok w" and "world_step x w w'"
  shows "world_ok w'"
  using assms(2)
proof (cases rule: world_step.cases)
  case (check d limit window t)
  then have "w' = w\<lparr>w_bus := snd (bus_receivable (bd_queue d) limit (w_bus w))\<rparr>"
    by (auto simp: receive_check_def split: prod.splits)
  with world_ok_traffic [OF assms(1) bus_receivable_keeps [OF world_okD(1) [OF assms(1)]]]
  show ?thesis by simp
qed (use assms(1) traffic_steps [OF world_okD(1) [OF assms(1)]] in
    \<open>auto intro: world_ok_traffic world_ok_tick world_ok_enter world_ok_leave world_ok_take
      world_ok_deleted world_ok_changed world_ok_dropped world_ok_expired\<close>)

interpretation account: safe_system world_init "world_step x" world_ok for x
  by unfold_locales (auto intro: world_ok_init world_ok_step)

subsection \<open>Invariants of the account alone\<close>

text \<open>What every method of the account keeps, whatever the clock, the handles and the subscriptions,
  holds in every reachable world.\<close>

locale bus_invariant =
  fixes x :: "'h externals" and holds :: "'h bus \<Rightarrow> bool"
  assumes fresh: "holds (new_bus endpoint region)"
    and fields: "holds b \<Longrightarrow> holds (install_coordinator b)" "holds b \<Longrightarrow> holds (tell c b)"
      "holds b \<Longrightarrow> holds (b\<lparr>bus_timers := ts\<rparr>)"
    and traffic: "holds b \<Longrightarrow> holds (snd (bus_send x now name key ob b))"
      "holds b \<Longrightarrow> holds (snd (bus_publish_topic x now name topic ob b))"
      "holds b \<Longrightarrow> holds (snd (bus_subscribe_topic topic queue name b))"
      "holds b \<Longrightarrow> holds (snd (bus_set_redrive key n dl b))"
    and subscriptions: "holds b \<Longrightarrow> holds (bus_open key b)" "holds b \<Longrightarrow> holds (bus_close key b)"
      "holds b \<Longrightarrow> holds (snd (bus_receivable key n b))" "holds b \<Longrightarrow> holds (snd (bus_receive x now key n b))"
    and settlements: "holds b \<Longrightarrow> holds (bus_delete key r b)"
      "holds b \<Longrightarrow> holds (snd (bus_change_visibility now key r v b))" "holds b \<Longrightarrow> holds (lapse key r g b)"
begin

lemma holds_step:
  assumes "holds (w_bus w)" and "world_step x w w'"
  shows "holds (w_bus w')"
  using assms(2)
proof (cases rule: world_step.cases)
  case (send name key ob r b)
  then show ?thesis using traffic(1) [OF assms(1), of "w_now w" name key ob] by simp
next
  case (publish name topic ob r b)
  then show ?thesis using traffic(2) [OF assms(1), of "w_now w" name topic ob] by simp
next
  case (subscribe topic queue name r b)
  then show ?thesis using traffic(3) [OF assms(1), of topic queue name] by simp
next
  case (policy key limit dl r b)
  then show ?thesis using traffic(4) [OF assms(1), of key limit dl] by simp
next
  case (check d limit window t)
  then show ?thesis using assms(1) subscriptions(3) [OF assms(1), of "bd_queue d" limit]
    by (auto simp: receive_check_def split: prod.splits)
next
  case (take d limit ms)
  then show ?thesis using subscriptions(4) [OF assms(1), of "w_now w" "bd_queue d" limit]
    by (auto simp: receive_take_def split: prod.splits)
next
  case (changed r secs res)
  then show ?thesis
    using assms(1) settlements(2) [OF assms(1), of "w_now w" "br_queue r" "br_receipt r" "from_secs (nat secs)"]
    by (auto simp: receipt_change_visibility_def split: if_splits prod.splits sum.splits)
qed (use assms(1) in \<open>auto simp: deliveries_open_def deliveries_drop_def receipt_delete_def receipt_drop_def
    fire_timer_def Let_def fields subscriptions settlements split: if_splits option.splits\<close>)

end

sublocale bus_invariant \<subseteq> kept: safe_system world_init "world_step x" "\<lambda>w. holds (w_bus w)"
proof
  fix w :: "'h world" assume "world_init w"
  then show "holds (w_bus w)" by (auto simp: world_init_def new_world_def fresh fields(1))
qed (rule holds_step)

end
