(* ===== verification/Instances.thy ===== *)
theory Instances
  imports Message "HOL-Library.Code_Target_Nat"
begin

section \<open>Concrete external functions\<close>

text \<open>
  Functions that satisfy what \<open>externals_ok\<close> asks of the code outside the repository: a header
  map kept as an association list, the standard base64 alphabet with padding, and a builder that
  accepts every attribute with a type. They stand for no code of the repository; the properties
  that take \<open>externals\<close> are applied to them at concrete inputs.
\<close>

subsection \<open>Base64\<close>

definition b64_alphabet :: string where
  "b64_alphabet = ''ABCDEFGHIJKLMNOPQRSTUVWXYZabcdefghijklmnopqrstuvwxyz0123456789+/''"

definition b64_digit :: "nat \<Rightarrow> char" where "b64_digit n = b64_alphabet ! n"

fun index_of :: "char \<Rightarrow> string \<Rightarrow> nat option" where
  "index_of c [] = None"
| "index_of c (d # ds) = (if c = d then Some 0 else map_option Suc (index_of c ds))"

definition b64_value :: "char \<Rightarrow> nat option" where "b64_value c = index_of c b64_alphabet"

fun b64_text :: "nat list \<Rightarrow> string" where
  "b64_text [] = []"
| "b64_text [a] = [b64_digit (a div 4), b64_digit (a mod 4 * 16), CHR ''='', CHR ''='']"
| "b64_text [a, b] = [b64_digit (a div 4), b64_digit (a mod 4 * 16 + b div 16),
     b64_digit (b mod 16 * 4), CHR ''='']"
| "b64_text (a # b # c # bs) = [b64_digit (a div 4), b64_digit (a mod 4 * 16 + b div 16),
     b64_digit (b mod 16 * 4 + c div 64), b64_digit (c mod 64)] @ b64_text bs"

fun b64_bytes :: "string \<Rightarrow> nat list option" where
  "b64_bytes [] = Some []"
| "b64_bytes (p # q # r # s # cs) =
     (case (b64_value p, b64_value q) of
        (Some x, Some y) \<Rightarrow>
          (case (b64_value r, b64_value s) of
             (Some z, Some u) \<Rightarrow>
               map_option (\<lambda>bs. (x * 4 + y div 16) # (y mod 16 * 16 + z div 4) # (z mod 4 * 64 + u) # bs)
                 (b64_bytes cs)
           | (Some z, None) \<Rightarrow>
               if s = CHR ''='' \<and> cs = [] then Some [x * 4 + y div 16, y mod 16 * 16 + z div 4] else None
           | (None, _) \<Rightarrow>
               if r = CHR ''='' \<and> s = CHR ''='' \<and> cs = [] then Some [x * 4 + y div 16] else None)
      | _ \<Rightarrow> None)"
| "b64_bytes _ = None"

lemma b64_value_digit: "n < 64 \<Longrightarrow> b64_value (b64_digit n) = Some n"
proof -
  have "\<forall>n \<in> set [0 ..< 64]. b64_value (b64_digit n) = Some n" by code_simp
  then show "n < 64 \<Longrightarrow> b64_value (b64_digit n) = Some n" by simp
qed

lemma b64_digit_printable: "n < 64 \<Longrightarrow> 32 \<le> byte (b64_digit n) \<and> byte (b64_digit n) < 127"
proof -
  have "\<forall>n \<in> set [0 ..< 64]. 32 \<le> byte (b64_digit n) \<and> byte (b64_digit n) < 127" by code_simp
  then show "n < 64 \<Longrightarrow> 32 \<le> byte (b64_digit n) \<and> byte (b64_digit n) < 127" by simp
qed

lemma b64_value_pad: "b64_value (CHR ''='') = None" "byte (CHR ''='') = 61"
  by code_simp+

lemma six_bits:
  fixes a b c :: nat
  assumes "a < 256" "b < 256" "c < 256"
  shows "a div 4 < 64" "a mod 4 * 16 < 64" "a mod 4 * 16 + b div 16 < 64" "b mod 16 * 4 < 64"
    "b mod 16 * 4 + c div 64 < 64" "c mod 64 < 64"
  using assms by (auto simp: div_less_iff_less_mult intro: le_less_trans)

lemma b64_round_trip: "\<forall>b \<in> set bs. b < 256 \<Longrightarrow> b64_bytes (b64_text bs) = Some bs"
proof (induction bs rule: b64_text.induct)
  case (2 a)
  then have a: "a < 256" by simp
  have "a mod 4 * 16 div 16 = a mod 4" by simp
  then have "a div 4 * 4 + a mod 4 * 16 div 16 = a" by simp
  with a show ?case by (simp add: b64_value_digit b64_value_pad six_bits)
next
  case (3 a b)
  then have ab: "a < 256" "b < 256" by auto
  have "(a mod 4 * 16 + b div 16) div 16 = a mod 4" "(a mod 4 * 16 + b div 16) mod 16 = b div 16"
    using ab by simp_all
  with ab show ?case by (simp add: b64_value_digit b64_value_pad six_bits)
next
  case (4 a b c bs)
  then have abc: "a < 256" "b < 256" "c < 256" by auto
  have "(a mod 4 * 16 + b div 16) div 16 = a mod 4" "(a mod 4 * 16 + b div 16) mod 16 = b div 16"
    "(b mod 16 * 4 + c div 64) div 4 = b mod 16" "(b mod 16 * 4 + c div 64) mod 4 = c div 64"
    using abc by simp_all
  with 4 show ?case by (simp add: b64_value_digit six_bits [OF abc])
qed simp

lemma b64_text_printable:
  "\<forall>b \<in> set bs. b < 256 \<Longrightarrow> c \<in> set (b64_text bs) \<Longrightarrow> 32 \<le> byte c \<and> byte c < 127"
proof (induction bs rule: b64_text.induct)
  case (2 a)
  then have a: "a < 256" by simp
  from 2 show ?case
    by (auto simp: b64_digit_printable six_bits [OF a a a] b64_value_pad)
next
  case (3 a b)
  then have ab: "a < 256" "b < 256" by simp_all
  from 3 show ?case
    by (auto simp: b64_digit_printable six_bits [OF ab ab(2)] b64_value_pad)
next
  case (4 a b c bs)
  then have abc: "a < 256" "b < 256" "c < 256" by simp_all
  from 4 show ?case by (auto simp: b64_digit_printable six_bits [OF abc])
qed simp

subsection \<open>The instance\<close>

definition sample_externals :: "(string \<times> bytes) list externals" where
  "sample_externals =
     \<lparr>hm_new = [], hm_insert = hash_insert, hm_get = map_of, hm_iter = AList.clearjunk,
      b64_encode = (\<lambda>bs. b64_text (map byte bs)),
      b64_decode = (\<lambda>s. map_option (map of_byte) (b64_bytes s)),
      build_attribute = (\<lambda>a. if data_type a = [] then Err ''missing field'' else Ok a)\<rparr>"

lemma sample_header_map: "header_map_ok sample_externals"
  by (simp add: header_map_ok_def sample_externals_def hash_insert_def update_conv' distinct_clearjunk
      map_of_clearjunk)

lemma sample_base64: "base64_ok sample_externals"
proof -
  have bound: "\<forall>b \<in> set (map byte bs). b < 256" for bs by (auto simp: byte_def)
  have "map of_byte (map byte bs) = bs" for bs by (simp add: byte_def of_byte_def comp_def)
  then show ?thesis
    using b64_round_trip [OF bound] b64_text_printable [OF bound]
    by (simp add: base64_ok_def sample_externals_def)
qed

lemma sample_builder: "builder_ok sample_externals"
  by (simp add: builder_ok_def sample_externals_def)

lemma sample_externals_ok: "externals_ok sample_externals"
  by (simp add: externals_ok_def sample_header_map sample_base64 sample_builder)

end
