(* ===== verification/Samples.thy ===== *)
theory Samples
  imports Account_System Instances
begin

section \<open>Sample runs of an account\<close>

text \<open>
  A short run of one in-process account, step by step, at which the properties' hypotheses are
  met: a subscription opens on a queue, a message arrives, a receive hands it over, its handle
  is dropped. Each world is computed from the one before by the account's own operations and is
  reachable; the FIFO samples are the same over a FIFO queue.
\<close>

definition sample_outbound :: "string \<Rightarrow> fifo_settings option \<Rightarrow> outbound" where
  "sample_outbound body fifo = \<lparr>ob_body = body, ob_attributes = [], ob_fifo = fifo\<rparr>"

definition sample_start :: "(string \<times> bytes) list world" where
  "sample_start = new_world (install_coordinator (new_bus None ''r''))"

definition sample_entered :: "(string \<times> bytes) list world" where
  "sample_entered = snd (deliveries_open ''q'' (from_secs 30) (Some 3) sample_start)"

definition sample_subscription :: bus_deliveries where
  "sample_subscription = fst (deliveries_open ''q'' (from_secs 30) (Some 3) sample_start)"

definition sample_sent :: "(string \<times> bytes) list world" where
  "sample_sent = sample_entered\<lparr>w_bus :=
     snd (bus_send sample_externals 0 ''q'' ''q'' (sample_outbound ''hi'' None) (w_bus sample_entered))\<rparr>"

definition sample_taken :: "(string \<times> bytes) list world" where
  "sample_taken = snd (receive_take sample_externals 10 sample_subscription sample_sent)"

definition sample_handle :: bus_receipt where
  "sample_handle = \<lparr>br_queue = ''q'', br_receipt = 2, br_visibility = from_secs 30, br_received = 0\<rparr>"

definition sample_dropped :: "(string \<times> bytes) list world" where
  "sample_dropped = the (receipt_drop sample_handle sample_taken)"

lemma sample_facts:
  "w_open sample_sent = [sample_subscription]" "w_now sample_entered = 0"
  "w_held sample_taken = [sample_handle]" "receipt_drop sample_handle sample_taken \<noteq> None"
  "map_option st_seq (map_of (q_visible (queue_of (w_bus sample_sent) ''q'')) 1) = Some 1"
  "map_option fl_generation (flight (w_bus sample_taken) ''q'' 2) = Some 0"
  "map_option fl_generation (flight (w_bus sample_dropped) ''q'' 2) = Some 1"
  by code_simp+

lemma reachable_entered: "reachable world_init (world_step sample_externals) sample_entered"
proof (rule reachable.move)
  show "reachable world_init (world_step sample_externals) sample_start"
    by (rule reachable.start) (auto simp: world_init_def sample_start_def)
  have "visibility_ok (from_secs 30)" by (simp add: visibility_ok_def duration_defs)
  then show "world_step sample_externals sample_start sample_entered"
    unfolding sample_entered_def by (rule world_step.enter) (rule prod.collapse [symmetric])
qed

lemma step_sent: "world_step sample_externals sample_entered sample_sent"
  unfolding sample_sent_def
  by (rule world_step.send) (subst sample_facts(2), rule prod.collapse [symmetric])

lemma reachable_sent: "reachable world_init (world_step sample_externals) sample_sent"
  by (rule reachable.move [OF reachable_entered step_sent])

lemma reachable_taken: "reachable world_init (world_step sample_externals) sample_taken"
  by (rule reachable.move [OF reachable_sent world_step.take [where d = sample_subscription and limit = 10]])
    (simp add: sample_facts, unfold sample_taken_def, rule prod.collapse [symmetric])

lemma reachable_dropped: "reachable world_init (world_step sample_externals) sample_dropped"
  by (rule reachable.move [OF reachable_taken world_step.dropped [where r = sample_handle]])
    (use sample_facts(3,4) in \<open>auto simp: sample_dropped_def\<close>)

end
