(* ===== verification/Account_Properties.thy ===== *)
theory Account_Properties
  imports Samples
begin

section \<open>What holds of an account, whatever happens to it\<close>

text \<open>
  The safety of the in-process account over every reachable world (theory Account\_System): where
  a message can be, how it comes back, what the harness was told, and who is woken. Witnesses run
  on the worlds of theory Samples.
\<close>

subsection \<open>Where messages are\<close>

datatype place = VisibleOn string | InFlightOn string nat

definition message_at :: "'h bus \<Rightarrow> nat \<Rightarrow> place \<Rightarrow> bool" where
  "message_at b n p \<longleftrightarrow> (case p of
       VisibleOn k \<Rightarrow> map_of (q_visible (queue_of b k)) n \<noteq> None
     | InFlightOn k r \<Rightarrow> (case flight b k r of None \<Rightarrow> False | Some e \<Rightarrow> st_seq (fl_stored e) = n))"

definition place_key :: "place \<Rightarrow> string" where
  "place_key p = (case p of VisibleOn k \<Rightarrow> k | InFlightOn k r \<Rightarrow> k)"

lemma message_at_count: "message_at b n p \<Longrightarrow> 0 < count (queue_seqs (queue_of b (place_key p))) n"
  by (force simp: message_at_def place_key_def queue_seqs_def flight_def image_iff
      dest: map_of_SomeD split: place.splits option.splits)

lemma two_visible_flight:
  assumes "map_of (q_visible q) n \<noteq> None" and "map_of (q_in_flight q) r = Some e"
    and "st_seq (fl_stored e) = n"
  shows "2 \<le> count (queue_seqs q) n"
proof -
  have "n \<in># mset (map fst (q_visible q))" using assms(1) by (force dest: map_of_SomeD)
  moreover have "n \<in># mset (map (st_seq \<circ> fl_stored \<circ> snd) (q_in_flight q))"
    using map_of_SomeD [OF assms(2)] assms(3) by force
  ultimately have "0 < count (mset (map fst (q_visible q))) n"
    "0 < count (mset (map (st_seq \<circ> fl_stored \<circ> snd) (q_in_flight q))) n"
    by (simp_all only: count_greater_zero_iff)
  then show ?thesis unfolding queue_seqs_def count_union by linarith
qed

lemma two_flights:
  assumes "hash_wf (q_in_flight q)" and "map_of (q_in_flight q) r = Some e"
    and "map_of (q_in_flight q) r' = Some e'" and "r \<noteq> r'"
    and "st_seq (fl_stored e) = n" and "st_seq (fl_stored e') = n"
  shows "2 \<le> count (queue_seqs q) n"
proof -
  have "map_of (hash_remove r (q_in_flight q)) r' = Some e'"
    using assms(3,4) by (simp add: hash_remove_def delete_conv')
  then have "n \<in># mset (map (st_seq \<circ> fl_stored \<circ> snd) (hash_remove r (q_in_flight q)))"
    using assms(6) by (force dest: map_of_SomeD)
  then have here: "0 < count (mset (map (st_seq \<circ> fl_stored \<circ> snd) (hash_remove r (q_in_flight q)))) n"
    by (simp only: count_greater_zero_iff)
  have "mset (map (st_seq \<circ> fl_stored \<circ> snd) (q_in_flight q)) =
      add_mset n (mset (map (st_seq \<circ> fl_stored \<circ> snd) (hash_remove r (q_in_flight q))))"
    using hash_remove_mset [OF assms(1,2)] assms(5) by simp
  then have "count (mset (map (st_seq \<circ> fl_stored \<circ> snd) (q_in_flight q))) n =
      Suc (count (mset (map (st_seq \<circ> fl_stored \<circ> snd) (hash_remove r (q_in_flight q)))) n)"
    by (simp only: count_add_mset if_True simp_thms)
  with here show ?thesis unfolding queue_seqs_def count_union by linarith
qed

lemma one_place_each:
  assumes ok: "bus_ok c b" and p: "message_at b n p" and p': "message_at b n p'"
  shows "p = p'"
proof (rule ccontr)
  assume ne: "p \<noteq> p'"
  have once: "count (all_seqs b) n \<le> 1"
    using ok unfolding bus_ok_def by (meson le_trans nat_le_linear zero_le_one if_splits(1) order_refl)
  have "2 \<le> count (all_seqs b) n"
  proof (cases "place_key p = place_key p'")
    case False
    obtain rest where "all_seqs b = queue_seqs (queue_of b (place_key p)) +
        queue_seqs (queue_of b (place_key p')) + rest" using seqs_other_queue [OF False] by blast
    with message_at_count [OF p] message_at_count [OF p'] show ?thesis
      unfolding \<open>all_seqs b = _\<close> count_union by linarith
  next
    case True
    let ?q = "queue_of b (place_key p)"
    have wf: "hash_wf (q_in_flight ?q)" using bus_okD [OF ok] by (simp add: queue_ok_def)
    have "2 \<le> count (queue_seqs ?q) n"
      using p p' ne True two_visible_flight [of ?q n] two_flights [OF wf]
      by (cases p; cases p') (auto simp: message_at_def place_key_def flight_def split: option.splits)
    moreover obtain rest where "all_seqs b = queue_seqs ?q + rest" using seqs_of_queue by blast
    ultimately show ?thesis by simp
  qed
  with once show False by simp
qed

text \<open>C5: in every world the account can reach, a message is in one place only: a message that is
  visible on a queue is not in flight, and one message is never in flight under two receipts, nor
  on two queues.\<close>

theorem message_in_one_place:
  assumes "reachable world_init (world_step x) w"
    and "message_at (w_bus w) n p" and "message_at (w_bus w) n p'"
  shows "p = p'"
  using one_place_each [OF world_okD(1) [OF account.reachable_inv [OF assms(1)]] assms(2,3)] .

theorem message_in_one_place_witness:
  "message_at (w_bus sample_sent) 1 (VisibleOn ''q'') \<and>
   \<not> message_at (w_bus sample_sent) 1 (InFlightOn ''q'' 7)"
proof -
  have "message_at (w_bus sample_sent) 1 (VisibleOn ''q'')" by code_simp
  with message_in_one_place [OF reachable_sent this, of "InFlightOn ''q'' 7"] show ?thesis by blast
qed

text \<open>C4: no message is stranded. In every reachable world a message in flight is either in hand,
  its handle alive and unsettled, or returned by an armed timer that carries its current
  generation and is due no later than twelve hours after its receive.\<close>

theorem no_message_stranded:
  assumes "reachable world_init (world_step x) w" and "flight (w_bus w) k r = Some e"
  shows "(\<exists>h \<in> set (w_held w). br_queue h = k \<and> br_receipt h = r \<and> r \<notin> set (w_settled w)) \<or>
    (\<exists>tm \<in> set (bus_timers (w_bus w)). tm_key tm = k \<and> tm_receipt tm = r \<and>
       tm_generation tm = fl_generation e \<and> tm_due tm \<le> fl_received e + from_hours 12)"
  using account.reachable_inv [OF assms(1), THEN world_okD(3)] assms(2)
  unfolding covered_def in_hand_def armed_def VISIBILITY_WINDOW_def by blast

theorem no_message_stranded_witness:
  "\<exists>tm \<in> set (bus_timers (w_bus sample_dropped)). tm_key tm = ''q'' \<and> tm_receipt tm = 2 \<and> tm_generation tm = 1"
proof -
  obtain e where e: "flight (w_bus sample_dropped) ''q'' 2 = Some e" "fl_generation e = 1"
    using sample_facts(7) by auto
  moreover have "w_held sample_dropped = []" by code_simp
  ultimately show ?thesis using no_message_stranded [OF reachable_dropped e(1)] by auto
qed

text \<open>C18: the harness's count balances. With the coordinator installed from the start, the
  deliveries it was told of (\<open>enqueued\<close>) exceed the ones it was told are done (\<open>consumed\<close>) by
  exactly the visible messages of all queues plus the handles alive, in every reachable world.\<close>

theorem harness_count_balances:
  assumes "reachable world_init (world_step x) w" and "bus_coordinator (w_bus w) = Some calls"
  shows "count_list calls Enqueued =
    count_list calls Consumed + (\<Sum>e\<leftarrow>bus_queues (w_bus w). length (q_visible (snd e))) + length (w_held w)"
  using account.reachable_inv [OF assms(1), THEN world_okD(2)] assms(2)
  by (simp add: balanced_def owed_def visible_total_def across_def)

theorem harness_count_balances_witness:
  "\<exists>calls. bus_coordinator (w_bus sample_taken) = Some calls \<and>
     count_list calls Enqueued = count_list calls Consumed + 1"
proof -
  have "bus_coordinator (w_bus sample_taken) \<noteq> None" by code_simp
  then obtain calls where calls: "bus_coordinator (w_bus sample_taken) = Some calls" by blast
  have "(\<Sum>e\<leftarrow>bus_queues (w_bus sample_taken). length (q_visible (snd e))) = 0" by code_simp
  with calls show ?thesis using harness_count_balances [OF reachable_taken calls] sample_facts(3) by simp
qed

subsection \<open>Wake-ups\<close>

text \<open>Every step of the account wakes whom it makes receivable.\<close>

lemma traffic_wakes: "keeps_traffic c b b' \<Longrightarrow> wakes b b'"
  by (simp add: keeps_traffic_def)

lemma receipt_delete_wakes:
  "world_ok w \<Longrightarrow> receipt_delete h w = (res, w') \<Longrightarrow> wakes (w_bus w) (w_bus w')"
  by (auto simp: receipt_delete_def intro: bus_delete_keeps(6) [OF world_okD(1)])

lemma receipt_change_wakes:
  assumes "world_ok w" "h \<in> set (w_held w)" "receipt_change_visibility h secs w = (res, w')"
  shows "wakes (w_bus w) (w_bus w')"
proof -
  obtain r b where chg: "bus_change_visibility (w_now w) (br_queue h) (br_receipt h)
      (from_secs (nat secs)) (w_bus w) = (r, b)" by fastforce
  then show ?thesis using assms change_keeps(1) [OF assms(1,2) chg]
    by (auto simp: receipt_change_visibility_def split: if_splits sum.splits)
qed

lemma receipt_drop_wakes:
  assumes "world_ok w" "h \<in> set (w_held w)" "receipt_drop h w = Some w'"
  shows "wakes (w_bus w) (w_bus w')"
proof -
  have tell: "wakes b (tell Consumed b)" for b :: "'a bus" by (rule wakes_eq) simp
  show ?thesis
  proof (cases "br_receipt h \<in> set (w_settled w)")
    case True
    with assms(3) tell show ?thesis by (auto simp: receipt_drop_def)
  next
    case False
    then obtain left where "remaining_visibility (br_visibility h) (w_now w - br_received h) = Some left"
      using assms(3) by (auto simp: receipt_drop_def split: option.splits)
    moreover obtain r b where chg:
      "bus_change_visibility (w_now w) (br_queue h) (br_receipt h) left (w_bus w) = (r, b)" by fastforce
    ultimately have "w_bus w' = tell Consumed b" using assms(3) False by (auto simp: receipt_drop_def)
    with change_keeps(1) [OF assms(1,2) chg] tell [of b] show ?thesis by (auto intro: wakes_trans)
  qed
qed

lemma world_step_wakes:
  assumes "world_ok w" and "world_step x w w'"
  shows "wakes (w_bus w) (w_bus w')"
proof -
  note ok = world_okD(1) [OF assms(1)]
  show ?thesis using assms(2)
  proof (cases rule: world_step.cases)
    case (enter v key limit d)
    then show ?thesis using bus_open_keeps(6) [OF ok] by (auto simp: deliveries_open_def Let_def)
  next
    case (leave d)
    then show ?thesis using bus_close_keeps(6) [OF ok] by (simp add: deliveries_drop_def)
  next
    case (check d limit window t)
    then show ?thesis using traffic_wakes [OF bus_receivable_keeps [OF ok]]
      by (auto simp: receive_check_def split: prod.splits) (metis snd_conv)
  next
    case (take d limit ms)
    then show ?thesis using bus_receive_keeps(6) [OF ok order_refl]
      by (auto simp: receive_take_def split: prod.splits)
  next
    case (expired i)
    have "bus_ok (w_now w) ((w_bus w)\<lparr>bus_timers := ts\<rparr>)" for ts using ok by simp
    from lapse_keeps(6) [OF this] wakes_eq have "wakes (w_bus w) (lapse k r g ((w_bus w)\<lparr>bus_timers := ts\<rparr>))" for k r g ts
      by (rule wakes_trans [rotated]) simp
    with expired show ?thesis by (simp add: fire_timer_def Let_def)
  next
    case (tick t)
    then show ?thesis by (simp add: wakes_refl)
  next
    case (send name key ob r b)
    from traffic_wakes [OF traffic_steps(1) [OF ok send(2)]] send show ?thesis by simp
  next
    case (publish name topic ob r b)
    from traffic_wakes [OF traffic_steps(2) [OF ok publish(2)]] publish show ?thesis by simp
  next
    case (subscribe topic queue name r b)
    from traffic_wakes [OF traffic_steps(3) [OF ok subscribe(2)]] subscribe show ?thesis by simp
  next
    case (policy key limit dl r b)
    from traffic_wakes [OF traffic_steps(4) [OF ok policy(2)]] policy show ?thesis by simp
  qed (auto intro: receipt_delete_wakes [OF assms(1)] receipt_change_wakes [OF assms(1)]
      receipt_drop_wakes [OF assms(1)])
qed

lemma ready_receivable:
  "0 < limit \<Longrightarrow> 0 < fst (bus_receivable k limit b) \<longleftrightarrow> ready (queue_of b k)"
  by (auto simp: bus_receivable_def Let_def ready_def filter_empty_conv)

text \<open>C19: no wake-up is lost. A step of the account that turns a queue from nothing receivable into
  something receivable notifies the queue's waiters, so a subscription that parked after reading
  nothing receivable is woken.\<close>

theorem no_lost_wakeup:
  assumes "reachable world_init (world_step x) w" and "world_step x w w'" and "0 < limit"
    and "fst (bus_receivable k limit (w_bus w)) = 0" and "0 < fst (bus_receivable k limit (w_bus w'))"
  shows "q_notify (queue_of (w_bus w) k) < q_notify (queue_of (w_bus w') k)"
  using world_step_wakes [OF account.reachable_inv [OF assms(1)] assms(2)] assms(4,5)
    ready_receivable [OF assms(3)] unfolding wakes_def by (metis less_numeral_extra(3))

theorem no_lost_wakeup_witness:
  "q_notify (queue_of (w_bus sample_entered) ''q'') < q_notify (queue_of (w_bus sample_sent) ''q'')"
proof (rule no_lost_wakeup [OF reachable_entered step_sent, of 10])
  show "fst (bus_receivable ''q'' 10 (w_bus sample_entered)) = 0" by code_simp
  show "0 < fst (bus_receivable ''q'' 10 (w_bus sample_sent))" by code_simp
qed simp

end
