(* ===== verification/Receive_Properties.thy ===== *)
theory Receive_Properties
  imports Account_Properties
begin

section \<open>Properties of one receive\<close>

text \<open>
  What one receive of the in-process account hands over, in which order and what it leaves
  (over the walk of theory Bus\_Laws), what is counted as receivable, and where spent messages go.
\<close>

subsection \<open>One receive\<close>

text \<open>C17: a receive is one pass. The loop that searches the visible messages again for every
  message it takes gives the same result as one walk over them in arrival order, in every
  reachable world.\<close>

theorem receive_is_one_pass:
  assumes "reachable world_init (world_step x) w"
  shows "bus_receive x now k limit (w_bus w) =
    (let q = queue_of (w_bus w) k; nid = bus_next_id (w_bus w);
         (kept, out, spnt) = receive_walk (exhausted q) (not_blocked (blocked_groups q)) limit (q_visible q)
     in (handovers now nid out,
         redrive_spent x spnt
           ((put_queue k (q\<lparr>q_visible := kept, q_in_flight := q_in_flight q @ flights now nid out\<rparr>) (w_bus w))
             \<lparr>bus_next_id := nid + length out\<rparr>)))"
  using bus_receive_walk [OF bus_okD [OF world_okD(1) [OF account.reachable_inv [OF assms]]]]
  by (auto simp: Let_def split: prod.split)

theorem receive_is_one_pass_witness:
  "map rc_receipt (fst (bus_receive sample_externals 5 ''q'' 10 (w_bus sample_sent))) = [2]"
  unfolding receive_is_one_pass [OF reachable_sent] by code_simp

lemma reachable_walk:
  assumes "reachable world_init (world_step x) w" and "bus_receive x now k limit (w_bus w) = (rs, b')"
  defines "q \<equiv> queue_of (w_bus w) k"
  obtains kept out spnt where
    "receive_walk (exhausted q) (not_blocked (blocked_groups q)) limit (q_visible q) = (kept, out, spnt)"
    "rs = handovers now (bus_next_id (w_bus w)) out" "queue_ok (w_now w) (bus_next_id (w_bus w)) q"
    "b' = redrive_spent x spnt
       ((put_queue k (q\<lparr>q_visible := kept,
            q_in_flight := q_in_flight q @ flights now (bus_next_id (w_bus w)) out\<rparr>) (w_bus w))
          \<lparr>bus_next_id := bus_next_id (w_bus w) + length out\<rparr>)"
proof -
  have ok: "queue_ok (w_now w) (bus_next_id (w_bus w)) q"
    unfolding q_def by (rule bus_okD [OF world_okD(1) [OF account.reachable_inv [OF assms(1)]]])
  obtain kept out spnt where walk:
    "receive_walk (exhausted q) (not_blocked (blocked_groups q)) limit (q_visible q) = (kept, out, spnt)"
    by (metis prod_cases3)
  with bus_receive_walk [OF ok [unfolded q_def] walk [unfolded q_def]] assms(2) ok that
  show ?thesis by (simp add: q_def)
qed

text \<open>Visible messages stand in the order of their numbers.\<close>

lemma visible_sorted:
  assumes "queue_ok c n q"
  shows "sorted_wrt (\<lambda>s s'. st_seq s < st_seq s') (map snd (q_visible q))"
proof -
  have "sorted_wrt (\<lambda>e f. fst e < fst f) (q_visible q)"
    and seq: "\<forall>e \<in> set (q_visible q). st_seq (snd e) = fst e"
    using assms by (auto simp: queue_ok_def btree_wf_def sorted_wrt_map [of "(<)" fst, simplified])
  from this(1) show ?thesis
    unfolding sorted_wrt_map by (rule sorted_wrt_mono_rel [rotated]) (simp add: seq)
qed

lemma walk_no_skip:
  assumes "receive_walk ex free n vs = (kept, out, spnt)"
    and "sorted_wrt (\<lambda>s s'. st_seq s < st_seq s') (map snd vs)"
  shows "\<forall>e \<in> set kept. free (snd e) \<longrightarrow> length out = n \<and> (\<forall>s \<in> set out. st_seq s < st_seq (snd e))"
  using assms
proof (induction vs arbitrary: n kept out spnt)
  case (Cons e vs)
  from Cons.prems(1) show ?case
  proof (cases rule: walk_Cons_E)
    case (hand o')
    with Cons.IH [OF hand(4)] Cons.prems(2) walk_kept [OF hand(4)] show ?thesis by auto
  qed (use Cons in auto)
qed simp

lemma walk_takes:
  assumes "receive_walk ex free n vs = (kept, out, spnt)"
  shows "out = take n (filter (\<lambda>s. free s \<and> ex s = None) (map snd vs))"
  using assms
proof (induction vs arbitrary: n kept out spnt)
  case (Cons e vs)
  from Cons.prems show ?case
  proof (cases rule: walk_Cons_E)
    case (hold k) with Cons.IH [OF hold(3)] show ?thesis by simp
  next
    case (spend rd sp) with Cons.IH [OF spend(4)] show ?thesis by simp
  next
    case (hand o') with Cons.IH [OF hand(4)] show ?thesis by (cases n) auto
  qed auto
qed simp

lemma receive_first:
  assumes "reachable world_init (world_step x) w"
    and "bus_receive x now k limit (w_bus w) = (rs, b')"
  shows "let q = queue_of (w_bus w) k;
       mine = filter (\<lambda>s. not_blocked (blocked_groups q) s \<and> exhausted q s = None) (map snd (q_visible q))
     in sorted_wrt (\<lambda>s s'. st_seq s < st_seq s') mine \<and>
        rs = map (\<lambda>(i, s). handed now i (counted s)) (enumerate (bus_next_id (w_bus w)) (take limit mine))"
  using assms
proof (rule reachable_walk)
  let ?q = "queue_of (w_bus w) k"
  fix kept out spnt
  assume walk: "receive_walk (exhausted ?q) (not_blocked (blocked_groups ?q)) limit (q_visible ?q) = (kept, out, spnt)"
    and rs: "rs = handovers now (bus_next_id (w_bus w)) out" and ok: "queue_ok (w_now w) (bus_next_id (w_bus w)) ?q"
  from walk_takes [OF walk] visible_sorted [OF ok] rs show ?thesis
    by (simp add: Let_def handovers_def sorted_wrt_filter)
qed

text \<open>C10: a receive hands over the first messages it may. They are the visible messages of no
  blocked group that the redrive policy has not run out on, in the order they arrived and as many
  as were asked for; each under a receipt of its own, with its body, its attributes and its count
  raised by one. So a FIFO group's messages leave in the order they arrived.\<close>

theorem receive_takes_the_first:
  assumes "reachable world_init (world_step x) w"
    and "bus_receive x now k limit (w_bus w) = (rs, b')"
  shows "let q = queue_of (w_bus w) k;
       mine = filter (\<lambda>s. not_blocked (blocked_groups q) s \<and> exhausted q s = None) (map snd (q_visible q))
     in sorted_wrt (\<lambda>s s'. st_seq s < st_seq s') mine \<and>
        rs = map (\<lambda>(i, s). handed now i (counted s)) (enumerate (bus_next_id (w_bus w)) (take limit mine))"
  by (rule receive_first [OF assms])

theorem receive_takes_the_first_witness:
  "map rc_receipt (fst (bus_receive sample_externals 0 ''q'' 10 (w_bus sample_sent))) = [2]"
proof -
  have "filter (\<lambda>s. not_blocked (blocked_groups (queue_of (w_bus sample_sent) ''q'')) s \<and>
       exhausted (queue_of (w_bus sample_sent) ''q'') s = None) (map snd (q_visible (queue_of (w_bus sample_sent) ''q'')))
     = [\<lparr>st_seq = 1, st_outbound = sample_outbound ''hi'' None, st_receives = 0\<rparr>]" "bus_next_id (w_bus sample_sent) = 2"
    by code_simp+
  with receive_takes_the_first [OF reachable_sent prod.collapse [symmetric], where now = 0 and k = "''q''" and limit = 10]
  show ?thesis by (simp add: Let_def handed_def)
qed

text \<open>What is kept, handed over and spent are different messages.\<close>

lemma walk_distinct:
  assumes "receive_walk ex free limit (q_visible q) = (kept, out, spnt)" and "queue_ok c n q"
  shows "distinct (map (st_seq \<circ> snd) kept @ map st_seq out @ map (st_seq \<circ> snd) spnt)"
proof -
  have eq: "map (st_seq \<circ> snd) (q_visible q) = map fst (q_visible q)" and wf: "btree_wf (q_visible q)"
    using assms(2) by (auto simp: queue_ok_def)
  have dist: "distinct (map (st_seq \<circ> snd) (q_visible q))" unfolding eq by (rule btree_wf_distinct [OF wf])
  have "image_mset st_seq (mset (map snd (q_visible q))) =
      mset (map (st_seq \<circ> snd) kept) + mset (map st_seq out) + mset (map (st_seq \<circ> snd) spnt)"
    unfolding walk_partition [OF assms(1)] by (simp add: multiset.map_comp)
  then have "mset (map (st_seq \<circ> snd) (q_visible q)) =
      mset (map (st_seq \<circ> snd) kept @ map st_seq out @ map (st_seq \<circ> snd) spnt)"
    by (simp add: multiset.map_comp)
  from mset_eq_imp_distinct_iff [OF this] dist show ?thesis by simp
qed

text \<open>Nobody is passed over.\<close>

lemma receive_no_skip:
  assumes "reachable world_init (world_step x) w"
    and "bus_receive x now k limit (w_bus w) = (rs, b')"
    and "(n, s) \<in> set (q_visible (queue_of (w_bus w) k))"
    and "not_blocked (blocked_groups (queue_of (w_bus w) k)) s"
    and "exhausted (queue_of (w_bus w) k) s = None"
  shows "\<exists>out. rs = handovers now (bus_next_id (w_bus w)) out \<and>
    (s \<in> set out \<or> (length out = limit \<and> list_all (\<lambda>s'. st_seq s' < st_seq s) out))"
  using assms(1,2)
proof (rule reachable_walk)
  let ?q = "queue_of (w_bus w) k"
  fix kept out spnt
  assume walk: "receive_walk (exhausted ?q) (not_blocked (blocked_groups ?q)) limit (q_visible ?q) = (kept, out, spnt)"
    and rs: "rs = handovers now (bus_next_id (w_bus w)) out" and ok: "queue_ok (w_now w) (bus_next_id (w_bus w)) ?q"
  have "snd ` set (q_visible ?q) = snd ` set kept \<union> set out \<union> snd ` set spnt"
    using walk_partition [OF walk, THEN arg_cong [where f = set_mset]] by simp
  then have "s \<in> snd ` set kept \<or> s \<in> set out \<or> s \<in> snd ` set spnt" using assms(3) by force
  moreover have "s \<notin> snd ` set spnt" using walk_out [OF walk] assms(5) by auto
  ultimately show ?thesis
    using walk_no_skip [OF walk visible_sorted [OF ok]] assms(4) rs
    by (intro exI [of _ out]) (auto simp: list_all_iff)
qed

text \<open>On a queue without a redrive policy, what \<open>receivable\<close> counts is what a receive hands
  over at that moment, at any limit.\<close>

lemma receivable_counts:
  assumes "reachable world_init (world_step x) w" and "q_redrive (queue_of (w_bus w) k) = None"
  shows "fst (bus_receivable k limit (w_bus w)) = length (fst (bus_receive x now k limit (w_bus w)))"
  using assms(1) prod.collapse [symmetric]
proof (rule reachable_walk)
  let ?q = "queue_of (w_bus w) k"
  fix kept out spnt
  assume walk: "receive_walk (exhausted ?q) (not_blocked (blocked_groups ?q)) limit (q_visible ?q) = (kept, out, spnt)"
    and rs: "fst (bus_receive x now k limit (w_bus w)) = handovers now (bus_next_id (w_bus w)) out"
  have "exhausted ?q = (\<lambda>_. None)" using assms(2) by (simp add: exhausted_def fun_eq_iff)
  with walk_without_redrive [of "not_blocked (blocked_groups ?q)" limit "q_visible ?q" kept out spnt] walk rs
  show ?thesis by (simp add: bus_receivable_def Let_def handovers_def)
qed

lemma receivable_counts_instance:
  "fst (bus_receivable ''q'' 10 (w_bus sample_sent)) =
     length (fst (bus_receive sample_externals 0 ''q'' 10 (w_bus sample_sent)))"
proof (rule receivable_counts [OF reachable_sent])
  show "q_redrive (queue_of (w_bus sample_sent) ''q'') = None" by code_simp
qed

text \<open>On a queue with a redrive policy the count is not that: a message the policy has run out
  on is counted as receivable, and the receive moves it to the dead-letter queue and hands over
  nothing.\<close>

definition sample_spent_queue :: bus_queue where
  "sample_spent_queue = (new_bus_queue False)\<lparr>q_subscriptions := 1,
     q_redrive := Some \<lparr>rt_max = 3, rt_queue = ''dead'', rt_name = ''dead''\<rparr>,
     q_visible := [(1, \<lparr>st_seq = 1, st_outbound = sample_outbound ''hi'' None, st_receives = 3\<rparr>)]\<rparr>"

definition sample_spent :: "(string \<times> bytes) list bus" where
  "sample_spent = put_queue ''dead'' ((new_bus_queue False)\<lparr>q_subscriptions := 1\<rparr>)
     (put_queue ''q'' sample_spent_queue ((new_bus None ''r'')\<lparr>bus_next_id := 2\<rparr>))"

lemma receivable_counts_spent:
  "fst (bus_receivable ''q'' 10 sample_spent) = 1 \<and>
   fst (bus_receive sample_externals 0 ''q'' 10 sample_spent) = [] \<and>
   fst (bus_receivable ''dead'' 10 (snd (bus_receive sample_externals 0 ''q'' 10 sample_spent))) = 1"
  by code_simp

subsection \<open>Spent messages\<close>

lemma redrive_one_queue:
  "queue_of (redrive_one x rd s b) t =
     (if t = rt_queue rd \<and> q_subscriptions (queue_of b t) \<noteq> 0
      then (queue_of b t)\<lparr>q_visible := btree_insert (st_seq s) s (q_visible (queue_of b t)),
             q_notify := q_notify (queue_of b t) + 1\<rparr>
      else queue_of b t)"
  by (simp add: redrive_one_def enqueue_def Let_def queue_of_put)

lemma redrive_spent_other:
  "\<forall>(rd, s) \<in> set spnt. rt_queue rd \<noteq> k \<Longrightarrow> queue_of (redrive_spent x spnt b) k = queue_of b k"
proof (induction x spnt b rule: redrive_spent.induct)
  case (2 x rd s rest b)
  then show ?case by (auto simp: redrive_one_queue)
qed simp

lemma redrive_spent_holds:
  assumes "q_subscriptions (queue_of b t) \<noteq> 0" and "btree_wf (q_visible (queue_of b t))"
    and "distinct (map (st_seq \<circ> snd) spnt)"
    and "(\<exists>rd. (rd, s) \<in> set spnt \<and> rt_queue rd = t) \<or>
         (map_of (q_visible (queue_of b t)) (st_seq s) = Some s \<and> st_seq s \<notin> set (map (st_seq \<circ> snd) spnt))"
  shows "map_of (q_visible (queue_of (redrive_spent x spnt b) t)) (st_seq s) = Some s"
  using assms
proof (induction x spnt b rule: redrive_spent.induct)
  case (2 x rd s' rest b)
  let ?b = "redrive_one x rd s' b"
  have "q_subscriptions (queue_of ?b t) \<noteq> 0" using "2.prems"(1) by (auto simp: redrive_one_queue)
  moreover have "btree_wf (q_visible (queue_of ?b t))"
    using "2.prems"(2) by (auto simp: redrive_one_queue btree_wf_insert)
  moreover have "(\<exists>rd. (rd, s) \<in> set rest \<and> rt_queue rd = t) \<or>
      (map_of (q_visible (queue_of ?b t)) (st_seq s) = Some s \<and> st_seq s \<notin> set (map (st_seq \<circ> snd) rest))"
    using "2.prems" by (auto simp: redrive_one_queue btree_lookup_insert image_iff)
  moreover have "distinct (map (st_seq \<circ> snd) rest)" using "2.prems"(3) by (simp add: comp_def)
  ultimately have "map_of (q_visible (queue_of (redrive_spent x rest ?b) t)) (st_seq s) = Some s"
    using "2.IH" by blast
  then show ?case by simp
qed simp

lemma redrive_spent_log:
  "(rd, s) \<in> set spnt \<or> log_entry x (rt_name rd) (st_outbound s) \<in> set (bus_published (rt_name rd) b) \<Longrightarrow>
     log_entry x (rt_name rd) (st_outbound s) \<in> set (bus_published (rt_name rd) (redrive_spent x spnt b))"
proof (induction x spnt b rule: redrive_spent.induct)
  case (2 x rd' s' rest b)
  have "bus_published nm (redrive_one x rd' s' b) =
      bus_published nm b @ (if nm = rt_name rd' then [log_entry x nm (st_outbound s')] else [])" for nm
    by (simp add: redrive_one_def bus_published_def push_log_def Let_def hash_insert_def update_conv'
        split: option.split)
  with 2 show ?case by auto
qed simp


lemma redrive_spent_unread:
  "q_subscriptions (queue_of b t) = 0 \<Longrightarrow> queue_of (redrive_spent x spnt b) t = queue_of b t"
  by (induction x spnt b rule: redrive_spent.induct) (simp_all add: redrive_one_queue)

text \<open>C23: a spent message leaves for the dead-letter queue. A receive that hands over fewer messages
  than it was asked for takes every visible message the policy has run out on off its queue, unless
  the message's group is held back or the queue is its own dead-letter queue: the message is in the
  log under the dead-letter queue's name, and visible there with its number, its body and its count
  unchanged when a subscription reads the dead-letter queue; when none does, the account drops it.\<close>

theorem spent_goes_to_dead_letter:
  assumes "reachable world_init (world_step x) w"
    and "bus_receive x now k limit (w_bus w) = (rs, b')" and "length rs < limit"
    and "(n, s) \<in> set (q_visible (queue_of (w_bus w) k))"
    and "q_redrive (queue_of (w_bus w) k) = Some rd" and "rt_max rd \<le> st_receives s"
    and "not_blocked (blocked_groups (queue_of (w_bus w) k)) s" and "rt_queue rd \<noteq> k"
  shows "map_of (q_visible (queue_of b' (rt_queue rd))) n =
      (if q_subscriptions (queue_of (w_bus w) (rt_queue rd)) = 0 then None else Some s) \<and>
    map_of (q_visible (queue_of b' k)) n = None \<and>
    log_entry x (rt_name rd) (st_outbound s) \<in> set (bus_published (rt_name rd) b')"
  using assms(1,2)
proof (rule reachable_walk)
  let ?q = "queue_of (w_bus w) k" and ?b = "w_bus w" and ?t = "rt_queue rd"
  fix kept out spnt
  assume walk: "receive_walk (exhausted ?q) (not_blocked (blocked_groups ?q)) limit (q_visible ?q) = (kept, out, spnt)"
    and rs: "rs = handovers now (bus_next_id ?b) out" and ok: "queue_ok (w_now w) (bus_next_id ?b) ?q"
    and b': "b' = redrive_spent x spnt
       ((put_queue k (?q\<lparr>q_visible := kept,
            q_in_flight := q_in_flight ?q @ flights now (bus_next_id ?b) out\<rparr>) ?b)
          \<lparr>bus_next_id := bus_next_id ?b + length out\<rparr>)" (is "_ = redrive_spent x spnt ?b1")
  have ex: "exhausted ?q s = Some rd" using assms(5,6) by (simp add: exhausted_def)
  have seq: "st_seq s = n" using ok assms(4) by (auto simp: queue_ok_def)
  have part: "mset (map snd (q_visible ?q)) = mset (map snd kept) + mset out + mset (map snd spnt)"
    by (rule walk_partition [OF walk])
  have "snd ` set (q_visible ?q) = snd ` set kept \<union> set out \<union> snd ` set spnt"
    using part [THEN arg_cong [where f = set_mset]] by simp
  moreover have "s \<in> snd ` set (q_visible ?q)" using assms(4) by force
  moreover have "s \<notin> set out"
    using walk_out [OF walk, THEN conjunct2, THEN conjunct1] ex by (metis option.distinct(1))
  moreover have "s \<notin> snd ` set kept"
  proof -
    have "length out < limit" using assms(3) by (simp add: rs handovers_def)
    then have "\<forall>e \<in> set kept. \<not> not_blocked (blocked_groups ?q) (snd e)" using walk_out [OF walk] by blast
    with assms(7) show ?thesis by auto
  qed
  ultimately have "s \<in> snd ` set spnt" by blast
  moreover have "\<forall>(rd', s') \<in> set spnt. rd' = rd"
  proof -
    have "\<forall>(rd', s') \<in> set spnt. exhausted ?q s' = Some rd'" using walk_out [OF walk] by blast
    then show ?thesis using assms(5) by (auto simp: exhausted_def split: if_splits)
  qed
  ultimately have in_spent: "(rd, s) \<in> set spnt" and all: "\<forall>(rd', s') \<in> set spnt. rt_queue rd' \<noteq> k"
    using assms(8) by auto
  note d = walk_distinct [OF walk ok]
  have t: "queue_of ?b1 ?t = queue_of ?b ?t" using assms(8) by (simp add: queue_of_put)
  have bus: "bus_ok (w_now w) ?b" by (rule world_okD(1) [OF account.reachable_inv [OF assms(1)]])
  have "map_of (q_visible (queue_of b' ?t)) n = (if q_subscriptions (queue_of ?b ?t) = 0 then None else Some s)"
  proof (cases "q_subscriptions (queue_of ?b ?t) = 0")
    case True
    have "map_of (q_visible ?q) n = Some s" using ok assms(4) by (simp add: queue_ok_def btree_wf_distinct)
    then have "message_at ?b n (VisibleOn k)" by (simp add: message_at_def)
    with one_place_each [OF bus this, of "VisibleOn ?t"] assms(8)
    have "map_of (q_visible (queue_of ?b ?t)) n = None" by (cases "map_of (q_visible (queue_of ?b ?t)) n") (auto simp: message_at_def)
    with True redrive_spent_unread [of ?b1 ?t x spnt] show ?thesis by (simp only: b' t) simp
  next
    case False
    have "queue_ok (w_now w) (bus_next_id ?b) (queue_of ?b ?t)" by (rule bus_okD [OF bus])
    then have "map_of (q_visible (queue_of b' ?t)) (st_seq s) = Some s"
      unfolding b' using False t d in_spent
      by (intro redrive_spent_holds) (auto simp: queue_ok_def)
    with False seq show ?thesis by simp
  qed
  moreover have "map_of (q_visible (queue_of b' k)) n = None"
  proof -
    have "q_visible (queue_of b' k) = kept"
      unfolding b' redrive_spent_other [OF all] by (simp add: queue_of_put)
    moreover have "n \<notin> fst ` set kept"
    proof
      assume "n \<in> fst ` set kept"
      then have "n \<in> set (map (st_seq \<circ> snd) kept)"
        using ok walk_kept [OF walk] by (force simp: queue_ok_def)
      with d in_spent seq show False by force
    qed
    ultimately show ?thesis by (simp add: map_of_eq_None_iff)
  qed
  ultimately show ?thesis
    using redrive_spent_log [of rd s spnt x ?b1] in_spent seq by (simp add: b')
qed


text \<open>A run up to a spent message: a policy of one receive, one receive, the message returned.\<close>

definition spent_subscription :: bus_deliveries where
  "spent_subscription = \<lparr>bd_queue = ''q'', bd_queue_url = ''https://sqs.r.amazonaws.com/000000000000/q'',
     bd_visibility = from_secs 30, bd_redrive_max = Some 3\<rparr>"

definition spent_run :: "nat \<Rightarrow> (string \<times> bytes) list world" where
  "spent_run n = (let w1 = snd (deliveries_open ''dead'' (from_secs 30) None sample_entered);
      w2 = w1\<lparr>w_bus := snd (bus_set_redrive ''q'' 1 ''dead'' (w_bus w1))\<rparr>;
      w3 = w2\<lparr>w_bus := snd (bus_send sample_externals (w_now w2) ''q'' ''q'' (sample_outbound ''hi'' None) (w_bus w2))\<rparr>;
      w4 = snd (receive_take sample_externals 10 spent_subscription w3)
    in if n = 3 then w3 else if n = 4 then w4 else snd (receipt_change_visibility sample_handle 0 w4))"

lemma spent_run_facts:
  "spent_subscription \<in> set (w_open (spent_run 3))" "sample_handle \<in> set (w_held (spent_run 4))"
  "map_option st_receives (map_of (q_visible (queue_of (w_bus (spent_run 5)) ''q'')) 1) = Some 1"
  "map_option group_of (map_of (q_visible (queue_of (w_bus (spent_run 5)) ''q'')) 1) = Some None"
  "q_redrive (queue_of (w_bus (spent_run 5)) ''q'') = Some \<lparr>rt_max = 1, rt_queue = ''dead'', rt_name = ''dead''\<rparr>"
  "q_subscriptions (queue_of (w_bus (spent_run 5)) ''dead'') = 1"
  "length (fst (bus_receive sample_externals 0 ''q'' 10 (w_bus (spent_run 5)))) = 0"
  by code_simp+

lemma reachable_spent_run: "reachable world_init (world_step sample_externals) (spent_run 5)"
proof -
  let ?R = "reachable world_init (world_step sample_externals)"
  let ?w1 = "snd (deliveries_open ''dead'' (from_secs 30) None sample_entered)"
  let ?w2 = "?w1\<lparr>w_bus := snd (bus_set_redrive ''q'' 1 ''dead'' (w_bus ?w1))\<rparr>"
  have "visibility_ok (from_secs 30)" by (simp add: visibility_ok_def duration_defs)
  then have 1: "?R ?w1"
    by (intro reachable.move [OF reachable_entered] world_step.enter [OF _ prod.collapse [symmetric]])
  have 2: "?R ?w2" by (intro reachable.move [OF 1] world_step.policy [OF prod.collapse [symmetric]])
  have 3: "?R (spent_run 3)" unfolding spent_run_def Let_def
    by (simp only: if_True refl) (intro reachable.move [OF 2] world_step.send [OF prod.collapse [symmetric]])
  have "spent_run 4 = snd (receive_take sample_externals 10 spent_subscription (spent_run 3))"
    by (simp add: spent_run_def Let_def)
  then have 4: "?R (spent_run 4)"
    using reachable.move [OF 3 world_step.take [OF spent_run_facts(1) prod.collapse [symmetric]]] by simp
  have "spent_run 5 = snd (receipt_change_visibility sample_handle 0 (spent_run 4))"
    by (simp add: spent_run_def Let_def)
  then show ?thesis
    using reachable.move [OF 4 world_step.changed [OF spent_run_facts(2) prod.collapse [symmetric]]] by simp
qed

theorem spent_goes_to_dead_letter_witness:
  "\<exists>s. map_of (q_visible (queue_of (snd (bus_receive sample_externals 0 ''q'' 10 (w_bus (spent_run 5)))) ''dead'')) 1 = Some s"
proof -
  obtain s where s: "map_of (q_visible (queue_of (w_bus (spent_run 5)) ''q'')) 1 = Some s"
    "st_receives s = 1" "group_of s = None" using spent_run_facts(3,4) by auto
  have "map_of (q_visible (queue_of (snd (bus_receive sample_externals 0 ''q'' 10 (w_bus (spent_run 5)))) ''dead'')) 1 = Some s"
    using spent_goes_to_dead_letter [OF reachable_spent_run prod.collapse [symmetric] _ map_of_SomeD [OF s(1)]
        spent_run_facts(5), of 0 10] s(2,3) spent_run_facts(6,7) by (simp add: not_blocked_def)
  then show ?thesis by blast
qed

end
