(* ===== verification/Life_Cycle.thy ===== *)
theory Life_Cycle
  imports Receive_Properties
begin

section \<open>The life of a message\<close>

text \<open>
  What an account promises about one message, as a small state machine over the places it can be
  in (theory Account\_Properties): it arrives visible and unread, is handed over with its count
  raised, comes back with its count kept, or moves to a dead-letter queue. The account implements
  it: \<open>places\<close> reads the messages off an account, every operation is one lemma on what it does
  to them, and every step of the account (theory Account\_System) is a move of this machine.
\<close>

subsection \<open>The machine\<close>

definition places :: "'h bus \<Rightarrow> (place \<times> stored) set" where
  "places b = {(VisibleOn k, s) | k s. map_of (q_visible (queue_of b k)) (st_seq s) = Some s} \<union>
     {(InFlightOn k r, fl_stored e) | k r e. flight b k r = Some e}"

inductive may_move :: "'h bus \<Rightarrow> place \<times> stored \<Rightarrow> place \<times> stored \<Rightarrow> bool" for b where
  stay: "may_move b a a"
| hand: "exhausted (queue_of b k) s = None \<Longrightarrow> not_blocked (blocked_groups (queue_of b k)) s \<Longrightarrow>
    bus_next_id b \<le> r \<Longrightarrow> st_receives s' = u32_saturating_add (st_receives s) 1 \<Longrightarrow>
    st_seq s' = st_seq s \<Longrightarrow> st_outbound s' = st_outbound s \<Longrightarrow>
    may_move b (VisibleOn k, s) (InFlightOn k r, s')"
| returned: "may_move b (InFlightOn k r, s) (VisibleOn k, s)"
| dead: "exhausted (queue_of b k) s = Some rd \<Longrightarrow> not_blocked (blocked_groups (queue_of b k)) s \<Longrightarrow>
    may_move b (VisibleOn k, s) (VisibleOn (rt_queue rd), s)"

definition fresh_arrival :: "'h bus \<Rightarrow> place \<times> stored \<Rightarrow> bool" where
  "fresh_arrival b a \<longleftrightarrow> bus_next_id b \<le> st_seq (snd a) \<and> st_receives (snd a) = 0 \<and>
     (\<exists>k. fst a = VisibleOn k)"

inductive_cases in_flight_from: "may_move b a (InFlightOn k r, s')"
inductive_cases visible_to: "may_move b (VisibleOn k, s) a'"

lemma may_move_counted:
  assumes "exhausted (queue_of b k) s = None" and "not_blocked (blocked_groups (queue_of b k)) s"
    and "bus_next_id b \<le> r"
  shows "may_move b (VisibleOn k, s) (InFlightOn k r, counted s)"
  by (rule may_move.hand [OF assms]) (simp_all add: counted_def)

text \<open>A message is dropped where it would land on a queue that no subscription reads.\<close>

definition unread :: "'h bus \<Rightarrow> 'h bus \<Rightarrow> place \<times> stored \<Rightarrow> bool" where
  "unread b b' a \<longleftrightarrow> q_subscriptions (queue_of b' (place_key (fst a))) = 0 \<or>
     (\<exists>k rd. fst a = VisibleOn k \<and> exhausted (queue_of b k) (snd a) = Some rd \<and>
        q_subscriptions (queue_of b' (rt_queue rd)) = 0)"

definition evolves :: "'h bus \<Rightarrow> 'h bus \<Rightarrow> bool" where
  "evolves b b' \<longleftrightarrow>
     (\<forall>a' \<in> places b'. (\<exists>a \<in> places b. may_move b a a') \<or> fresh_arrival b a') \<and>
     (\<forall>a \<in> places b. (\<exists>a' \<in> places b'. may_move b a a') \<or> unread b b' a)"

lemma places_iff [simp]:
  "(VisibleOn k, s) \<in> places b \<longleftrightarrow> map_of (q_visible (queue_of b k)) (st_seq s) = Some s"
  "(InFlightOn k r, s) \<in> places b \<longleftrightarrow> (\<exists>e. flight b k r = Some e \<and> s = fl_stored e)"
  by (auto simp: places_def)

lemma places_eqI:
  assumes "\<And>k. map_of (q_visible (queue_of b' k)) = map_of (q_visible (queue_of b k))"
    and "flight b' = flight b"
  shows "places b' = places b"
  using assms by (simp add: places_def)

lemma places_cong: "bus_queues b = bus_queues b' \<Longrightarrow> places b = places b'"
  by (intro places_eqI flight_cong) (simp_all add: queue_of_def)

lemma places_updates [simp]:
  "places (b\<lparr>bus_next_id := n\<rparr>) = places b" "places (b\<lparr>bus_timers := ts\<rparr>) = places b"
  "places (b\<lparr>bus_topics := tp\<rparr>) = places b" "places (b\<lparr>bus_topic_dedup := d\<rparr>) = places b"
  "places (tell c b) = places b" "places (push_log nm en b) = places b"
  "places ((tell c ^^ j) b) = places b" "places (put_queue k (queue_of b k) b) = places b"
  "places (lapse_after now v k r g b) = places b"
  by (rule places_eqI; simp add: put_back_keeps)+

lemma place_message_at: "(p, s) \<in> places b \<Longrightarrow> message_at b (st_seq s) p"
  by (cases p) (auto simp: message_at_def)

lemma place_number: "(p, s) \<in> places b \<Longrightarrow> st_seq s \<in># all_seqs b"
  using message_at_count [OF place_message_at, of p s b] seqs_of_queue [of b "place_key p"]
  by (auto simp flip: count_greater_zero_iff)

lemma places_apart: "st_seq s \<notin># all_seqs b \<Longrightarrow> (p, t) \<in> places b \<Longrightarrow> st_seq t \<noteq> st_seq s"
  using place_number by metis

lemma evolves_same: "places b' = places b \<Longrightarrow> evolves b b'"
  by (auto simp: evolves_def intro: may_move.stay)

subsection \<open>Arrivals\<close>

lemma places_enqueue:
  assumes "st_seq s \<notin># all_seqs b"
  shows "places (enqueue k s b) =
    places b \<union> (if q_subscriptions (queue_of b k) = 0 then {} else {(VisibleOn k, s)})" (is "_ = ?R")
proof (rule set_eqI)
  fix a :: "place \<times> stored"
  obtain p t where a: "a = (p, t)" by (cases a)
  show "a \<in> places (enqueue k s b) \<longleftrightarrow> a \<in> ?R"
    using places_apart [OF assms, of p t] unfolding a
    by (cases p) (auto simp: enqueue_def Let_def queue_of_put btree_lookup_insert flight_put flight_def)
qed

definition arrives :: "'h bus \<Rightarrow> 'h bus \<Rightarrow> bool" where
  "arrives b b' \<longleftrightarrow> bus_next_id b \<le> bus_next_id b' \<and> places b \<subseteq> places b' \<and>
     (\<forall>a \<in> places b'. a \<in> places b \<or> fresh_arrival b a)"

lemma arrives_evolves: "arrives b b' \<Longrightarrow> evolves b b'"
  unfolding arrives_def evolves_def by (meson may_move.stay subsetD)

lemma arrives_refl: "places b' = places b \<Longrightarrow> bus_next_id b' = bus_next_id b \<Longrightarrow> arrives b b'"
  by (simp add: arrives_def)

lemma arrives_trans: "arrives b b' \<Longrightarrow> arrives b' b'' \<Longrightarrow> arrives b b''"
  unfolding arrives_def fresh_arrival_def by (meson order_trans)

lemma deliver_fresh_arrives:
  assumes "bus_ok c b"
  shows "arrives b (deliver_fresh k ob b)"
proof -
  have "count (all_seqs b) (bus_next_id b) \<le> 0"
    using assms unfolding bus_ok_def by (metis less_irrefl)
  then show ?thesis
    by (auto simp: deliver_fresh_def arrives_def fresh_arrival_def places_enqueue not_in_iff)
qed

lemma deliver_arrives:
  assumes "bus_ok c b"
  shows "arrives b (deliver now k ob b)"
proof -
  let ?put = "\<lambda>m. put_queue k ((queue_of b k)\<lparr>q_dedup := m\<rparr>) b"
  have put: "arrives b (?put m)" for m
    by (intro arrives_refl places_eqI) (simp_all add: queue_of_put put_dedup_keeps)
  have "arrives b (deliver_fresh k ob (?put m))" for m
    by (rule arrives_trans [OF put deliver_fresh_arrives [OF put_dedup_keeps(1) [OF assms]]])
  moreover from this [of "q_dedup (queue_of b k)"]
  have "arrives b (deliver_fresh k ob (put_queue k (queue_of b k) b))" by simp
  ultimately show ?thesis
    using put by (simp add: deliver_def Let_def split: option.split prod.split)
qed

lemma push_log_arrives: "arrives b (push_log nm en b)"
  by (rule arrives_refl) simp_all

lemma bus_send_arrives:
  assumes "bus_ok c b"
  shows "arrives b (snd (bus_send x now name key ob b))"
proof -
  have "arrives b (deliver now key ob (push_log nm en b))" for nm en
    by (rule arrives_trans [OF push_log_arrives deliver_arrives]) (use assms in simp)
  then show ?thesis by (simp add: bus_send_def arrives_refl split: sum.split)
qed

lemma fan_out_arrives: "bus_ok c b \<Longrightarrow> arrives b (fan_out x now ob eps b)"
proof (induction x now ob eps b rule: fan_out.induct)
  case (1 x now ob b)
  then show ?case by (simp add: arrives_refl)
next
  case (2 x now ob ep eps b)
  let ?copy = "if is_fifo (ep_queue ep) then ob else ob\<lparr>ob_fifo := None\<rparr>"
  let ?log = "push_log (ep_name ep) (log_entry x (ep_name ep) ?copy) b"
  have ok: "bus_ok c ?log" using "2.prems" by simp
  have step: "arrives b (deliver now (ep_queue ep) ?copy ?log)"
    by (rule arrives_trans [OF push_log_arrives deliver_arrives [OF ok]])
  show ?case
    using arrives_trans [OF step "2.IH" [OF refl keeps_traffic_ok [OF deliver_keeps [OF ok]]]]
    by (simp only: fan_out.simps Let_def)
qed

lemma bus_publish_topic_arrives:
  assumes "bus_ok c b"
  shows "arrives b (snd (bus_publish_topic x now name topic ob b))"
proof -
  let ?log = "push_log name (log_entry x name ob) b"
  have log: "arrives b (?log\<lparr>bus_topic_dedup := d\<rparr>)" for d by (rule arrives_refl) simp_all
  have "arrives b (fan_out x now ob eps ?log)" "arrives b (fan_out x now ob eps (?log\<lparr>bus_topic_dedup := d\<rparr>))" for eps d
    by (rule arrives_trans [OF push_log_arrives fan_out_arrives] arrives_trans [OF log fan_out_arrives];
        use assms in simp)+
  with log push_log_arrives show ?thesis
    by (auto simp: bus_publish_topic_def Let_def arrives_refl split: sum.split option.split prod.split)
qed

subsection \<open>Declarations, subscriptions and settling\<close>

lemma places_put_settings:
  assumes "q_visible q = q_visible (queue_of b k)" and "q_in_flight q = q_in_flight (queue_of b k)"
  shows "places (put_queue k q b) = places b"
  using assms by (intro places_eqI flight_put_same) (simp_all add: queue_of_put)

lemma quiet_places:
  "places (snd (bus_subscribe_topic topic queue name b)) = places b"
  "places (snd (bus_set_redrive key n dl b)) = places b"
  "places (bus_open k b) = places b" "places (snd (bus_receivable k limit b)) = places b"
  by (auto simp: bus_subscribe_topic_def bus_set_redrive_def bus_open_def bus_receivable_def Let_def
      places_put_settings queue_of_put split: sum.split)

lemma evolves_close:
  assumes "bus_ok c b"
  shows "evolves b (bus_close k b)"
proof -
  let ?b = "bus_close k b"
  have fl: "flight ?b = flight b" by (rule bus_close_keeps(3) [OF assms])
  have vis: "q_visible (queue_of ?b k') =
      (if k' = k \<and> q_subscriptions (queue_of b k) \<le> 1 then [] else q_visible (queue_of b k'))"
    and subs: "q_subscriptions (queue_of b k) \<le> 1 \<Longrightarrow> q_subscriptions (queue_of ?b k) = 0" for k'
    by (auto simp: bus_close_def Let_def queue_of_put)
  show ?thesis unfolding evolves_def
  proof (intro conjI ballI)
    fix a assume "a \<in> places ?b"
    then have "a \<in> places b" by (cases a; cases "fst a") (auto simp: vis fl split: if_splits)
    then show "(\<exists>a'\<in>places b. may_move b a' a) \<or> fresh_arrival b a" by (blast intro: may_move.stay)
  next
    fix a assume "a \<in> places b"
    then have "a \<in> places ?b \<or> unread b ?b a"
      using subs by (cases a; cases "fst a") (auto simp: vis fl unread_def place_key_def split: if_splits)
    then show "(\<exists>a'\<in>places ?b. may_move b a a') \<or> unread b ?b a" by (blast intro: may_move.stay)
  qed
qed

lemma places_landed:
  assumes "\<And>k'. map_of (q_visible (queue_of b' k')) = map_of (q_visible (queue_of b k'))"
    and "flight b' = (flight b)(k := (flight b k)(r := None))"
  shows "places b' = {a \<in> places b. fst a \<noteq> InFlightOn k r}"
proof (rule set_eqI)
  fix a :: "place \<times> stored"
  show "a \<in> places b' \<longleftrightarrow> a \<in> {a \<in> places b. fst a \<noteq> InFlightOn k r}"
    by (cases a; cases "fst a") (auto simp: assms)
qed

lemma places_delete:
  assumes "bus_ok c b"
  shows "places (bus_delete k r b) = {a \<in> places b. fst a \<noteq> InFlightOn k r}"
  by (rule places_landed) (auto simp: bus_delete_keeps(3) [OF assms], simp add: bus_delete_def Let_def queue_of_put split: option.split)

lemma places_requeue:
  assumes "bus_ok c b" and "flight b k r = Some e"
  shows "places (requeue k r e b) = {a \<in> places b. fst a \<noteq> InFlightOn k r} \<union>
    (if q_subscriptions (queue_of b k) = 0 then {} else {(VisibleOn k, fl_stored e)})"
proof -
  let ?b = "put_queue k (landed r (queue_of b k)) b"
  have e: "map_of (q_in_flight (queue_of b k)) r = Some e" using assms(2) by (simp add: flight_def)
  have "places ?b = {a \<in> places b. fst a \<noteq> InFlightOn k r}"
    by (rule places_landed) (simp_all add: queue_of_put flight_landed)
  then show ?thesis
    unfolding requeue_eq by (simp add: places_enqueue [OF in_flight_fresh(2) [OF assms(1) e]] queue_of_put)
qed

lemma evolves_requeue:
  assumes "bus_ok c b" and "flight b k r = Some e"
  shows "evolves b (requeue k r e b)"
proof -
  note pl = places_requeue [OF assms]
  have e: "(InFlightOn k r, fl_stored e) \<in> places b" using assms(2) by simp
  show ?thesis unfolding evolves_def
  proof (intro conjI ballI)
    fix a assume "a \<in> places (requeue k r e b)"
    then show "(\<exists>a'\<in>places b. may_move b a' a) \<or> fresh_arrival b a"
      using e may_move.returned [of b k r "fl_stored e"] may_move.stay [of b a]
      unfolding pl by (auto split: if_splits)
  next
    fix a assume a: "a \<in> places b"
    show "(\<exists>a'\<in>places (requeue k r e b). may_move b a a') \<or> unread b (requeue k r e b) a"
    proof (cases "fst a = InFlightOn k r")
      case True
      with a assms(2) have "a = (InFlightOn k r, fl_stored e)" by (cases a) auto
      then show ?thesis
        using may_move.returned [of b k r "fl_stored e"] requeue_keeps(7) [OF assms, of k]
        by (auto simp: pl unread_def place_key_def)
    next
      case False
      with a show ?thesis unfolding pl by (blast intro: may_move.stay)
    qed
  qed
qed

lemma may_move_cong:
  assumes "\<And>k. queue_of b1 k = queue_of b k" and "bus_next_id b1 = bus_next_id b"
  shows "may_move b1 a a' \<longleftrightarrow> may_move b a a'"
  using assms by (auto elim!: may_move.cases intro: may_move.intros)

lemma evolves_cong:
  assumes "\<And>k. queue_of b1 k = queue_of b k" and "bus_next_id b1 = bus_next_id b"
  shows "evolves b1 b' \<longleftrightarrow> evolves b b'"
proof -
  have "places b1 = places b" by (intro places_eqI) (simp_all add: assms(1) flight_def fun_eq_iff)
  then show ?thesis
    unfolding evolves_def fresh_arrival_def unread_def by (simp add: may_move_cong [OF assms] assms)
qed

lemma evolves_requeue_back:
  assumes "bus_ok c b" and "flight b k r = Some e"
  shows "evolves b (requeue k r e (put_queue k (queue_of b k) b))"
  using evolves_requeue [OF put_back_keeps(1) [OF assms(1)], of k k r e] assms(2)
    evolves_cong [of "put_queue k (queue_of b k) b" b] by (simp add: put_back_keeps)

lemma evolves_change_visibility:
  assumes "bus_ok c b"
  shows "evolves b (snd (bus_change_visibility now k r v b))"
proof (cases rule: change_visibility_cases [of v now k r b])
  case (returned e)
  then show ?thesis using evolves_requeue_back [OF assms] by simp
next
  case (armed e)
  let ?b = "put_queue k (queue_of b k) b"
  let ?b' = "put_queue k ((queue_of ?b k)\<lparr>q_in_flight := hash_insert r (rearmed e) (q_in_flight (queue_of ?b k))\<rparr>) ?b"
  have fl: "flight ?b k r = Some e" using armed(2) by (simp add: put_back_keeps)
  have "flight ?b' = (flight b)(k := (flight b k)(r \<mapsto> rearmed e))"
    using put_rearmed_keeps(3) [OF put_back_keeps(1) [OF assms] fl] by (simp add: put_back_keeps)
  then have "a \<in> places ?b' \<longleftrightarrow> a \<in> places b" for a
    using armed(2) by (cases a; cases "fst a") (auto simp: queue_of_put)
  then have "places ?b' = places b" by blast
  then show ?thesis using armed(5) by (simp add: evolves_same put_back_keeps)
qed (simp_all add: evolves_same)

lemma evolves_lapse:
  assumes "bus_ok c b"
  shows "evolves b (lapse k r g b)"
  using evolves_requeue_back [OF assms]
  by (auto simp: lapse_def Let_def flight_def evolves_same split: option.split)

subsection \<open>Receiving\<close>

lemma places_redrive_spent:
  assumes "bus_ok c b" and "distinct (map (st_seq \<circ> snd) sp)"
    and "\<forall>e \<in> set sp. st_seq (snd e) \<notin># all_seqs b \<and> st_seq (snd e) < bus_next_id b"
  shows "places (redrive_spent x sp b) = places b \<union>
    {(VisibleOn (rt_queue rd), s) | rd s. (rd, s) \<in> set sp \<and> q_subscriptions (queue_of b (rt_queue rd)) \<noteq> 0}"
  using assms
proof (induction x sp b rule: redrive_spent.induct)
  case (2 x rd s rest b)
  have s: "st_seq s \<notin># all_seqs b" "st_seq s < bus_next_id b" using "2.prems"(3) by simp_all
  have "places (redrive_one x rd s b) =
      places b \<union> (if q_subscriptions (queue_of b (rt_queue rd)) = 0 then {} else {(VisibleOn (rt_queue rd), s)})"
    using s(1) by (simp add: redrive_one_def places_enqueue)
  with "2.IH" [OF redrive_spent_step [OF "2.prems"]] show ?case
    using redrive_one_keeps(8) [OF "2.prems"(1) s] by (auto split: if_splits)
qed simp

lemma visible_numbered:
  assumes "btree_wf m" and "\<forall>e \<in> set m. st_seq (snd e) = fst e"
  shows "map_of m (st_seq s) = Some s \<longleftrightarrow> s \<in> snd ` set m"
proof
  assume "s \<in> snd ` set m"
  then obtain e where e: "e \<in> set m" "snd e = s" by blast
  with assms(2) have "(st_seq s, s) \<in> set m" by (metis prod.collapse)
  moreover have "distinct (map fst m)" using assms(1) by (auto simp: btree_wf_def strict_sorted_iff)
  ultimately show "map_of m (st_seq s) = Some s" by simp
qed (force dest: map_of_SomeD)

lemma flights_hold:
  "s \<in> set out \<Longrightarrow> \<exists>r e. map_of (flights now nid out) r = Some e \<and> fl_stored e = counted s"
proof (induction out arbitrary: nid)
  case (Cons t out)
  show ?case
  proof (cases "s = t")
    case False
    with Cons obtain r e where re: "map_of (flights now (Suc nid) out) r = Some e" "fl_stored e = counted s"
      by fastforce
    then have "r \<noteq> nid" using flights_entry [OF map_of_SomeD [OF re(1)]] by simp
    with re show ?thesis by (intro exI [of _ r] exI [of _ e]) simp
  qed auto
qed simp

lemma evolves_receive:
  assumes ok: "bus_ok c b" and now: "now \<le> c"
  shows "evolves b (snd (bus_receive x now key limit b))"
proof -
  let ?q = "queue_of b key" and ?nid = "bus_next_id b"
  obtain kept out sp where walk: "receive_walk (exhausted ?q) (not_blocked (blocked_groups ?q)) limit
      (q_visible ?q) = (kept, out, sp)" by (metis prod_cases3)
  note okq = bus_okD [OF ok, of key]
  let ?b1 = "put_queue key (after_receive now ?nid kept out ?q) b"
  let ?b2 = "?b1\<lparr>bus_next_id := ?nid + length out\<rparr>"
  let ?b' = "snd (bus_receive x now key limit b)"
  note mid = receive_middle [OF ok now walk] and after = flight_after_receive [OF okq, where now = now and out = out]
  have b': "?b' = redrive_spent x sp ?b2"
    using bus_receive_walk [OF okq walk, of x now] by (simp add: after_receive_def)
  have subs: "q_subscriptions (queue_of ?b2 k) = q_subscriptions (queue_of b k)"
    "q_subscriptions (queue_of ?b' k) = q_subscriptions (queue_of b k)" for k
    using redrive_spent_keeps [OF mid(1-3), of x] by (simp_all add: b' queue_of_put after_receive_def)
  have pl: "places ?b' = places ?b1 \<union>
      {(VisibleOn (rt_queue rd), s) | rd s. (rd, s) \<in> set sp \<and> q_subscriptions (queue_of b (rt_queue rd)) \<noteq> 0}"
    using places_redrive_spent [OF mid(1-3), of x] subs(1) by (simp add: b')
  have vis: "(VisibleOn key, s) \<in> places b \<longleftrightarrow> s \<in> snd ` set (q_visible ?q)"
    and kept: "map_of kept (st_seq s) = Some s \<longleftrightarrow> s \<in> snd ` set kept" for s
    unfolding places_iff using okq walk_kept [OF walk] by (auto simp: queue_ok_def intro!: visible_numbered)
  have parts: "snd ` set (q_visible ?q) = snd ` set kept \<union> set out \<union> snd ` set sp"
    using walk_partition [OF walk, THEN arg_cong [where f = set_mset]] by simp
  have took: "\<forall>s \<in> set out. not_blocked (blocked_groups ?q) s \<and> exhausted ?q s = None"
    "\<forall>(rd, s) \<in> set sp. not_blocked (blocked_groups ?q) s \<and> exhausted ?q s = Some rd"
    using walk_out [OF walk] by blast+
  have b1: "(VisibleOn k, s) \<in> places ?b1 \<longleftrightarrow>
      (if k = key then s \<in> snd ` set kept else (VisibleOn k, s) \<in> places b)"
    "(InFlightOn k r, s) \<in> places ?b1 \<longleftrightarrow> (InFlightOn k r, s) \<in> places b \<or>
      k = key \<and> (\<exists>e. map_of (flights now ?nid out) r = Some e \<and> s = fl_stored e)" for k r s
    using after by (auto simp: queue_of_put after_receive_def kept map_add_Some_iff)
  show ?thesis unfolding evolves_def
  proof (intro conjI ballI)
    fix a' assume a': "a' \<in> places ?b'"
    have "a' \<in> places b \<or> (\<exists>r s. a' = (InFlightOn key r, counted s) \<and> s \<in> set out \<and> ?nid \<le> r)"
      if "a' \<in> places ?b1"
    proof (cases "fst a'")
      case (VisibleOn k)
      with that parts vis show ?thesis by (cases a'; cases "k = key") (auto simp: b1(1) simp del: places_iff)
    next
      case (InFlightOn k r)
      with that have "a' \<in> places b \<or> k = key \<and> (\<exists>e. map_of (flights now ?nid out) r = Some e \<and> snd a' = fl_stored e)"
        by (cases a') (auto simp: b1(2) simp del: places_iff)
      with InFlightOn show ?thesis by (cases a') (auto dest!: flights_entry [OF map_of_SomeD])
    qed
    with a' consider "a' \<in> places b" | r s where "a' = (InFlightOn key r, counted s)" "s \<in> set out" "?nid \<le> r"
      | rd s where "a' = (VisibleOn (rt_queue rd), s)" "(rd, s) \<in> set sp"
      unfolding pl by blast
    then show "(\<exists>a\<in>places b. may_move b a a') \<or> fresh_arrival b a'"
    proof cases
      case 2
      then have "(VisibleOn key, s) \<in> places b" unfolding vis parts by blast
      with 2 took(1) show ?thesis by (blast intro: may_move_counted)
    next
      case 3
      then have "(VisibleOn key, s) \<in> places b" unfolding vis parts by force
      with 3 took(2) show ?thesis by (blast intro: may_move.dead)
    qed (blast intro: may_move.stay)
  next
    fix a assume a: "a \<in> places b"
    show "(\<exists>a'\<in>places ?b'. may_move b a a') \<or> unread b ?b' a"
    proof (cases "a \<in> places ?b'")
      case False
      then obtain s where s: "a = (VisibleOn key, s)" "s \<in> set out \<or> s \<in> snd ` set sp"
        using a parts vis unfolding pl by (cases a; cases "fst a") (auto simp: b1 simp del: places_iff split: if_splits)
      from s(2) show ?thesis
      proof
        assume "s \<in> set out"
        moreover from flights_hold [OF this] obtain r e where
          re: "map_of (flights now ?nid out) r = Some e" "fl_stored e = counted s" by blast
        moreover from re have "(InFlightOn key r, counted s) \<in> places ?b'" unfolding pl by (auto simp: b1 simp del: places_iff)
        ultimately show ?thesis
          using took(1) flights_entry [OF map_of_SomeD [OF re(1)]] s(1) by (blast intro: may_move_counted)
      next
        assume "s \<in> snd ` set sp"
        then obtain rd where rd: "(rd, s) \<in> set sp" by auto
        with took(2) have "may_move b a (VisibleOn (rt_queue rd), s)" "exhausted ?q s = Some rd"
          using s(1) by (auto intro: may_move.dead)
        with rd s(1) subs(2) show ?thesis unfolding pl unread_def by (auto simp: place_key_def)
      qed
    qed (blast intro: may_move.stay)
  qed
qed

subsection \<open>Every step is a move\<close>

lemma evolves_tell: "evolves b (tell c b') \<longleftrightarrow> evolves b b'"
  by (simp add: evolves_def unread_def)

lemma world_evolves:
  assumes ok: "world_ok w" and step: "world_step x w w'"
  shows "evolves (w_bus w) (w_bus w') \<or>
    (\<exists>h \<in> set (w_held w). receipt_delete h w = (Ok (), w'))"
proof -
  note bus = world_okD(1) [OF ok]
  note change = evolves_change_visibility [OF bus]
  show ?thesis using step
  proof (cases rule: world_step.cases)
    case (send name key ob r b)
    then show ?thesis using arrives_evolves [OF bus_send_arrives [OF bus, of x "w_now w" name key ob]] by simp
  next
    case (publish name topic ob r b)
    then show ?thesis
      using arrives_evolves [OF bus_publish_topic_arrives [OF bus, of x "w_now w" name topic ob]] by simp
  next
    case (subscribe topic queue name r b)
    then show ?thesis using evolves_same [OF quiet_places(1) [of topic queue name "w_bus w"]] by simp
  next
    case (policy key limit dl r b)
    then show ?thesis using evolves_same [OF quiet_places(2) [of key limit dl "w_bus w"]] by simp
  next
    case (enter v key limit d)
    then show ?thesis by (auto simp: deliveries_open_def Let_def evolves_same quiet_places)
  next
    case (leave d)
    then show ?thesis by (simp add: deliveries_drop_def evolves_close [OF bus])
  next
    case (check d limit window t)
    then show ?thesis using evolves_same [OF quiet_places(4) [of "bd_queue d" limit "w_bus w"]]
      by (auto simp: receive_check_def split: prod.splits)
  next
    case (take d limit ms)
    then show ?thesis using evolves_receive [OF bus order_refl, of x "bd_queue d" limit]
      by (auto simp: receive_take_def split: prod.splits)
  next
    case (changed r secs res)
    then show ?thesis
      using change [of "w_now w" "br_queue r" "br_receipt r" "from_secs (nat secs)"]
      by (auto simp: receipt_change_visibility_def evolves_same split: if_splits prod.splits sum.splits)
  next
    case (dropped r)
    then show ?thesis using change
      by (auto simp: receipt_drop_def evolves_tell evolves_same split: if_splits option.splits)
  next
    case (expired i)
    let ?rest = "(w_bus w)\<lparr>bus_timers := take i (bus_timers (w_bus w)) @ drop (Suc i) (bus_timers (w_bus w))\<rparr>"
    have "evolves ?rest (lapse k r g ?rest)" for k r g by (rule evolves_lapse) (use bus in simp)
    then show ?thesis using expired evolves_cong [of ?rest "w_bus w"] by (simp add: fire_timer_def Let_def)
  qed (auto simp: evolves_same receipt_delete_def)
qed

lemma deleted_places:
  assumes "world_ok w" and "receipt_delete h w = (r, w')"
  shows "places (w_bus w') = {a \<in> places (w_bus w). fst a \<noteq> InFlightOn (br_queue h) (br_receipt h)}"
  using assms(2) places_delete [OF world_okD(1) [OF assms(1)]] by (auto simp: receipt_delete_def)

lemma step_moves:
  assumes "reachable world_init (world_step x) w" and "world_step x w w'" and "a' \<in> places (w_bus w')"
  shows "(\<exists>a \<in> places (w_bus w). may_move (w_bus w) a a') \<or> fresh_arrival (w_bus w) a'"
proof -
  note ok = account.reachable_inv [OF assms(1)]
  from world_evolves [OF ok assms(2)] show ?thesis
  proof
    assume "\<exists>h \<in> set (w_held w). receipt_delete h w = (Ok (), w')"
    with deleted_places [OF ok] assms(3) show ?thesis by (blast intro: may_move.stay)
  qed (use assms(3) in \<open>auto simp: evolves_def\<close>)
qed

text \<open>So a queue's redrive policy bounds its receives: what a step puts in flight there was received,
  this time included, no more often than the policy allows.\<close>

lemma handed_within_policy:
  assumes "reachable world_init (world_step x) w" and "world_step x w w'"
    and "(InFlightOn k r, s) \<in> places (w_bus w')" and "flight (w_bus w) k r = None"
    and "q_redrive (queue_of (w_bus w) k) = Some rd"
  shows "st_receives s \<le> rt_max rd"
proof -
  from step_moves [OF assms(1-3)] obtain a where "a \<in> places (w_bus w)" "may_move (w_bus w) a (InFlightOn k r, s)"
    by (auto simp: fresh_arrival_def)
  from this(2,1) show ?thesis
    by (cases rule: in_flight_from)
      (use assms(4,5) in \<open>auto simp: exhausted_def u32_saturating_add_def split: if_splits\<close>)
qed

text \<open>C1: every step of the account is a move of the message state machine. What a message is
  after a step, it was before, or was on its way from: visible and handed over with its count
  raised by one under a receipt never used before, not held back by its group nor spent; in flight
  and back with its count kept; spent and moved to the dead-letter queue. Anything else that is
  there is new, visible and never received, with a number never used before.\<close>

theorem message_life_cycle:
  assumes "reachable world_init (world_step x) w" and "world_step x w w'" and "a' \<in> places (w_bus w')"
  shows "(\<exists>a \<in> places (w_bus w). may_move (w_bus w) a a') \<or> fresh_arrival (w_bus w) a'"
  by (rule step_moves [OF assms])

lemma step_taken: "world_step sample_externals sample_sent sample_taken"
  by (rule world_step.take [where d = sample_subscription and limit = 10])
    (simp add: sample_facts, unfold sample_taken_def, rule prod.collapse [symmetric])

definition sample_stored :: "nat \<Rightarrow> stored" where
  "sample_stored n = \<lparr>st_seq = 1, st_outbound = sample_outbound ''hi'' None, st_receives = n\<rparr>"

lemma sample_places:
  "map_of (q_visible (queue_of (w_bus sample_sent) ''q'')) 1 = Some (sample_stored 0)"
  "flight (w_bus sample_sent) ''q'' 2 = None" "bus_next_id (w_bus sample_sent) = 2"
  "map_option fl_stored (flight (w_bus sample_taken) ''q'' 2) = Some (sample_stored 1)"
  "q_visible (queue_of (w_bus sample_taken) ''q'') = []"
  "q_subscriptions (queue_of (w_bus sample_taken) ''q'') = 1" "q_redrive (queue_of (w_bus sample_sent) ''q'') = None"
  by code_simp+

theorem message_life_cycle_witness:
  "\<exists>s. (VisibleOn ''q'', s) \<in> places (w_bus sample_sent) \<and>
     may_move (w_bus sample_sent) (VisibleOn ''q'', s) (InFlightOn ''q'' 2, sample_stored 1)"
proof -
  have "(InFlightOn ''q'' 2, sample_stored 1) \<in> places (w_bus sample_taken)" using sample_places(4) by auto
  from message_life_cycle [OF reachable_sent step_taken this]
  obtain a where a: "a \<in> places (w_bus sample_sent)" "may_move (w_bus sample_sent) a (InFlightOn ''q'' 2, sample_stored 1)"
    by (auto simp: fresh_arrival_def)
  from a(2) show ?thesis using a sample_places(2) by (cases rule: in_flight_from) auto
qed

text \<open>C2: no message is lost. A message that is somewhere before a step is still there after it, or
  made a move of the state machine, unless the step is its deletion under the receipt it is in
  flight under, or it was to land on a queue that no subscription reads any more.\<close>

theorem no_message_lost:
  assumes "reachable world_init (world_step x) w" and "world_step x w w'" and "a \<in> places (w_bus w)"
  shows "(\<exists>a' \<in> places (w_bus w'). may_move (w_bus w) a a') \<or> unread (w_bus w) (w_bus w') a \<or>
    (\<exists>h \<in> set (w_held w). fst a = InFlightOn (br_queue h) (br_receipt h) \<and> receipt_delete h w = (Ok (), w'))"
proof -
  note ok = account.reachable_inv [OF assms(1)]
  from world_evolves [OF ok assms(2)] show ?thesis
  proof
    assume "\<exists>h \<in> set (w_held w). receipt_delete h w = (Ok (), w')"
    then obtain h where h: "h \<in> set (w_held w)" "receipt_delete h w = (Ok (), w')" by blast
    with deleted_places [OF ok h(2)] assms(3) show ?thesis by (blast intro: may_move.stay)
  qed (use assms(3) in \<open>auto simp: evolves_def\<close>)
qed

theorem no_message_lost_witness:
  "\<exists>a' \<in> places (w_bus sample_taken). may_move (w_bus sample_sent) (VisibleOn ''q'', sample_stored 0) a'"
proof -
  have "(VisibleOn ''q'', sample_stored 0) \<in> places (w_bus sample_sent)"
    using sample_places(1) by (simp add: sample_stored_def)
  from no_message_lost [OF reachable_sent step_taken this] sample_places(6,7) show ?thesis
    by (auto simp: unread_def place_key_def exhausted_def)
qed

end
