(* ===== verification/Life_History.thy ===== *)
theory Life_History
  imports Life_Cycle
begin

section \<open>A message over the life of an account\<close>

text \<open>
  Runs of any length over the moves of theory Life\_Cycle: numbers are handed out once, so what is
  true of the message of a number stays true of it; a deleted message never comes back, and a
  redelivery is the message that was sent.
\<close>

subsection \<open>Numbers are handed out once\<close>

lemma traffic_next_id: "keeps_traffic c b b' \<Longrightarrow> bus_next_id b \<le> bus_next_id b'"
  by (simp add: keeps_traffic_def)

lemma change_next_id:
  assumes "bus_ok c b"
  shows "bus_next_id (snd (bus_change_visibility now k r v b)) = bus_next_id b"
proof (cases rule: change_visibility_cases [of v now k r b])
  case (returned e)
  have "flight (put_queue k (queue_of b k) b) k r = Some e" using returned(2) by (simp add: put_back_keeps)
  from requeue_keeps(5) [OF put_back_keeps(1) [OF assms] this] returned(4) show ?thesis by simp
qed simp_all

lemma step_next_id:
  assumes "world_ok w" and "world_step x w w'"
  shows "bus_next_id (w_bus w) \<le> bus_next_id (w_bus w')"
proof -
  note bus = world_okD(1) [OF assms(1)]
  note traffic = traffic_steps [OF bus, THEN traffic_next_id]
  show ?thesis using assms(2)
  proof (cases rule: world_step.cases)
    case (check d limit window t)
    then show ?thesis using traffic_next_id [OF bus_receivable_keeps [OF bus, of "bd_queue d" limit]]
      by (auto simp: receive_check_def split: prod.splits)
  next
    case (take d limit ms)
    then show ?thesis by (auto simp: receive_take_def bus_receive_keeps(5) [OF bus order_refl] split: prod.splits)
  next
    case (changed r secs res)
    then show ?thesis using change_next_id [OF bus, of "w_now w" "br_queue r" "br_receipt r" "from_secs (nat secs)"]
      by (auto simp: receipt_change_visibility_def split: if_splits prod.splits sum.splits)
  next
    case (dropped r)
    then show ?thesis by (auto simp: receipt_drop_def change_next_id [OF bus] split: if_splits option.splits)
  next
    case (expired i)
    have "bus_ok (w_now w) ((w_bus w)\<lparr>bus_timers := ts\<rparr>)" for ts using bus by simp
    from lapse_keeps(5) [OF this] expired show ?thesis by (simp add: fire_timer_def Let_def)
  qed (auto simp: traffic deliveries_open_def deliveries_drop_def receipt_delete_def Let_def
      bus_open_keeps(5) [OF bus] bus_close_keeps(5) [OF bus] bus_delete_keeps(5) [OF bus])
qed

subsection \<open>One number, one message\<close>

lemma one_step_run: "step w w' \<Longrightarrow> reachable ((=) w) step w'"
  by (rule reachable.move, rule reachable.start) (rule refl)

text \<open>What is true of the message of a number, and is kept by every move, is true of it from then on:
  no other message is given the number.\<close>

lemma number_invariant:
  fixes w :: "'h world"
  assumes "reachable ((=) w) (world_step x) w'" and "reachable world_init (world_step x) w"
    and "n < bus_next_id (w_bus w)" and "\<forall>a \<in> places (w_bus w). st_seq (snd a) = n \<longrightarrow> P (snd a)"
    and moves: "\<And>(b :: 'h bus) a a'. may_move b a a' \<Longrightarrow> P (snd a) \<Longrightarrow> P (snd a')"
  shows "reachable world_init (world_step x) w' \<and> n < bus_next_id (w_bus w') \<and>
    (\<forall>a \<in> places (w_bus w'). st_seq (snd a) = n \<longrightarrow> P (snd a))"
  using assms(1)
proof (induction rule: reachable.induct)
  case (start v)
  with assms(2-4) show ?case by simp
next
  case (move v v')
  have seq: "may_move b a a' \<Longrightarrow> st_seq (snd a') = st_seq (snd a)" for b :: "'h bus" and a a'
    by (auto elim!: may_move.cases simp: counted_def)
  have "n < bus_next_id (w_bus v')"
    using step_next_id [OF account.reachable_inv move.hyps(2)] move.IH by fastforce
  moreover have "P (snd a')" if a': "a' \<in> places (w_bus v')" "st_seq (snd a') = n" for a'
  proof -
    from step_moves [OF _ move.hyps(2) a'(1)] move.IH a'(2) obtain a where
      a: "a \<in> places (w_bus v)" "may_move (w_bus v) a a'" by (auto simp: fresh_arrival_def)
    with seq [OF a(2)] move.IH a'(2) have "P (snd a)" by simp
    then show ?thesis by (rule moves [OF a(2)])
  qed
  moreover have "reachable world_init (world_step x) v'"
    by (rule reachable.move) (use move.IH move.hyps(2) in blast)+
  ultimately show ?case by blast
qed

lemma place_numbered:
  assumes "reachable world_init (world_step x) w" and "a \<in> places (w_bus w)"
  shows "st_seq (snd a) < bus_next_id (w_bus w)"
proof (rule ccontr)
  assume "\<not> st_seq (snd a) < bus_next_id (w_bus w)"
  moreover have "count (all_seqs (w_bus w)) (st_seq (snd a)) \<le> (if st_seq (snd a) < bus_next_id (w_bus w) then 1 else 0)"
    using world_okD(1) [OF account.reachable_inv [OF assms(1)]] unfolding bus_ok_def by blast
  ultimately have "st_seq (snd a) \<notin># all_seqs (w_bus w)" by (simp add: not_in_iff)
  with place_number [of "fst a" "snd a" "w_bus w"] assms(2) show False by simp
qed

lemma place_unique:
  assumes "reachable world_init (world_step x) w" and "a \<in> places (w_bus w)" and "a' \<in> places (w_bus w)"
    and "st_seq (snd a) = st_seq (snd a')"
  shows "a = a'"
proof -
  have "message_at (w_bus w) (st_seq (snd a)) (fst a)" "message_at (w_bus w) (st_seq (snd a)) (fst a')"
    using place_message_at [of "fst a" "snd a"] place_message_at [of "fst a'" "snd a'"] assms(2-4) by simp_all
  from one_place_each [OF world_okD(1) [OF account.reachable_inv [OF assms(1)]] this]
  have "fst a' = fst a" by simp
  with assms(2-4) show ?thesis by (cases a; cases a'; cases "fst a") auto
qed

lemma count_in_range:
  "reachable world_init (world_step x) w \<Longrightarrow> a \<in> places (w_bus w) \<Longrightarrow> st_receives (snd a) \<le> U32_MAX"
proof (induction arbitrary: a rule: reachable.induct)
  case (start w)
  then have "bus_queues (w_bus w) = []"
    by (auto simp: world_init_def new_world_def install_coordinator_def new_bus_def)
  with start.prems show ?case
    by (cases a; cases "fst a") (auto simp: fresh_bus new_bus_queue_def)
next
  case (move w w')
  have kept: "may_move b a' a \<Longrightarrow> st_receives (snd a') \<le> U32_MAX \<Longrightarrow> st_receives (snd a) \<le> U32_MAX"
    for b :: "'a bus" and a'
    by (auto elim!: may_move.cases simp: u32_saturating_add_def)
  from step_moves [OF move.hyps move.prems] move.IH kept show ?case by (auto simp: fresh_arrival_def)
qed

subsection \<open>What never comes back, and what never changes\<close>

text \<open>C3: what was deleted never comes back. Once a handle deleted the message it was received under,
  that message is nowhere in the account again, whatever happens from then on: not handed over, not
  returned by a timer armed before, not moved to a dead-letter queue.\<close>

theorem deleted_never_returns:
  assumes "reachable world_init (world_step x) w" and "h \<in> set (w_held w)"
    and "flight (w_bus w) (br_queue h) (br_receipt h) = Some e" and "receipt_delete h w = (Ok (), w1)"
    and "reachable ((=) w1) (world_step x) w2"
  shows "st_seq (fl_stored e) \<notin> (st_seq \<circ> snd) ` places (w_bus w2)"
proof -
  let ?a = "(InFlightOn (br_queue h) (br_receipt h), fl_stored e)"
  have a: "?a \<in> places (w_bus w)" using assms(3) by simp
  have step: "world_step x w w1" by (rule world_step.deleted [OF assms(2,4)])
  have gone: "\<forall>a \<in> places (w_bus w1). st_seq (snd a) = st_seq (fl_stored e) \<longrightarrow> False"
    using deleted_places [OF account.reachable_inv [OF assms(1)] assms(4)] place_unique [OF assms(1) a] by fastforce
  have "st_seq (fl_stored e) < bus_next_id (w_bus w1)"
    using place_numbered [OF assms(1) a] step_next_id [OF account.reachable_inv [OF assms(1)] step] by simp
  from number_invariant [OF assms(5) reachable.move [OF assms(1) step] this gone] show ?thesis by fastforce
qed

theorem deleted_never_returns_witness:
  "let w1 = snd (receipt_delete sample_handle sample_taken);
       w2 = w1\<lparr>w_bus := snd (bus_send sample_externals (w_now w1) ''q'' ''q'' (sample_outbound ''again'' None) (w_bus w1))\<rparr>
   in 1 \<notin> (st_seq \<circ> snd) ` places (w_bus w2)"
proof -
  let ?w1 = "snd (receipt_delete sample_handle sample_taken)"
  obtain e where e: "flight (w_bus sample_taken) ''q'' 2 = Some e" "fl_stored e = sample_stored 1"
    using sample_places(4) by auto
  have h: "sample_handle \<in> set (w_held sample_taken)" using sample_facts(3) by simp
  have fl: "flight (w_bus sample_taken) (br_queue sample_handle) (br_receipt sample_handle) = Some e"
    using e(1) by (simp add: sample_handle_def)
  have del: "receipt_delete sample_handle sample_taken = (Ok (), ?w1)" by (simp add: receipt_delete_def)
  have "reachable ((=) ?w1) (world_step sample_externals)
      (?w1\<lparr>w_bus := snd (bus_send sample_externals (w_now ?w1) ''q'' ''q'' (sample_outbound ''again'' None) (w_bus ?w1))\<rparr>)"
    by (rule one_step_run [where step = "world_step sample_externals", OF world_step.send [OF prod.collapse [symmetric]]])
  from deleted_never_returns [OF reachable_taken h fl del this] e(2) show ?thesis
    unfolding Let_def sample_stored_def by simp
qed

text \<open>C13: a redelivery is the same message. Between any two moments of an account, the messages with
  one number are one message: its body, its attributes and its FIFO settings are those it arrived
  with, and its receive count has not gone down.\<close>

theorem redelivered_unchanged:
  assumes "reachable world_init (world_step x) w" and "reachable ((=) w) (world_step x) w'"
    and "(p, s) \<in> places (w_bus w)" and "(p', s') \<in> places (w_bus w')" and "st_seq s' = st_seq s"
  shows "st_outbound s' = st_outbound s \<and> st_receives s \<le> st_receives s'"
proof -
  let ?P = "\<lambda>t. st_outbound t = st_outbound s \<and> st_receives s \<le> st_receives t"
  have "may_move b a a' \<Longrightarrow> ?P (snd a) \<Longrightarrow> ?P (snd a')" for b :: "'a bus" and a a'
    using count_in_range [OF assms(1,3)] by (auto elim!: may_move.cases simp: u32_saturating_add_def)
  moreover have "\<forall>a \<in> places (w_bus w). st_seq (snd a) = st_seq s \<longrightarrow> ?P (snd a)"
    using place_unique [OF assms(1,3)] by fastforce
  ultimately show ?thesis
    using number_invariant [OF assms(2,1), of "st_seq s" ?P] place_numbered [OF assms(1,3)] assms(4,5) by fastforce
qed

theorem redelivered_unchanged_witness:
  "st_outbound (sample_stored 1) = st_outbound (sample_stored 0) \<and> st_receives (sample_stored 0) \<le> st_receives (sample_stored 1)"
proof (rule redelivered_unchanged [OF reachable_sent one_step_run [where step = "world_step sample_externals", OF step_taken]])
  show "(VisibleOn ''q'', sample_stored 0) \<in> places (w_bus sample_sent)"
    using sample_places(1) by (simp add: sample_stored_def)
  show "(InFlightOn ''q'' 2, sample_stored 1) \<in> places (w_bus sample_taken)" using sample_places(4) by auto
qed (simp add: sample_stored_def)

end
