(* ===== verification/Arrival_Properties.thy ===== *)
theory Arrival_Properties
  imports Receive_Properties
begin

section \<open>Properties of messages arriving\<close>

text \<open>
  What the deduplication windows drop, seen against a record that forgets nothing; what a
  repeated publish adds (a repeated send: theory Repeats); the copies a topic's publish makes.
\<close>

subsection \<open>The deduplication window\<close>

text \<open>A run of arrivals, each an id with its instant, through the table, and the same run through
  a record of every id's last accepted arrival.\<close>

fun dedup_run :: "(string \<times> instant) list \<Rightarrow> (string \<times> instant) list \<Rightarrow> bool list" where
  "dedup_run [] seen = []"
| "dedup_run ((i, now) # as) seen =
     (let (dup, seen') = seen_within_window now i seen in dup # dedup_run as seen')"

fun dedup_spec :: "(string \<times> instant) list \<Rightarrow> (string \<rightharpoonup> instant) \<Rightarrow> bool list" where
  "dedup_spec [] last_at = []"
| "dedup_spec ((i, now) # as) last_at =
     (let dup = (case last_at i of None \<Rightarrow> False | Some t \<Rightarrow> now - t < DEDUPLICATION_WINDOW)
      in dup # dedup_spec as (if dup then last_at else last_at(i \<mapsto> now)))"

text \<open>The table agrees with the record on everything that can still matter.\<close>

definition table_of :: "instant \<Rightarrow> (string \<rightharpoonup> instant) \<Rightarrow> (string \<times> instant) list \<Rightarrow> bool" where
  "table_of now last_at seen \<longleftrightarrow> hash_wf seen \<and>
     (\<forall>i. case map_of seen i of
            Some t \<Rightarrow> last_at i = Some t
          | None \<Rightarrow> (case last_at i of None \<Rightarrow> True | Some t \<Rightarrow> DEDUPLICATION_WINDOW \<le> now - t))"

lemma map_of_filter_wf:
  "hash_wf m \<Longrightarrow> map_of (filter (\<lambda>e. P (snd e)) m) i =
     (case map_of m i of None \<Rightarrow> None | Some t \<Rightarrow> if P t then Some t else None)"
  unfolding hash_wf_def by (induction m) (auto simp: map_of_eq_None_iff split: option.split)

lemma table_step:
  assumes "table_of clock last_at seen" and "clock \<le> now"
    and "seen_within_window now i seen = (dup, seen')"
  shows "dup = (case last_at i of None \<Rightarrow> False | Some t \<Rightarrow> now - t < DEDUPLICATION_WINDOW)"
    "table_of now (if dup then last_at else last_at(i \<mapsto> now)) seen'"
proof -
  let ?kept = "filter (\<lambda>e. now - snd e < DEDUPLICATION_WINDOW) seen"
  have wf: "hash_wf seen" and agree: "\<And>j. case map_of seen j of Some t \<Rightarrow> last_at j = Some t
      | None \<Rightarrow> (case last_at j of None \<Rightarrow> True | Some t \<Rightarrow> DEDUPLICATION_WINDOW \<le> clock - t)"
    using assms(1) by (auto simp: table_of_def)
  have kept: "map_of ?kept j = (case last_at j of None \<Rightarrow> None
      | Some t \<Rightarrow> if now - t < DEDUPLICATION_WINDOW then Some t else None)" for j
    using agree [of j] assms(2)
    by (auto simp: map_of_filter_wf [OF wf, of "\<lambda>t. now - t < DEDUPLICATION_WINDOW"] split: option.splits)
  from assms(3) have dup: "dup = (map_of ?kept i \<noteq> None)"
    and seen': "seen' = (if dup then ?kept else hash_insert i now ?kept)"
    by (auto simp: seen_within_window_def Let_def split: if_splits)
  show "dup = (case last_at i of None \<Rightarrow> False | Some t \<Rightarrow> now - t < DEDUPLICATION_WINDOW)"
    by (simp add: dup kept split: option.split)
  have wf': "hash_wf ?kept" by (rule hash_wf_filter [OF wf])
  then have "hash_wf seen'" using hm.wf_insert [OF wf', of i now] by (simp add: seen')
  moreover have "case map_of seen' j of
      Some t \<Rightarrow> (if dup then last_at else last_at(i \<mapsto> now)) j = Some t
    | None \<Rightarrow> (case (if dup then last_at else last_at(i \<mapsto> now)) j of None \<Rightarrow> True
               | Some t \<Rightarrow> DEDUPLICATION_WINDOW \<le> now - t)" for j
    using kept [of j] wf' by (auto simp: seen' hm.lookup_insert split: option.splits if_splits)
  ultimately show "table_of now (if dup then last_at else last_at(i \<mapsto> now)) seen'"
    unfolding table_of_def by blast
qed

lemma dedup_run_spec:
  assumes "table_of clock last_at seen" and "sorted (clock # map snd as)"
  shows "dedup_run as seen = dedup_spec as last_at"
  using assms
proof (induction as arbitrary: clock last_at seen)
  case (Cons a as)
  obtain i now where a: "a = (i, now)" by (cases a)
  obtain dup seen' where s: "seen_within_window now i seen = (dup, seen')" by fastforce
  have "clock \<le> now" using Cons.prems(2) by (simp add: a)
  note step = table_step [OF Cons.prems(1) this s]
  have "sorted (now # map snd as)" using Cons.prems(2) by (simp add: a)
  from Cons.IH [OF step(2) this] show ?case by (simp add: a s step(1) Let_def)
qed simp

text \<open>C16: the deduplication table, which forgets every id older than the window on each arrival,
  drops exactly the arrivals a record of all ids would drop: those less than five minutes after the
  last accepted arrival of the same id. A repeat does not restart the window.\<close>

theorem dedup_table_refines:
  assumes "sorted (map snd arrivals)"
  shows "dedup_run arrivals [] = dedup_spec arrivals Map.empty"
  using assms by (intro dedup_run_spec [where clock = 0]) (auto simp: table_of_def hash_wf_def)

theorem dedup_table_refines_witness:
  "dedup_run [(''a'', 0), (''a'', from_secs 200), (''a'', from_secs 300), (''b'', from_secs 301)] [] =
     [False, True, False, False]"
  by (subst dedup_table_refines) code_simp+

subsection \<open>Repeats\<close>

lemma seen_again:
  assumes "seen_within_window t i seen = (dup, seen')" and "t \<le> t'" and "t' - t < DEDUPLICATION_WINDOW"
    and "\<not> dup"
  shows "\<exists>s. seen_within_window t' i seen' = (True, s)"
proof -
  have in_seen: "(i, t) \<in> set seen'"
    using assms(1,4) by (auto simp: seen_within_window_def Let_def hash_insert_def split: if_splits
        intro: map_of_SomeD simp: update_conv')
  have "i \<in> fst ` set (filter (\<lambda>e. t' - snd e < DEDUPLICATION_WINDOW) seen')"
    using in_seen assms(3) by force
  then show ?thesis by (auto simp: seen_within_window_def Let_def map_of_eq_None_iff)
qed


lemma deliver_fields:
  "bus_topic_dedup (deliver now key ob b) = bus_topic_dedup b"
  "bus_topics (deliver now key ob b) = bus_topics b" "bus_log (deliver now key ob b) = bus_log b"
  by (simp_all add: deliver_def deliver_fresh_def enqueue_def Let_def split: option.split prod.split)

lemma deliver_fifo:
  assumes "ob_fifo ob = Some s"
    and "seen_within_window now (fifo_deduplication s) (q_dedup (queue_of b key)) = (dup, seen)"
  shows "q_dedup (queue_of (deliver now key ob b) key) = seen"
    "bus_next_id (deliver now key ob b) = (if dup then bus_next_id b else bus_next_id b + 1)"
    "dup \<Longrightarrow> deliver now key ob b = put_queue key ((queue_of b key)\<lparr>q_dedup := seen\<rparr>) b"
  using assms by (simp_all add: deliver_def deliver_fresh_def enqueue_def Let_def queue_of_put)

lemma bus_send_Ok:
  assumes "bus_send x now name key ob b = (Ok (), b')"
  shows "b' = deliver now key ob (push_log name (log_entry x name ob) b)"
  using assms by (auto simp: bus_send_def split: sum.splits if_splits)

lemma fan_out_fields:
  "bus_topic_dedup (fan_out x now ob eps b) = bus_topic_dedup b"
  "bus_topics (fan_out x now ob eps b) = bus_topics b"
  by (induction x now ob eps b rule: fan_out.induct) (simp_all add: deliver_fields Let_def)


lemma Ok_pair: "fst p = Ok () \<Longrightarrow> p = (Ok (), snd p)"
  by (metis prod.collapse)

definition sample_fifo :: "string \<Rightarrow> outbound" where
  "sample_fifo body = sample_outbound body (Some \<lparr>fifo_group = ''g'', fifo_deduplication = ''id-1''\<rparr>)"

definition fifo_bus :: "(string \<times> bytes) list bus" where
  "fifo_bus = bus_open ''plain'' (bus_open ''q.fifo'' (new_bus None ''r''))"

subsection \<open>Topics\<close>

text \<open>C32: a FIFO topic drops a repeat before the fan-out. A publish the topic took, repeated under
  its deduplication id less than five minutes later, reaches no queue, a standard queue included,
  whose own copy carries no deduplication id to drop it by.\<close>

theorem topic_repeat_reaches_no_queue:
  assumes "bus_publish_topic x t name topic ob b = (Ok (), b1)"
    and "\<not> fst (seen_within_window t (fifo_deduplication s)
           (case map_of (bus_topic_dedup b) topic of None \<Rightarrow> [] | Some m \<Rightarrow> m))"
    and "bus_publish_topic x t' name' topic ob' b1 = (Ok (), b2)"
    and "ob_fifo ob = Some s" and "ob_fifo ob' = Some s'" and "fifo_deduplication s' = fifo_deduplication s"
    and "t \<le> t'" and "t' - t < DEDUPLICATION_WINDOW"
  shows "bus_queues b2 = bus_queues b1 \<and> bus_next_id b2 = bus_next_id b1 \<and>
    bus_coordinator b2 = bus_coordinator b1"
proof -
  obtain seen where first: "seen_within_window t (fifo_deduplication s)
      (case map_of (bus_topic_dedup b) topic of None \<Rightarrow> [] | Some m \<Rightarrow> m) = (False, seen)"
    using assms(2) by (metis (full_types) fst_conv surj_pair)
  have "map_of (bus_topic_dedup b1) topic = Some seen"
    using assms(1,4) first
    by (auto simp: bus_publish_topic_def Let_def fan_out_fields hash_insert_def update_conv'
        split: sum.splits if_splits)
  moreover obtain seen' where "seen_within_window t' (fifo_deduplication s) seen = (True, seen')"
    using seen_again [OF first assms(7,8)] by blast
  ultimately show ?thesis
    using assms(3,5,6) by (auto simp: bus_publish_topic_def Let_def split: sum.splits if_splits)
qed

lemma sample_topic_repeat:
  "fst (bus_publish_topic sample_externals 0 ''t.fifo'' ''t.fifo'' (sample_fifo ''one'')
     (snd (bus_subscribe_topic ''t.fifo'' ''plain'' ''plain'' fifo_bus))) = Ok ()"
  "fst (bus_publish_topic sample_externals (from_secs 10) ''t.fifo'' ''t.fifo'' (sample_fifo ''two'')
     (snd (bus_publish_topic sample_externals 0 ''t.fifo'' ''t.fifo'' (sample_fifo ''one'')
       (snd (bus_subscribe_topic ''t.fifo'' ''plain'' ''plain'' fifo_bus))))) = Ok ()"
  "bus_topic_dedup (snd (bus_subscribe_topic ''t.fifo'' ''plain'' ''plain'' fifo_bus)) = []"
  by code_simp+

theorem topic_repeat_reaches_no_queue_witness:
  "let b = snd (bus_subscribe_topic ''t.fifo'' ''plain'' ''plain'' fifo_bus);
       b1 = snd (bus_publish_topic sample_externals 0 ''t.fifo'' ''t.fifo'' (sample_fifo ''one'') b);
       b2 = snd (bus_publish_topic sample_externals (from_secs 10) ''t.fifo'' ''t.fifo'' (sample_fifo ''two'') b1)
   in bus_queues b2 = bus_queues b1"
proof -
  have "ob_fifo (sample_fifo body) = Some \<lparr>fifo_group = ''g'', fifo_deduplication = ''id-1''\<rparr>" for body
    by (simp add: sample_fifo_def sample_outbound_def)
  moreover have "from_secs 10 - 0 < DEDUPLICATION_WINDOW" by (simp add: DEDUPLICATION_WINDOW_def duration_defs)
  moreover have "\<not> fst (seen_within_window 0 i [])" for i by (simp add: seen_within_window_def)
  ultimately show ?thesis unfolding Let_def
    using topic_repeat_reaches_no_queue [OF Ok_pair [OF sample_topic_repeat(1)] _ Ok_pair [OF sample_topic_repeat(2)]]
    by (simp add: sample_topic_repeat(3))
qed


lemma published_push:
  "bus_published nm (push_log name e b) = bus_published nm b @ (if nm = name then [e] else [])"
  by (simp add: bus_published_def push_log_def Let_def hash_insert_def update_conv' split: option.split)

lemma published_deliver: "bus_published nm (deliver now key ob b) = bus_published nm b"
  by (simp add: bus_published_def deliver_fields)

definition copy_for :: "outbound \<Rightarrow> endpoint \<Rightarrow> outbound" where
  "copy_for ob ep = (if is_fifo (ep_queue ep) then ob else ob\<lparr>ob_fifo := None\<rparr>)"

lemma published_fan_out:
  "bus_published nm (fan_out x now ob eps b) = bus_published nm b @
     map (\<lambda>ep. log_entry x nm (copy_for ob ep)) (filter (\<lambda>ep. ep_name ep = nm) eps)"
  by (induction x now ob eps b rule: fan_out.induct)
    (simp_all add: Let_def published_push published_deliver copy_for_def)


lemma endpoints_of_push [simp]: "endpoints_of (push_log n e b) t = endpoints_of b t"
  "endpoints_of (b\<lparr>bus_topic_dedup := d\<rparr>) t = endpoints_of b t"
  by (simp_all add: endpoints_of_def)

lemma published_topic_dedup [simp]: "bus_published nm (b\<lparr>bus_topic_dedup := d\<rparr>) = bus_published nm b"
  by (simp add: bus_published_def)

text \<open>C33: a publish the topic takes reaches every subscribed queue once. In the log there is one
  new entry under the topic's name, and one per subscription under the queue's, in the order they
  were subscribed: the published message, without its FIFO settings for a standard queue.\<close>

theorem publish_copies_once:
  assumes "bus_publish_topic x now name topic ob b = (Ok (), b')"
    and "case ob_fifo ob of None \<Rightarrow> True | Some s \<Rightarrow> \<not> fst (seen_within_window now (fifo_deduplication s)
           (case map_of (bus_topic_dedup b) topic of None \<Rightarrow> [] | Some m \<Rightarrow> m))"
  shows "bus_published nm b' = bus_published nm b @
     (if nm = name then [log_entry x name ob] else []) @
     map (\<lambda>ep. log_entry x nm (copy_for ob ep)) (filter (\<lambda>ep. ep_name ep = nm) (endpoints_of b topic))"
  using assms
  by (auto simp: bus_publish_topic_def Let_def published_fan_out published_push
      split: sum.splits if_splits option.splits prod.splits)

theorem publish_copies_once_witness:
  "let b = snd (bus_subscribe_topic ''t.fifo'' ''plain'' ''plain'' fifo_bus);
       b1 = snd (bus_publish_topic sample_externals 0 ''t.fifo'' ''t.fifo'' (sample_fifo ''one'') b)
   in length (bus_published ''plain'' b1) = 1"
proof -
  let ?b = "snd (bus_subscribe_topic ''t.fifo'' ''plain'' ''plain'' fifo_bus)"
  have "\<not> fst (seen_within_window 0 i [])" for i by (simp add: seen_within_window_def)
  moreover have "bus_published ''plain'' ?b = []"
    "endpoints_of ?b ''t.fifo'' = [\<lparr>ep_queue = ''plain'', ep_name = ''plain''\<rparr>]" by code_simp+
  ultimately show ?thesis unfolding Let_def
    using publish_copies_once [OF Ok_pair [OF sample_topic_repeat(1)], of "''plain''"] sample_topic_repeat(3)
    by (simp add: sample_fifo_def sample_outbound_def)
qed

end
