(* ===== verification/Repeats.thy ===== *)
theory Repeats
  imports Life_History Arrival_Properties
begin

section \<open>A send repeated\<close>

text \<open>
  What a send repeated under its deduplication id adds, whatever the account went through since the
  first: a FIFO queue remembers the id of a send it took for as long as the window lasts, over every
  step of the account.
\<close>

subsection \<open>What a queue remembers\<close>

definition remembers :: "'h bus \<Rightarrow> string \<Rightarrow> string \<Rightarrow> instant \<Rightarrow> bool" where
  "remembers b k i t \<longleftrightarrow> (i, t) \<in> set (q_dedup (queue_of b k))"

lemma remembers_cong: "q_dedup (queue_of b' k) = q_dedup (queue_of b k) \<Longrightarrow> remembers b' k i t = remembers b k i t"
  by (simp add: remembers_def)

lemma seen_remembers:
  assumes "seen_within_window now j seen = (dup, seen')" and "(i, t) \<in> set seen" and "now - t < DEDUPLICATION_WINDOW"
  shows "(i, t) \<in> set seen'"
proof -
  let ?kept = "filter (\<lambda>e. now - snd e < DEDUPLICATION_WINDOW) seen"
  have kept: "(i, t) \<in> set ?kept" using assms(2,3) by simp
  have stays: "(i, t) \<in> set (hash_insert j now m)" if "(i, t) \<in> set m" "i \<noteq> j" for m :: "(string \<times> instant) list"
    using that by (induction m) (auto simp: hash_insert_def)
  show ?thesis
  proof (cases "map_of ?kept j")
    case None
    with kept have "i \<noteq> j" by (force simp: map_of_eq_None_iff)
    with stays [OF kept] assms(1) None show ?thesis by (auto simp: seen_within_window_def Let_def)
  qed (use kept assms(1) in \<open>auto simp: seen_within_window_def Let_def\<close>)
qed

lemma enqueue_dedup: "q_dedup (queue_of (enqueue key s b) k) = q_dedup (queue_of b k)"
  by (simp add: enqueue_def Let_def queue_of_put)

lemma deliver_remembers:
  assumes "remembers b k i t" and "now - t < DEDUPLICATION_WINDOW"
  shows "remembers (deliver now key ob b) k i t"
proof (cases "ob_fifo ob")
  case None
  with assms(1) show ?thesis
    by (auto simp: remembers_def deliver_def deliver_fresh_def enqueue_dedup Let_def queue_of_put)
next
  case (Some s)
  obtain dup seen where seen: "seen_within_window now (fifo_deduplication s) (q_dedup (queue_of b key)) = (dup, seen)"
    by fastforce
  have "q_dedup (queue_of (deliver now key ob b) k) = (if k = key then seen else q_dedup (queue_of b k))"
    using Some seen by (simp add: deliver_def deliver_fresh_def enqueue_dedup Let_def queue_of_put)
  with assms seen_remembers [OF seen] show ?thesis by (auto simp: remembers_def)
qed

lemma fan_out_remembers:
  "remembers b k i t \<Longrightarrow> now - t < DEDUPLICATION_WINDOW \<Longrightarrow> remembers (fan_out x now ob eps b) k i t"
proof (induction x now ob eps b rule: fan_out.induct)
  case (2 x now ob ep eps b)
  let ?copy = "if is_fifo (ep_queue ep) then ob else ob\<lparr>ob_fifo := None\<rparr>"
  have "remembers (push_log nm en b) k i t" for nm en using "2.prems"(1) by (simp add: remembers_def)
  from deliver_remembers [OF this "2.prems"(2)] "2.prems"(2) "2.IH" [OF refl]
  show ?case by (simp only: fan_out.simps Let_def)
qed simp

lemma sends_remember:
  assumes "remembers b k i t" and "now - t < DEDUPLICATION_WINDOW"
  shows "remembers (snd (bus_send x now name key ob b)) k i t"
    "remembers (snd (bus_publish_topic x now name topic ob b)) k i t"
proof -
  have log: "remembers (push_log nm en b) k i t" for nm en using assms(1) by (simp add: remembers_def)
  then have "remembers ((push_log nm en b)\<lparr>bus_topic_dedup := d\<rparr>) k i t" for nm en d by (simp add: remembers_def)
  note fan = fan_out_remembers [OF this assms(2)] fan_out_remembers [OF log assms(2)]
  show "remembers (snd (bus_send x now name key ob b)) k i t"
    using assms(1) deliver_remembers [OF log assms(2)] by (simp add: bus_send_def split: sum.split)
  show "remembers (snd (bus_publish_topic x now name topic ob b)) k i t"
    using assms(1) log fan
    by (auto simp: bus_publish_topic_def Let_def remembers_def split: sum.split option.split prod.split)
qed

lemma redrive_spent_dedup: "q_dedup (queue_of (redrive_spent x sp b) k) = q_dedup (queue_of b k)"
  by (induction x sp b rule: redrive_spent.induct) (simp_all add: redrive_one_queue)

lemma requeue_dedup: "q_dedup (queue_of (requeue key r e b) k) = q_dedup (queue_of b k)"
  by (simp add: requeue_eq enqueue_dedup queue_of_put landed_def)

lemma receive_loop_dedup: "q_dedup (fst (receive_loop now bl limit q nid rs sp)) = q_dedup q"
  by (induction now bl limit q nid rs sp rule: receive_loop.induct)
    (subst receive_loop.simps, auto simp: fly_def Let_def split: option.split)

lemma queue_dedup:
  "q_dedup (queue_of (snd (bus_subscribe_topic topic queue name b)) k) = q_dedup (queue_of b k)"
  "q_dedup (queue_of (snd (bus_set_redrive key n dl b)) k) = q_dedup (queue_of b k)"
  "q_dedup (queue_of (bus_open key b) k) = q_dedup (queue_of b k)"
  "q_dedup (queue_of (bus_close key b) k) = q_dedup (queue_of b k)"
  "q_dedup (queue_of (snd (bus_receivable key limit b)) k) = q_dedup (queue_of b k)"
  "q_dedup (queue_of (snd (bus_receive x now key limit b)) k) = q_dedup (queue_of b k)"
  "q_dedup (queue_of (bus_delete key r b) k) = q_dedup (queue_of b k)"
  "q_dedup (queue_of (snd (bus_change_visibility now key r v b)) k) = q_dedup (queue_of b k)"
  "q_dedup (queue_of (lapse key r g b) k) = q_dedup (queue_of b k)"
  using receive_loop_dedup [of now "blocked_groups (queue_of b key)" limit "queue_of b key" "bus_next_id b" "[]" "[]"]
  by (auto simp: bus_subscribe_topic_def bus_set_redrive_def bus_open_def bus_close_def bus_receivable_def bus_receive_def
      bus_delete_def bus_change_visibility_def lapse_def lapse_after_def requeue_dedup redrive_spent_dedup Let_def
      queue_of_put split: option.split prod.split sum.split)

lemmas queue_remembers = queue_dedup [THEN remembers_cong]

subsection \<open>Over a run\<close>

lemma step_remembers:
  assumes "world_step x w w'" and "remembers (w_bus w) k i t" and "w_now w - t < DEDUPLICATION_WINDOW"
  shows "remembers (w_bus w') k i t"
  using assms(1)
proof (cases rule: world_step.cases)
  case (send name key ob r b)
  then show ?thesis using sends_remember(1) [OF assms(2,3), of x name key ob] by simp
next
  case (publish name topic ob r b)
  then show ?thesis using sends_remember(2) [OF assms(2,3), of x name topic ob] by simp
next
  case (subscribe topic queue name r b)
  then show ?thesis using assms(2) queue_remembers(1) [of topic queue name "w_bus w" k] by simp
next
  case (policy key limit dl r b)
  then show ?thesis using assms(2) queue_remembers(2) [of key limit dl "w_bus w" k] by simp
next
  case (check d limit window turn)
  then show ?thesis using assms(2) queue_remembers(5) [of "bd_queue d" limit "w_bus w" k]
    by (auto simp: receive_check_def split: prod.splits)
next
  case (take d limit ms)
  then show ?thesis using assms(2) queue_remembers(6) [of x "w_now w" "bd_queue d" limit "w_bus w" k]
    by (auto simp: receive_take_def split: prod.splits)
next
  case (changed r secs res)
  then show ?thesis
    using assms(2) queue_remembers(8) [of "w_now w" "br_queue r" "br_receipt r" "from_secs (nat secs)" "w_bus w" k]
    by (auto simp: receipt_change_visibility_def split: if_splits prod.splits sum.splits)
qed (use assms(2) in \<open>auto simp: deliveries_open_def deliveries_drop_def receipt_delete_def receipt_drop_def
    fire_timer_def Let_def queue_remembers remembers_cong [of "tell c b" k b for c b]
    remembers_cong [of "b\<lparr>bus_timers := ts\<rparr>" k b for b ts] split: if_splits option.splits\<close>)

lemma step_clock: "world_step x w w' \<Longrightarrow> w_now w \<le> w_now w'"
  by (cases rule: world_step.cases)
    (auto simp: deliveries_open_def deliveries_drop_def receipt_delete_def receipt_drop_def receive_check_def
      receive_take_def receipt_change_visibility_def Let_def split: if_splits option.splits prod.splits sum.splits)

lemma run_remembers:
  assumes "reachable ((=) w) (world_step x) w'" and "remembers (w_bus w) k i t" and "w_now w' - t < DEDUPLICATION_WINDOW"
  shows "remembers (w_bus w') k i t"
  using assms(1,3)
proof (induction rule: reachable.induct)
  case (start s)
  then show ?case using assms(2) by simp
next
  case (move s s')
  from step_clock [OF move.hyps(2)] move.prems have "w_now s - t < DEDUPLICATION_WINDOW" by linarith
  from step_remembers [OF move.hyps(2) move.IH [OF this] this] show ?case .
qed

subsection \<open>The repeat\<close>

text \<open>What a send is answered depends on the message and the queue's name alone.\<close>

lemma send_answer: "fst (bus_send x now name key ob b) = fst (bus_send x now' name' key ob b')"
  by (auto simp: bus_send_def split: sum.split)

lemma taken_remembered:
  assumes "bus_send x now name key ob b = (Ok (), b1)" and "bus_next_id b < bus_next_id b1" and "ob_fifo ob = Some s"
  shows "remembers b1 key (fifo_deduplication s) now"
proof -
  let ?log = "push_log name (log_entry x name ob) b"
  have b1: "b1 = deliver now key ob ?log" by (rule bus_send_Ok [OF assms(1)])
  obtain dup seen where first: "seen_within_window now (fifo_deduplication s) (q_dedup (queue_of ?log key)) = (dup, seen)"
    by fastforce
  note d = deliver_fifo [OF assms(3) first]
  have "\<not> dup" using assms(2) d(2) by (simp add: b1 split: if_splits)
  with first have "map_of seen (fifo_deduplication s) = Some now"
    by (auto simp: seen_within_window_def Let_def hash_insert_def update_conv' split: if_splits)
  then show ?thesis using d(1) by (simp add: remembers_def b1 map_of_SomeD)
qed

text \<open>C31: a repeat adds nothing. A send a FIFO queue took as new, repeated under its deduplication id
  less than five minutes later, whatever the account went through in between, is answered as an
  account that never saw the id would answer it: taken when the message is admissible, and then in
  the log. Taken or refused it changes no queue: nothing becomes visible, nothing is in flight, no
  number is used, the harness is told nothing.\<close>

theorem repeat_adds_nothing:
  assumes "bus_send x (w_now w) name key ob (w_bus w) = (Ok (), b1)" and "bus_next_id (w_bus w) < bus_next_id b1"
    and "reachable ((=) (w\<lparr>w_bus := b1\<rparr>)) (world_step x) w'" and "w_now w' - w_now w < DEDUPLICATION_WINDOW"
    and "ob_fifo ob = Some s" and "ob_fifo ob' = Some s'" and "fifo_deduplication s' = fifo_deduplication s"
    and "bus_send x (w_now w') name' key ob' (w_bus w') = (r, b2)"
  shows "r = fst (bus_send x (w_now w') name' key ob' (new_bus endpoint region)) \<and>
    (\<forall>k. q_visible (queue_of b2 k) = q_visible (queue_of (w_bus w') k) \<and>
      q_in_flight (queue_of b2 k) = q_in_flight (queue_of (w_bus w') k)) \<and>
    bus_next_id b2 = bus_next_id (w_bus w') \<and> bus_coordinator b2 = bus_coordinator (w_bus w') \<and>
    bus_published name' b2 = bus_published name' (w_bus w') @ (if r = Ok () then [log_entry x name' ob'] else [])"
proof (intro conjI)
  show "r = fst (bus_send x (w_now w') name' key ob' (new_bus endpoint region))"
    using assms(8) send_answer [of x "w_now w'" name' key ob' "w_bus w'" "w_now w'" name' "new_bus endpoint region"] by simp
  let ?i = "fifo_deduplication s" let ?log = "push_log name' (log_entry x name' ob') (w_bus w')"
  have "remembers (w_bus (w\<lparr>w_bus := b1\<rparr>)) key ?i (w_now w)" using taken_remembered [OF assms(1,2,5)] by simp
  from run_remembers [OF assms(3) this assms(4)] have "remembers ?log key ?i (w_now w)" by (simp add: remembers_def)
  then have "?i \<in> fst ` set (filter (\<lambda>e. w_now w' - snd e < DEDUPLICATION_WINDOW) (q_dedup (queue_of ?log key)))"
    using assms(4) by (force simp: remembers_def)
  then obtain seen where "seen_within_window (w_now w') (fifo_deduplication s') (q_dedup (queue_of ?log key)) = (True, seen)"
    by (auto simp: seen_within_window_def Let_def map_of_eq_None_iff assms(7))
  note repeat = deliver_fifo(3) [OF assms(6) this TrueI]
  have b2: "if r = Ok () then b2 = deliver (w_now w') key ob' ?log else b2 = w_bus w'"
    using assms(8) by (auto simp: bus_send_def split: sum.splits if_splits)
  show "\<forall>k. q_visible (queue_of b2 k) = q_visible (queue_of (w_bus w') k) \<and>
      q_in_flight (queue_of b2 k) = q_in_flight (queue_of (w_bus w') k)"
    "bus_next_id b2 = bus_next_id (w_bus w')" "bus_coordinator b2 = bus_coordinator (w_bus w')"
    "bus_published name' b2 = bus_published name' (w_bus w') @ (if r = Ok () then [log_entry x name' ob'] else [])"
    using b2 unfolding repeat
    by (auto simp: queue_of_put bus_published_def push_log_def Let_def hash_insert_def update_conv' split: if_splits option.split)
qed

text \<open>A send and its repeat, with the clock moved on in between.\<close>

definition first_sent :: "(string \<times> bytes) list bus" where
  "first_sent = snd (bus_send sample_externals 0 ''q.fifo'' ''q.fifo'' (sample_fifo ''one'') fifo_bus)"

theorem repeat_adds_nothing_witness:
  "let run = bus_send sample_externals (from_secs 299) ''q.fifo'' ''q.fifo'' (sample_fifo ''two'') first_sent
   in fst run = Ok () \<and> q_visible (queue_of (snd run) ''q.fifo'') = q_visible (queue_of first_sent ''q.fifo'')"
proof -
  let ?w = "new_world fifo_bus" let ?w' = "?w\<lparr>w_bus := first_sent, w_now := from_secs 299\<rparr>"
  have fifo: "ob_fifo (sample_fifo body) = Some \<lparr>fifo_group = ''g'', fifo_deduplication = ''id-1''\<rparr>" for body
    by (simp add: sample_fifo_def sample_outbound_def)
  have facts: "fst (bus_send sample_externals 0 ''q.fifo'' ''q.fifo'' (sample_fifo ''one'') fifo_bus) = Ok ()"
    "bus_next_id fifo_bus < bus_next_id first_sent"
    "fst (bus_send sample_externals (from_secs 299) ''q.fifo'' ''q.fifo'' (sample_fifo ''two'')
       (new_bus None ''r'' :: (string \<times> bytes) list bus)) = Ok ()"
    by code_simp+
  have first: "bus_send sample_externals (w_now ?w) ''q.fifo'' ''q.fifo'' (sample_fifo ''one'') (w_bus ?w) = (Ok (), first_sent)"
    using Ok_pair [OF facts(1)] by (simp add: first_sent_def new_world_def)
  have "world_step sample_externals (?w\<lparr>w_bus := first_sent\<rparr>) ((?w\<lparr>w_bus := first_sent\<rparr>)\<lparr>w_now := from_secs 299\<rparr>)"
    by (rule world_step.tick) (simp add: new_world_def)
  then have run: "reachable ((=) (?w\<lparr>w_bus := first_sent\<rparr>)) (world_step sample_externals) ?w'"
    by (intro one_step_run [where step = "world_step sample_externals"])
  have new: "bus_next_id (w_bus ?w) < bus_next_id first_sent" using facts(2) by (simp add: new_world_def)
  have "w_now ?w' - w_now ?w < DEDUPLICATION_WINDOW" by (simp add: new_world_def DEDUPLICATION_WINDOW_def duration_defs)
  from repeat_adds_nothing [OF first new run this fifo fifo _ prod.collapse [symmetric], where endpoint = None and region = "''r''"]
    facts(3) show ?thesis by (simp add: Let_def)
qed

end
