(* ===== verification/In_Process.thy ===== *)
theory In_Process
  imports Account_System
begin

section \<open>The in-process transport (in\_process/mod.rs)\<close>

text \<open>
  What the crate does over the in-process account: opening the subscription a descriptor
  describes, subscribing a queue to a topic, framing a message the way a live publish frames
  it, sending and publishing it, and the harness's view (\<open>inject\<close>, \<open>published\<close>,
  \<open>routes\<close>). A send reads the clock, the process id and the process-wide counter behind
  generated deduplication ids; the counter is part of the state passed on.
\<close>

subsection \<open>Subscribing\<close>

definition in_process_subscribe ::
    "sqs_queue \<Rightarrow> 'h world \<Rightarrow> (sqs_error, bus_deliveries) rresult \<times> 'h world" where
  "in_process_subscribe queue w =
     (case queue_key (sq_queue queue) of
        Inl e \<Rightarrow> (Err (QueueError (sq_queue queue) (Refused e)), w)
      | Inr key \<Rightarrow>
          (case redrive_of queue of
             Inl e \<Rightarrow> (Err e, w)
           | Inr rd \<Rightarrow>
               (case (case rd of None \<Rightarrow> (Ok (), w_bus w)
                      | Some r \<Rightarrow> bus_set_redrive key (max_receive_count r) (dead_letter r) (w_bus w)) of
                  (Inl e, b) \<Rightarrow> (Err (QueueError (sq_queue queue) (Refused e)), w\<lparr>w_bus := b\<rparr>)
                | (Inr _, b) \<Rightarrow>
                    (let visibility = (case visibility_value queue of None \<Rightarrow> DEFAULT_VISIBILITY | Some v \<Rightarrow> v);
                         (d, w') = deliveries_open key visibility (map_option max_receive_count rd)
                                     (w\<lparr>w_bus := b\<rparr>)
                     in (Ok d, w')))))"

definition in_process_subscribe_topic ::
    "string \<Rightarrow> string \<Rightarrow> 'h bus \<Rightarrow> (sqs_error, unit) rresult \<times> 'h bus" where
  "in_process_subscribe_topic topic queue b =
     (case topic_key topic of
        Inl e \<Rightarrow> (Err (AdminError topic (Refused e)), b)
      | Inr tkey \<Rightarrow>
          (case queue_key queue of
             Inl e \<Rightarrow> (Err (QueueError queue (Refused e)), b)
           | Inr qkey \<Rightarrow>
               (case bus_subscribe_topic tkey qkey queue b of
                  (Inl e, b') \<Rightarrow> (Err (AdminError topic (Refused e)), b')
                | (Inr u, b') \<Rightarrow> (Ok u, b'))))"

subsection \<open>Sending\<close>

record 'h outgoing =
  og_name :: string
  og_payload :: bytes
  og_headers :: 'h

definition frame ::
    "'h externals \<Rightarrow> nat \<Rightarrow> nat \<Rightarrow> string \<Rightarrow> bool \<Rightarrow> bytes \<Rightarrow> 'h \<Rightarrow> publish_options option
      \<Rightarrow> string option \<Rightarrow> (sqs_error, outbound) rresult \<times> nat" where
  "frame x pid seq destination fifo payload headers options default_group =
     (let (body, marker) = encode_body x payload
      in case encode_attributes x headers marker fifo destination of
           Inl e \<Rightarrow> (Err e, seq)
         | Inr (attributes, partition_key) \<Rightarrow>
             (case fifo_settings pid seq destination fifo options partition_key default_group of
                (Inl e, seq') \<Rightarrow> (Err e, seq')
              | (Inr settings, seq') \<Rightarrow>
                  (Ok \<lparr>ob_body = body, ob_attributes = attributes, ob_fifo = settings\<rparr>, seq')))"

text \<open>\<open>send\<close> and \<open>publish_topic\<close> differ in the key, the refusal of a name and the account's
  call.\<close>

definition in_process_send ::
    "'h externals \<Rightarrow> nat \<Rightarrow> instant \<Rightarrow> 'h outgoing \<Rightarrow> publish_options option \<Rightarrow> string option
      \<Rightarrow> nat \<times> 'h bus \<Rightarrow> (sqs_error, unit) rresult \<times> (nat \<times> 'h bus)" where
  "in_process_send x pid now msg options default_group st =
     (let (seq, b) = st; name = og_name msg
      in case queue_key name of
           Inl e \<Rightarrow> (Err (QueueError name (Refused e)), st)
         | Inr key \<Rightarrow>
             (case frame x pid seq name (is_fifo key) (og_payload msg) (og_headers msg) options default_group of
                (Inl e, seq') \<Rightarrow> (Err e, (seq', b))
              | (Inr ob, seq') \<Rightarrow>
                  (let (r, b') = bus_send x now name key ob b
                   in (map_err (\<lambda>e. PublishError name (Refused e)) r, (seq', b')))))"

definition in_process_publish_topic ::
    "'h externals \<Rightarrow> nat \<Rightarrow> instant \<Rightarrow> 'h outgoing \<Rightarrow> publish_options option \<Rightarrow> string option
      \<Rightarrow> nat \<times> 'h bus \<Rightarrow> (sqs_error, unit) rresult \<times> (nat \<times> 'h bus)" where
  "in_process_publish_topic x pid now msg options default_group st =
     (let (seq, b) = st; name = og_name msg
      in case topic_key name of
           Inl e \<Rightarrow> (Err (AdminError name (Refused e)), st)
         | Inr key \<Rightarrow>
             (case frame x pid seq name (is_fifo key) (og_payload msg) (og_headers msg) options default_group of
                (Inl e, seq') \<Rightarrow> (Err e, (seq', b))
              | (Inr ob, seq') \<Rightarrow>
                  (let (r, b') = bus_publish_topic x now name key ob b
                   in (map_err (\<lambda>e. PublishError name (Refused e)) r, (seq', b')))))"

text \<open>\<open>inject\<close>: the test harness's send, with neither options nor a mount-site group. A
  refusal panics; the model answers the error the panic names.\<close>

definition inject ::
    "'h externals \<Rightarrow> nat \<Rightarrow> instant \<Rightarrow> 'h outgoing \<Rightarrow> nat \<times> 'h bus
      \<Rightarrow> (sqs_error, unit) rresult \<times> (nat \<times> 'h bus)" where
  "inject x pid now msg st = in_process_send x pid now msg None None st"

subsection \<open>Topics the harness counts, and where a publish goes\<close>

definition record_topic_queue :: "string \<Rightarrow> string \<Rightarrow> routing \<Rightarrow> routing" where
  "record_topic_queue topic queue r =
     (case (topic_key topic, queue_key queue) of
        (Inr t, Inr q) \<Rightarrow> routing_subscribe t q r
      | _ \<Rightarrow> r)"

text \<open>\<open>declare_fan_out\<close>: queue by queue, on the account when there is one, stopping at the
  first refusal; what was declared before it stays.\<close>

fun declare_fan_out ::
    "string \<Rightarrow> string list \<Rightarrow> 'h bus option \<times> routing
      \<Rightarrow> (sqs_error, unit) rresult \<times> ('h bus option \<times> routing)" where
  "declare_fan_out topic [] st = (Ok (), st)"
| "declare_fan_out topic (queue # queues) (ob, r) =
     (case ob of
        None \<Rightarrow> declare_fan_out topic queues (None, record_topic_queue topic queue r)
      | Some b \<Rightarrow>
          (case in_process_subscribe_topic topic queue b of
             (Inl e, b') \<Rightarrow> (Err e, (Some b', r))
           | (Inr _, b') \<Rightarrow> declare_fan_out topic queues (Some b', record_topic_queue topic queue r)))"

definition topic_queues :: "string \<Rightarrow> routing \<Rightarrow> string list option" where
  "topic_queues destination r =
     (case topic_key destination of Inl _ \<Rightarrow> None | Inr t \<Rightarrow> fanned_out t r)"

definition named_queue :: "string \<Rightarrow> string list" where
  "named_queue destination = (case queue_key destination of Inl _ \<Rightarrow> [] | Inr k \<Rightarrow> [k])"

definition reached_queues :: "string \<Rightarrow> routing \<Rightarrow> string list \<times> routing" where
  "reached_queues destination r =
     (let (s, r') = next_surface destination r
      in case s of
           Some TopicSurface \<Rightarrow> (case topic_queues destination r' of None \<Rightarrow> [] | Some qs \<Rightarrow> qs, r')
         | Some QueueSurface \<Rightarrow> (named_queue destination, r')
         | None \<Rightarrow> (case topic_queues destination r' of
                      Some qs \<Rightarrow> (qs, r') | None \<Rightarrow> (named_queue destination, r')))"

text \<open>\<open>routes\<close>: the first subscription reading each reached queue, sorted, once each.\<close>

fun position :: "('a \<Rightarrow> bool) \<Rightarrow> 'a list \<Rightarrow> nat option" where
  "position p [] = None"
| "position p (a # as) = (if p a then Some 0 else map_option Suc (position p as))"

definition reads :: "string \<Rightarrow> string \<Rightarrow> bool" where
  "reads queue name = (queue_key name = Ok queue)"

definition routes :: "string \<Rightarrow> string list \<Rightarrow> routing \<Rightarrow> nat list \<times> routing" where
  "routes destination subscriptions r =
     (let (queues, r') = reached_queues destination r
      in (remdups_adj (sort (List.map_filter (\<lambda>q. position (reads q) subscriptions) queues)), r'))"

subsection \<open>Routes\<close>

lemma position_Some:
  "position p xs = Some i \<longleftrightarrow> i < length xs \<and> p (xs ! i) \<and> (\<forall>j < i. \<not> p (xs ! j))"
proof (induction xs arbitrary: i)
  case (Cons a xs)
  show ?case
  proof (cases i)
    case (Suc k)
    have "(\<forall>j < Suc k. \<not> p ((a # xs) ! j)) \<longleftrightarrow> \<not> p a \<and> (\<forall>j < k. \<not> p (xs ! j))"
      by (auto simp: less_Suc_eq_0_disj)
    with Suc Cons.IH [of k] show ?thesis by (auto simp del: all_simps)
  qed simp
qed simp

lemma position_None: "position p xs = None \<longleftrightarrow> (\<forall>a \<in> set xs. \<not> p a)"
  by (induction xs) auto

text \<open>What a framed message is, when it is one.\<close>

lemma frame_Ok:
  assumes "frame x pid seq d fifo payload headers options grp = (Ok ob, seq')"
  obtains body marker attributes key where
    "encode_body x payload = (body, marker)"
    "encode_attributes x headers marker fifo d = Ok (attributes, key)"
    "fifo_settings pid seq d fifo options key grp = (Ok (ob_fifo ob), seq')"
    "ob_body ob = body" "ob_attributes ob = attributes"
  using assms by (auto simp: frame_def split: prod.splits sum.splits)

lemma frame_fifo:
  assumes "frame x pid seq d fifo payload headers options grp = (Ok ob, seq')"
  shows "ob_fifo ob = None \<longleftrightarrow> \<not> fifo"
proof -
  from assms obtain marker attributes key where
    f: "fifo_settings pid seq d fifo options key grp = (Ok (ob_fifo ob), seq')"
    by (rule frame_Ok)
  show ?thesis
  proof (cases fifo)
    case True
    with f fifo_settings_fifo [of pid seq d options key grp] show ?thesis by auto
  next
    case False
    with f show ?thesis by (auto simp: fifo_settings_standard split: if_splits)
  qed
qed

end
