(* ===== verification/Wire_Properties.thy ===== *)
theory Wire_Properties
  imports In_Process Samples
begin

section \<open>Properties of names, settings and the wire format\<close>

text \<open>
  What a message goes through on its way out and back: the mapping of destination names, the
  FIFO ladder and its generated ids, the checks of a message, the framing of payload and headers
  and their reading back, and the durations a descriptor turns into.
\<close>

subsection \<open>Names\<close>

text \<open>C22: a destination is mapped once. The mapped name is a stem over the services' alphabet
  followed by the suffix the logical name had, mapping it again changes nothing, and it is FIFO
  exactly when the logical name ends in the lower-case suffix.\<close>

theorem resource_name_canonical:
  "(\<exists>stem. list_all name_char stem \<and>
      resource_name s = stem @ (if ends_with s FIFO_SUFFIX then FIFO_SUFFIX else [])) \<and>
   resource_name (resource_name s) = resource_name s \<and>
   (is_fifo (resource_name s) \<longleftrightarrow> ends_with s FIFO_SUFFIX)"
proof -
  obtain stem where stem: "list_all name_char stem"
    and name: "resource_name s = stem @ (if ends_with s FIFO_SUFFIX then FIFO_SUFFIX else [])"
    using resource_name_shape by blast
  have "resource_name (resource_name s) = resource_name s"
    unfolding name by (rule resource_name_fixed [OF stem]) simp
  with stem name is_fifo_resource_name show ?thesis by blast
qed

text \<open>A name spelled with the suffix in other than lower case is FIFO to the publishers and
  to queue creation, but is mapped to a standard name: the two tests disagree.\<close>

lemma upper_case_suffix_splits:
  "is_fifo ''orders.FIFO'' \<and> resource_name ''orders.FIFO'' = ''orders-FIFO'' \<and>
   \<not> is_fifo (resource_name ''orders.FIFO'')"
  by code_simp

text \<open>The URL an account hands out for a queue names that queue: the key read back from the
  URL is the key it was made from.\<close>

lemma queue_url_names_its_key:
  assumes "queue_key name = Ok key" and "\<not> is_url name" and "is_url (bus_url_base b)"
  shows "queue_key (bus_url b key) = Ok key"
proof -
  have key: "key = resource_name name" by (rule queue_key_of_name [OF assms(2,1)])
  have "CHR ''/'' \<notin> set key" using resource_name_chars [of "CHR ''/''" name] by (auto simp: key)
  moreover have bounds: "key \<noteq> []" "length key \<le> MAX_QUEUE_NAME" using queue_key_bounds [OF assms(1)] by auto
  ultimately have "last_segment (bus_url b key) = key"
    using last_segment_of_key [of key "bus_url_base b @ ''/'' @ ACCOUNT_ID"]
    by (simp add: bus_url_def queue_url_of_def)
  moreover have "is_url (bus_url b key)"
    using is_url_append [OF assms(3)] by (simp add: bus_url_def queue_url_of_def)
  ultimately show ?thesis using bounds by (simp add: queue_key_def)
qed

lemma queue_url_names_its_key_instance:
  "queue_key (bus_url (new_bus None ''eu-west-1'' :: unit bus) ''order-events'') = Ok ''order-events''"
proof (rule queue_url_names_its_key [of "''order.events''"])
  show "queue_key ''order.events'' = Ok ''order-events''" by code_simp
  show "\<not> is_url ''order.events''" by code_simp
  show "is_url (bus_url_base (new_bus None ''eu-west-1'' :: unit bus))" by code_simp
qed

subsection \<open>Durations\<close>

text \<open>A visibility timeout SQS reports as decimal seconds is read back as exactly that many
  seconds, for every value a \<open>u64\<close> holds.\<close>

lemma visibility_round_trip:
  assumes "n \<le> U64_MAX"
  shows "parse_visibility (Some (show_nat n)) = Ok (from_secs n)"
  using assms by (simp add: parse_visibility_def parse_show)

lemma visibility_round_trip_instance:
  "parse_visibility (Some ''43200'') = Ok (from_secs 43200)"
proof -
  have "43200 \<le> U64_MAX" by (simp add: U64_MAX_def)
  moreover have "show_nat 43200 = ''43200''" by code_simp
  ultimately show ?thesis using visibility_round_trip [of 43200] by simp
qed

text \<open>Rounding a delay up to whole seconds is computed in 64 bits: the longest delay there is rounds
  to nothing, so a retry deferred by it is due at once.\<close>

lemma longest_delay_wraps: "whole_seconds DURATION_MAX = 0 \<and> nack_seconds now received DURATION_MAX = 0"
proof -
  have "whole_seconds DURATION_MAX = 0" by code_simp
  then show ?thesis by (simp add: nack_seconds_def i32_or_max_def)
qed

text \<open>A descriptor that passes its checks asks for whole seconds between one second and
  twelve hours: the visibility it names, rounded up by less than a second, and the integer the
  request carries is that number, unclamped.\<close>

lemma valid_visibility_bounds:
  assumes "validate q = Ok ()" and "sq_visibility q = Some v"
  shows "\<exists>secs. visibility_value q = Some (from_secs secs) \<and> 1 \<le> secs \<and> secs \<le> 43200 \<and>
     v \<le> from_secs secs \<and> from_secs secs < v + from_secs 1 \<and>
     qo_visibility_timeout (channel_body q) = Some secs"
proof -
  from assms have v: "from_secs 1 \<le> v" "v \<le> from_hours 12" by (auto simp: validate_Ok_iff)
  then have "as_secs v \<le> 43200" by (simp add: as_secs_def duration_defs)
  then have "as_secs v < U64_MAX" by (simp add: U64_MAX_def)
  from whole_seconds_covers [OF this] whole_seconds_range [OF v] assms(2) show ?thesis
    by (intro exI [of _ "whole_seconds v"])
      (simp add: visibility_value_def channel_body_def from_secs_def as_secs_def NANOS_def)
qed

lemma valid_visibility_bounds_instance:
  "\<exists>secs. visibility_value (queue_visibility (from_millis 1500) (new_queue ''q'')) = Some (from_secs secs) \<and>
     from_millis 1500 \<le> from_secs secs \<and> from_secs secs < from_millis 1500 + from_secs 1"
  using valid_visibility_bounds [of "queue_visibility (from_millis 1500) (new_queue ''q'')" "from_millis 1500"]
  by (auto simp: validate_def redrive_of_def queue_visibility_def new_queue_def MAX_WAIT_def duration_defs)


subsection \<open>The FIFO ladder\<close>

text \<open>C36: the group of a FIFO send is the first there is of the call's own, the message's
  partition key, the mount site's, and \<open>default\<close>; its deduplication id is the call's or a
  generated one. On a standard destination the partition key decides nothing, and a group or a
  deduplication id of the crate's own is refused by name.\<close>

theorem fifo_group_precedence:
  "(\<exists>s. fst (fifo_settings pid seq d True options key mount) = Ok (Some s) \<and>
     fifo_group s = hd (List.map_filter id [Option.bind options group_id, key, mount] @ [''default'']) \<and>
     fifo_deduplication s =
       hd (List.map_filter id [Option.bind options deduplication_id] @ [dedup_id pid seq])) \<and>
   fifo_settings pid seq d False options key mount = fifo_settings pid seq d False options None mount \<and>
   fst (fifo_settings pid seq d False options key mount) =
     (case List.map_filter id [map_option (\<lambda>_. ''a message group id'') (Option.bind options group_id),
          map_option (\<lambda>_. ''a message group id'') mount,
          map_option (\<lambda>_. ''a deduplication id'') (Option.bind options deduplication_id)] of
        [] \<Rightarrow> Ok None | setting # _ \<Rightarrow> Err (NotFifo d setting))"
proof (intro conjI)
  obtain s where "fst (fifo_settings pid seq d True options key mount) = Ok (Some s)"
    "fifo_group s = (case or_else (or_else (Option.bind options group_id) key) mount of
        None \<Rightarrow> ''default'' | Some g \<Rightarrow> g)"
    "fifo_deduplication s = (case Option.bind options deduplication_id of
        None \<Rightarrow> dedup_id pid seq | Some i \<Rightarrow> i)"
    using fifo_settings_fifo [of pid seq d options key mount] by auto
  then show "\<exists>s. fst (fifo_settings pid seq d True options key mount) = Ok (Some s) \<and>
     fifo_group s = hd (List.map_filter id [Option.bind options group_id, key, mount] @ [''default'']) \<and>
     fifo_deduplication s =
       hd (List.map_filter id [Option.bind options deduplication_id] @ [dedup_id pid seq])"
    by (intro exI [of _ s]) (auto simp: List.map_filter_def split: option.splits)
qed (auto simp: fifo_settings_standard List.map_filter_def split: option.splits)

text \<open>Ids generated by two sends of one process differ, whatever was sent in between, so two
  legitimate messages are never taken for repeats of one another.\<close>

lemma generated_ids_distinct:
  assumes "fifo_settings pid m d True options key mount = (Ok (Some s), m')"
    and "fifo_settings pid n d' True options' key' mount' = (Ok (Some s'), n')"
    and "Option.bind options deduplication_id = None" "Option.bind options' deduplication_id = None"
    and "m' \<le> n"
  shows "fifo_deduplication s \<noteq> fifo_deduplication s'"
  using assms fifo_settings_fifo [of pid m d options key mount]
    fifo_settings_fifo [of pid n d' options' key' mount'] by (auto simp: dedup_id_inject)

lemma generated_ids_distinct_instance:
  "fifo_deduplication \<lparr>fifo_group = ''default'', fifo_deduplication = ''rs-7-0''\<rparr> \<noteq>
   fifo_deduplication \<lparr>fifo_group = ''a'', fifo_deduplication = ''rs-7-1''\<rparr>"
proof (rule generated_ids_distinct)
  show "fifo_settings 7 0 ''q.fifo'' True None None None =
    (Ok (Some \<lparr>fifo_group = ''default'', fifo_deduplication = ''rs-7-0''\<rparr>), 1)" by code_simp
  show "fifo_settings 7 1 ''q.fifo'' True None (Some ''a'') None =
    (Ok (Some \<lparr>fifo_group = ''a'', fifo_deduplication = ''rs-7-1''\<rparr>), 2)" by code_simp
qed simp_all

subsection \<open>Framing\<close>

text \<open>C35: which headers can travel. A message's headers become attributes exactly when none is
  named like the payload marker and, the marker included and a FIFO destination's partition key
  left out, there are at most ten.\<close>

theorem headers_that_travel:
  assumes "externals_ok x"
  shows "(\<exists>a. encode_attributes x h marker fifo d = Ok a) \<longleftrightarrow>
    hm_get x h ENCODING_ATTRIBUTE = None \<and>
    length (filter (\<lambda>n. \<not> (fifo \<and> n = PARTITION_KEY_HEADER)) (map fst (hm_iter x h)))
      + of_bool marker \<le> 10"
proof -
  have hm: "header_map_ok x" and bld: "builder_ok x" using assms by (auto simp: externals_ok_def)
  show ?thesis
    unfolding encode_attributes_eq [OF bld iter_distinct [OF hm]] get_iter [OF hm]
    by (auto simp: map_of_eq_None_iff attribute_names_def MAX_ATTRIBUTES_def)
qed

theorem headers_that_travel_witness:
  "(\<exists>a. encode_attributes sample_externals [(''trace'', ''1'')] True False ''q'' = Ok a) \<and>
   \<not> (\<exists>a. encode_attributes sample_externals [(ENCODING_ATTRIBUTE, ''base64'')] False False ''q'' = Ok a)"
  unfolding headers_that_travel [OF sample_externals_ok] by code_simp

text \<open>The account never refuses a framed message for its body: every body the crate frames is
  text the services carry, whatever bytes the payload holds.\<close>

lemma framed_body_is_service_text:
  assumes "externals_ok x"
    and "frame x pid seq d fifo payload headers options grp = (Ok ob, seq')"
  shows "is_service_text (ob_body ob) \<and> check_message ob limit \<noteq> Err BodyNotText"
proof -
  have "is_service_text (ob_body ob)"
    using assms encode_body_service_text [of x payload]
    by (auto elim!: frame_Ok simp: externals_ok_def)
  moreover have "check_attributes as n \<noteq> Err BodyNotText" for as n
    by (induction as n rule: check_attributes.induct)
      (auto simp: check_attribute_name_def Let_def split: sum.splits if_splits)
  ultimately show ?thesis by (auto simp: check_message_def split: sum.splits)
qed

text \<open>What a framed message is read back as, under whichever FIFO settings it arrives: those it was
  framed with, or none on a standard queue behind a FIFO topic.\<close>

lemma frame_decodes_as:
  assumes "externals_ok x"
    and "frame x pid seq d fifo payload headers options grp = (Ok ob, seq')"
    and "decode_message x (wire_message (ob\<lparr>ob_fifo := settings\<rparr>) receipt receives) = (payload', headers')"
    and "settings \<noteq> None \<Longrightarrow> fifo"
  shows "payload' = payload \<and>
    (\<forall>n. hm_get x headers' n =
      (if n = RECEIVE_COUNT_HEADER \<and> receives \<noteq> None then map_option show_nat receives
       else if n = PARTITION_KEY_HEADER \<and> fifo then map_option fifo_group settings
       else hm_get x headers n))"
proof -
  from assms(2) obtain body marker attributes key where f:
    "encode_body x payload = (body, marker)"
    "encode_attributes x headers marker fifo d = Ok (attributes, key)"
    "ob_body ob = body" "ob_attributes ob = attributes" by (rule frame_Ok)
  have hm: "header_map_ok x" and b64: "base64_ok x" using assms(1) by (auto simp: externals_ok_def)
  obtain h' where h': "decode_attributes x attributes (hm_new x) False = (h', marker)"
    "\<And>n. hm_get x h' n = (if fifo \<and> n = PARTITION_KEY_HEADER then None else hm_get x headers n)"
    using decode_encoded_attributes [OF assms(1) f(2)] by blast
  have none: "attributes = [] \<Longrightarrow> (h', marker) = (hm_new x, False)" using h'(1) by simp
  have "payload' = payload"
    using assms(3) decode_encoded_body [OF b64 f(1)] h'(1) none f(3,4)
    by (auto simp: decode_message_def wire_message_def Let_def split: if_splits)
  moreover have "hm_get x headers' n =
      (if n = RECEIVE_COUNT_HEADER \<and> receives \<noteq> None then map_option show_nat receives
       else if n = PARTITION_KEY_HEADER \<and> fifo then map_option fifo_group settings
       else hm_get x headers n)" for n
    using assms(3,4) h' none f(4)
    by (cases receives; cases settings)
      (auto simp: decode_message_def wire_message_def decode_system_def Let_def get_insert [OF hm]
        split: if_splits)
  ultimately show ?thesis by blast
qed

lemma frame_decodes:
  assumes "externals_ok x"
    and "frame x pid seq d fifo payload headers options grp = (Ok ob, seq')"
    and "decode_message x (wire_message ob receipt receives) = (payload', headers')"
  shows "payload' = payload \<and>
    (\<forall>n. hm_get x headers' n =
      (if n = RECEIVE_COUNT_HEADER \<and> receives \<noteq> None then map_option show_nat receives
       else if n = PARTITION_KEY_HEADER \<and> fifo then map_option fifo_group (ob_fifo ob)
       else hm_get x headers n))"
  by (rule frame_decodes_as [OF assms(1,2)]) (use assms(3) frame_fifo [OF assms(2)] in auto)

text \<open>C6: what was published is what is received. Payload and headers of a framed message, read
  off the message the queue returns, are the ones published: the payload byte for byte, every
  header with its value, a FIFO destination's group as the partition key, and the receive count
  as the header the crate adds.\<close>

theorem wire_round_trip:
  assumes "externals_ok x"
    and "frame x pid seq d fifo payload headers options grp = (Ok ob, seq')"
    and "decode_message x (wire_message ob receipt receives) = (payload', headers')"
  shows "payload' = payload \<and>
    (\<forall>n. hm_get x headers' n =
      (if n = RECEIVE_COUNT_HEADER \<and> receives \<noteq> None then map_option show_nat receives
       else if n = PARTITION_KEY_HEADER \<and> fifo then map_option fifo_group (ob_fifo ob)
       else hm_get x headers n))"
  by (rule frame_decodes [OF assms])

definition sample_framed :: outbound where
  "sample_framed = \<lparr>ob_body = ''aGkA'', ob_attributes =
      [(''trace'', \<lparr>data_type = ''String'', string_value = Some ''1'', binary_value = None\<rparr>),
       (ENCODING_ATTRIBUTE, \<lparr>data_type = ''String'', string_value = Some ''base64'', binary_value = None\<rparr>)],
      ob_fifo = Some \<lparr>fifo_group = ''g'', fifo_deduplication = ''rs-7-0''\<rparr>\<rparr>"

lemma sample_frame:
  "frame sample_externals 7 0 ''q.fifo'' True [CHR ''h'', CHR ''i'', CHR 0x00] [(''trace'', ''1''), (''partition-key'', ''g'')] None None
     = (Ok sample_framed, 1)"
  by code_simp


lemma framed_body_is_service_text_instance:
  "is_service_text (ob_body sample_framed) \<and> check_message sample_framed 100 \<noteq> Err BodyNotText"
  by (rule framed_body_is_service_text [OF sample_externals_ok sample_frame])

theorem wire_round_trip_witness:
  "fst (decode_message sample_externals (wire_message sample_framed (Some 4) (Some 2))) =
     [CHR ''h'', CHR ''i'', CHR 0x00] \<and>
   hm_get sample_externals
     (snd (decode_message sample_externals (wire_message sample_framed (Some 4) (Some 2)))) ''trace'' = Some ''1''"
proof -
  have "''trace'' \<noteq> RECEIVE_COUNT_HEADER" "''trace'' \<noteq> PARTITION_KEY_HEADER"
    "hm_get sample_externals [(''trace'', ''1''), (''partition-key'', ''g'')] ''trace'' = Some ''1''"
    by code_simp+
  with wire_round_trip [OF sample_externals_ok sample_frame prod.collapse [symmetric], of "Some 4" "Some 2"]
  show ?thesis by simp
qed

subsection \<open>What a message must be\<close>

definition attribute_ok :: "string \<times> message_attribute \<Rightarrow> bool" where
  "attribute_ok e \<longleftrightarrow> check_attribute_name (fst e) = Ok () \<and> value_len (snd e) \<noteq> 0"

definition attribute_size :: "string \<times> message_attribute \<Rightarrow> nat" where
  "attribute_size e = length (fst e) + length (data_type (snd e)) + value_len (snd e)"

lemma check_attributes_eq:
  "(check_attributes as acc = Ok n) \<longleftrightarrow> list_all attribute_ok as \<and> n = acc + sum_list (map attribute_size as)"
proof (induction as arbitrary: acc)
  case (Cons e as)
  obtain name a where e: "e = (name, a)" by (cases e)
  show ?case
    by (cases "check_attribute_name name")
      (auto simp: e Cons.IH attribute_ok_def attribute_size_def)
qed auto

lemma check_message_Ok:
  "check_message ob limit = Ok () \<longleftrightarrow>
     ob_body ob \<noteq> [] \<and> is_service_text (ob_body ob) \<and>
     list_all attribute_ok (ob_attributes ob) \<and>
     length (ob_body ob) + sum_list (map attribute_size (ob_attributes ob)) \<le> limit"
proof (cases "check_attributes (ob_attributes ob) (length (ob_body ob))")
  case (Inl e)
  then have "\<not> list_all attribute_ok (ob_attributes ob)"
    using check_attributes_eq [of "ob_attributes ob" "length (ob_body ob)"] by auto
  with Inl show ?thesis by (simp add: check_message_def)
next
  case (Inr n)
  with check_attributes_eq [of "ob_attributes ob" "length (ob_body ob)" n] show ?thesis
    by (auto simp: check_message_def not_less)
qed

text \<open>Whether a message is taken does not depend on the order its attributes are met in, which
  a hash map leaves open: two messages with the same body and the same attributes in any order are
  both taken or both refused, at any limit.\<close>

lemma acceptance_ignores_attribute_order:
  assumes "ob_body ob = ob_body ob'" and "mset (ob_attributes ob) = mset (ob_attributes ob')"
  shows "check_message ob limit = Ok () \<longleftrightarrow> check_message ob' limit = Ok ()"
proof -
  have "set (ob_attributes ob) = set (ob_attributes ob')" by (rule mset_eq_setD [OF assms(2)])
  moreover have "sum_list (map attribute_size (ob_attributes ob)) = sum_list (map attribute_size (ob_attributes ob'))"
    using assms(2) by (metis mset_map sum_mset_sum_list)
  ultimately show ?thesis unfolding check_message_Ok assms(1) list_all_iff by simp
qed

lemma acceptance_ignores_attribute_order_instance:
  "check_message sample_framed 90 = Ok () \<longleftrightarrow>
   check_message (sample_framed\<lparr>ob_attributes := rev (ob_attributes sample_framed)\<rparr>) 90 = Ok ()"
  by (rule acceptance_ignores_attribute_order) simp_all

end
