(* ===== verification/Aws.thy ===== *)
theory Aws
  imports Queue_Descriptor
begin

section \<open>Resolving names against the services (broker.rs, \<open>impl Aws\<close>)\<close>

text \<open>
  The live transport's name resolution: queue URLs and topic ARNs through their caches, a
  queue's ARN and visibility timeout, creating a missing queue, writing a redrive policy. The
  services are outside the repository, so the SDK calls are a parameter, the record
  \<open>aws_api\<close>, over a service world \<open>'w\<close>: each answers a failure (its text) or what the crate
  reads of the response. The caches are guarded by a lock held across the lookup and the call,
  so each resolution is one state transformer.
\<close>

subsection \<open>The SDK calls\<close>

record 'w aws_api =
  api_get_queue_url :: "string \<Rightarrow> 'w \<Rightarrow> (string, string option) rresult \<times> 'w"
  api_create_queue :: "string \<Rightarrow> (string \<times> string) list \<Rightarrow> 'w \<Rightarrow> (string, string option) rresult \<times> 'w"
  api_get_attribute :: "string \<Rightarrow> string \<Rightarrow> 'w \<Rightarrow> (string, string option) rresult \<times> 'w"
  api_set_attribute :: "string \<Rightarrow> string \<Rightarrow> string \<Rightarrow> 'w \<Rightarrow> (string, unit) rresult \<times> 'w"
  api_create_topic :: "string \<Rightarrow> (string \<times> string) list \<Rightarrow> 'w \<Rightarrow> (string, string option) rresult \<times> 'w"
  api_subscribe :: "string \<Rightarrow> string \<Rightarrow> string \<Rightarrow> (string \<times> string) list \<Rightarrow> 'w \<Rightarrow> (string, unit) rresult \<times> 'w"

record 'w aws =
  aws_endpoint :: "string option"
  aws_queue_urls :: "(string \<times> string) list"
  aws_topic_arns :: "(string \<times> string) list"
  aws_world :: 'w

subsection \<open>Resolutions\<close>

definition queue_url ::
    "'w aws_api \<Rightarrow> string \<Rightarrow> 'w aws \<Rightarrow> (sqs_error, string) rresult \<times> 'w aws" where
  "queue_url api queue a =
     (if is_url queue then (Ok queue, a)
      else case map_of (aws_queue_urls a) queue of
             Some url \<Rightarrow> (Ok url, a)
           | None \<Rightarrow>
               (let (answer, w) = api_get_queue_url api (resource_name queue) (aws_world a);
                    a1 = a\<lparr>aws_world := w\<rparr>
                in case answer of
                     Inl e \<Rightarrow> (Err (QueueError queue (SdkFailure e)), a1)
                   | Inr None \<Rightarrow> (Err (QueueError queue (Reason ''GetQueueUrl returned no URL'')), a1)
                   | Inr (Some raw) \<Rightarrow>
                       (let url = rebase_url (aws_endpoint a) raw
                        in (Ok url, a1\<lparr>aws_queue_urls := hash_insert queue url (aws_queue_urls a)\<rparr>))))"

definition topic_arn ::
    "'w aws_api \<Rightarrow> string \<Rightarrow> 'w aws \<Rightarrow> (sqs_error, string) rresult \<times> 'w aws" where
  "topic_arn api topic a =
     (if starts_with topic ''arn:'' then (Ok topic, a)
      else case map_of (aws_topic_arns a) topic of
             Some arn \<Rightarrow> (Ok arn, a)
           | None \<Rightarrow>
               (let name = resource_name topic;
                    (answer, w) = api_create_topic api name
                      (if is_fifo name then [(''FifoTopic'', ''true'')] else []) (aws_world a);
                    a1 = a\<lparr>aws_world := w\<rparr>
                in case answer of
                     Inl e \<Rightarrow> (Err (AdminError topic (SdkFailure e)), a1)
                   | Inr None \<Rightarrow> (Err (AdminError topic (Reason ''CreateTopic returned no ARN'')), a1)
                   | Inr (Some arn) \<Rightarrow>
                       (Ok arn, a1\<lparr>aws_topic_arns := hash_insert topic arn (aws_topic_arns a)\<rparr>)))"

definition queue_arn ::
    "'w aws_api \<Rightarrow> string \<Rightarrow> string \<Rightarrow> 'w aws \<Rightarrow> (sqs_error, string) rresult \<times> 'w aws" where
  "queue_arn api queue url a =
     (let (answer, w) = api_get_attribute api url ''QueueArn'' (aws_world a); a1 = a\<lparr>aws_world := w\<rparr>
      in case answer of
           Inl e \<Rightarrow> (Err (QueueError queue (SdkFailure e)), a1)
         | Inr None \<Rightarrow> (Err (QueueError queue (Reason ''GetQueueAttributes returned no QueueArn'')), a1)
         | Inr (Some arn) \<Rightarrow> (Ok arn, a1))"

text \<open>The words of \<open>parse_visibility\<close>'s refusal, with the answer quoted by \<open>{raw:?}\<close>, which
  is the standard library's \<open>Debug\<close> of a string: the parameter \<open>debug\<close>.\<close>

definition visibility_reason :: "(string \<Rightarrow> string) \<Rightarrow> visibility_refusal \<Rightarrow> cause" where
  "visibility_reason debug r = Reason
     (case r of
        VisibilityMissing \<Rightarrow> ''GetQueueAttributes returned no VisibilityTimeout''
      | VisibilityNotSeconds raw \<Rightarrow> ''GetQueueAttributes returned VisibilityTimeout '' @ debug raw
          @ '', which is not a whole number of seconds'')"

definition aws_queue_visibility ::
    "'w aws_api \<Rightarrow> (string \<Rightarrow> string) \<Rightarrow> string \<Rightarrow> string \<Rightarrow> 'w aws
      \<Rightarrow> (sqs_error, duration) rresult \<times> 'w aws" where
  "aws_queue_visibility api debug queue url a =
     (let (answer, w) = api_get_attribute api url ''VisibilityTimeout'' (aws_world a);
          a1 = a\<lparr>aws_world := w\<rparr>
      in case answer of
           Inl e \<Rightarrow> (Err (QueueError queue (SdkFailure e)), a1)
         | Inr raw \<Rightarrow>
             (map_err (\<lambda>r. QueueError queue (visibility_reason debug r)) (parse_visibility raw), a1))"

definition ensure_queue ::
    "'w aws_api \<Rightarrow> string \<Rightarrow> 'w aws \<Rightarrow> (sqs_error, string) rresult \<times> 'w aws" where
  "ensure_queue api queue a =
     (case queue_url api queue a of
        (Inr url, a1) \<Rightarrow> (Ok url, a1)
      | (Inl _, a1) \<Rightarrow>
          (let (answer, w) = api_create_queue api (resource_name queue)
                 (if is_fifo queue
                  then [(''FifoQueue'', ''true''), (''ContentBasedDeduplication'', ''true'')] else [])
                 (aws_world a1);
               a2 = a1\<lparr>aws_world := w\<rparr>
           in case answer of
                Inl e \<Rightarrow> (Err (QueueError queue (SdkFailure e)), a2)
              | Inr None \<Rightarrow> (Err (QueueError queue (Reason ''CreateQueue returned no URL'')), a2)
              | Inr (Some raw) \<Rightarrow>
                  (let url = rebase_url (aws_endpoint a) raw
                   in (Ok url, a2\<lparr>aws_queue_urls := hash_insert queue url (aws_queue_urls a2)\<rparr>))))"

definition set_redrive_policy ::
    "'w aws_api \<Rightarrow> string \<Rightarrow> string \<Rightarrow> redrive \<Rightarrow> bool \<Rightarrow> 'w aws
      \<Rightarrow> (sqs_error, unit) rresult \<times> 'w aws" where
  "set_redrive_policy api queue url rd create_if_missing a =
     (case (if create_if_missing then ensure_queue api (dead_letter rd) a
            else queue_url api (dead_letter rd) a) of
        (Inl e, a1) \<Rightarrow> (Err e, a1)
      | (Inr dl_url, a1) \<Rightarrow>
          (case queue_arn api (dead_letter rd) dl_url a1 of
             (Inl e, a2) \<Rightarrow> (Err e, a2)
           | (Inr dl_arn, a2) \<Rightarrow>
               (let (answer, w) = api_set_attribute api url ''RedrivePolicy''
                      (redrive_policy dl_arn (max_receive_count rd)) (aws_world a2)
                in (map_err (\<lambda>e. QueueError queue (SdkFailure e)) answer, a2\<lparr>aws_world := w\<rparr>))))"

subsection \<open>The caches\<close>

text \<open>A resolution that succeeded is answered from the cache from then on: no call, no change.\<close>

lemma queue_url_cached:
  assumes "queue_url api queue a = (Ok url, a')"
  shows "queue_url api queue a' = (Ok url, a')"
  using assms
  by (auto simp: queue_url_def Let_def hash_insert_def update_conv' split: if_splits option.splits prod.splits sum.splits)

lemma topic_arn_cached:
  assumes "topic_arn api topic a = (Ok arn, a')"
  shows "topic_arn api topic a' = (Ok arn, a')"
  using assms
  by (auto simp: topic_arn_def Let_def hash_insert_def update_conv' split: if_splits option.splits prod.splits sum.splits)

lemma ensure_queue_cached:
  assumes "ensure_queue api queue a = (Ok url, a')"
  shows "queue_url api queue a' = (Ok url, a')"
proof (cases "queue_url api queue a")
  case (Pair r a1)
  show ?thesis
  proof (cases r)
    case (Inr u)
    with assms Pair show ?thesis using queue_url_cached by (auto simp: ensure_queue_def)
  next
    case (Inl e)
    then have "\<not> is_url queue" using Pair by (auto simp: queue_url_def)
    with assms Pair Inl show ?thesis
      by (auto simp: ensure_queue_def queue_url_def Let_def hash_insert_def update_conv'
          split: option.splits prod.splits sum.splits)
  qed
qed

text \<open>Resolving one name leaves every other cached name as it was.\<close>

lemma queue_url_keeps:
  assumes "queue_url api queue a = (r, a')" and "other \<noteq> queue"
  shows "map_of (aws_queue_urls a') other = map_of (aws_queue_urls a) other"
    "aws_endpoint a' = aws_endpoint a" "aws_topic_arns a' = aws_topic_arns a"
  using assms
  by (auto simp: queue_url_def Let_def hash_insert_def update_conv' split: if_splits option.splits prod.splits sum.splits)

end
