(* ===== verification/Subscriber.thy ===== *)
theory Subscriber
  imports Aws
begin

section \<open>The live subscription (subscriber.rs)\<close>

text \<open>
  The visibility a subscription holds deliveries under, the receive size, the receiver a
  descriptor opens, and the pump that repeats \<open>ReceiveMessage\<close>. The pump runs over what its
  environment answers, turn by turn: whether the stream was dropped, what the receive returned,
  whether the consumer took what was sent. What a batch's messages are beside this, their tasks
  and their settlement, is theory Live\_Deliveries.
\<close>

subsection \<open>The visibility\<close>

datatype visibility = Requested duration | QueueTimeout duration

fun requested :: "visibility \<Rightarrow> duration option" where
  "requested (Requested v) = Some v"
| "requested (QueueTimeout v) = None"

fun held :: "visibility \<Rightarrow> duration" where
  "held (Requested v) = v"
| "held (QueueTimeout v) = v"

definition SUBSCRIBER_MAX_VISIBILITY_SECS :: nat where
  "SUBSCRIBER_MAX_VISIBILITY_SECS = 12 * 60 * 60"

definition visibility_seconds :: "visibility \<Rightarrow> nat" where
  "visibility_seconds v =
     (let n = min (as_secs (held v)) SUBSCRIBER_MAX_VISIBILITY_SECS
      in if n \<le> I32_MAX then n
         else if SUBSCRIBER_MAX_VISIBILITY_SECS \<le> I32_MAX then SUBSCRIBER_MAX_VISIBILITY_SECS else I32_MAX)"

subsection \<open>The receive size\<close>

definition RECEIVE_CAP :: nat where "RECEIVE_CAP = 10"

definition receive_size :: "nat \<Rightarrow> nat" where
  "receive_size n = (let m = min n RECEIVE_CAP in if m \<le> I32_MAX then m else 10)"

text \<open>The batch size, and whether the cap is logged.\<close>

definition receive_batch :: "nat \<Rightarrow> nat \<times> bool" where
  "receive_batch n = (min n RECEIVE_CAP, RECEIVE_CAP < n)"

subsection \<open>Opening\<close>

record receiver =
  rv_queue_url :: string
  rv_wait :: duration
  rv_visibility :: visibility
  rv_redrive_max :: "nat option"

definition subscriber_open ::
    "'w aws_api \<Rightarrow> (string \<Rightarrow> string) \<Rightarrow> string \<Rightarrow> string \<Rightarrow> sqs_queue \<Rightarrow> 'w aws
      \<Rightarrow> (sqs_error, receiver) rresult \<times> 'w aws" where
  "subscriber_open api debug queue url descriptor a =
     (let (visibility, a1) =
            (case visibility_value descriptor of
               Some v \<Rightarrow> (Ok (Requested v), a)
             | None \<Rightarrow> (let (r, a1) = aws_queue_visibility api debug queue url a
                       in (case r of Inl e \<Rightarrow> Err e | Inr v \<Rightarrow> Ok (QueueTimeout v), a1)))
      in (and_then visibility (\<lambda>v. and_then (redrive_of descriptor) (\<lambda>rd.
            Ok \<lparr>rv_queue_url = url, rv_wait = sq_wait descriptor, rv_visibility = v,
                rv_redrive_max = map_option max_receive_count rd\<rparr>)), a1))"

subsection \<open>The pump\<close>

record receive_call =
  rq_size :: nat
  rq_wait :: nat
  rq_visibility :: visibility
  rq_redrive_max :: "nat option"

definition pump_call :: "receiver \<Rightarrow> nat \<Rightarrow> receive_call" where
  "pump_call r n = \<lparr>rq_size = receive_size n,
     rq_wait = (if as_secs (rv_wait r) \<le> I32_MAX then as_secs (rv_wait r) else 20),
     rq_visibility = rv_visibility r, rq_redrive_max = rv_redrive_max r\<rparr>"

record aws_receipt =
  ar_queue_url :: string
  ar_receipt :: string

record request =
  req_size :: nat
  req_wait :: nat
  req_visibility :: "nat option"

definition request_of :: "receive_call \<Rightarrow> request" where
  "request_of c = \<lparr>req_size = rq_size c, req_wait = rq_wait c,
     req_visibility = (if requested (rq_visibility c) \<noteq> None
                       then Some (visibility_seconds (rq_visibility c)) else None)\<rparr>"

text \<open>What one turn of the loop meets.\<close>

datatype answer = Answered "aws_message list" | Failed string bool

record pump_turn =
  pt_asked :: instant
  pt_closed :: bool
  pt_answer :: answer
  pt_taken :: bool

datatype 'h pump_event =
    Asked request
  | SentBatch "('h, aws_receipt) sqs_message list"
  | SentError sqs_error
  | BackedOff

definition live_batch ::
    "'h externals \<Rightarrow> string \<Rightarrow> receive_call \<Rightarrow> instant \<Rightarrow> aws_message list
      \<Rightarrow> ('h, aws_receipt) sqs_message list" where
  "live_batch x url c asked messages =
     List.map_filter (\<lambda>m. map_option
       (\<lambda>receipt. new_message x m \<lparr>ar_queue_url = url, ar_receipt = receipt\<rparr> asked (rq_redrive_max c))
       (msg_receipt m)) messages"

text \<open>The loop over its turns: what it did, and whether it ended.\<close>

fun pump :: "'h externals \<Rightarrow> string \<Rightarrow> receive_call \<Rightarrow> pump_turn list \<Rightarrow> 'h pump_event list \<times> bool" where
  "pump x url c [] = ([], False)"
| "pump x url c (t # ts) =
     (if pt_closed t then ([], True)
      else case pt_answer t of
             Answered messages \<Rightarrow>
               (let batch = live_batch x url c (pt_asked t) messages
                in if batch = []
                   then (let (es, over) = pump x url c ts in (Asked (request_of c) # es, over))
                   else if pt_taken t
                   then (let (es, over) = pump x url c ts
                         in (Asked (request_of c) # SentBatch batch # es, over))
                   else ([Asked (request_of c)], True))
           | Failed e fatal \<Rightarrow>
               (if \<not> pt_taken t then ([Asked (request_of c)], True)
                else if fatal
                then ([Asked (request_of c), SentError (ReceiveError url (SdkFailure e))], True)
                else (let (es, over) = pump x url c ts
                      in (Asked (request_of c) # SentError (ReceiveError url (SdkFailure e))
                            # BackedOff # es, over))))"

fun one_at_a_time ::
    "(sqs_error, 'm list) rresult \<Rightarrow> (sqs_error, 'm) rresult list" where
  "one_at_a_time (Inr ms) = map Ok ms"
| "one_at_a_time (Inl e) = [Err e]"

subsection \<open>The streams\<close>

text \<open>What comes out of the pump's channel, and the two streams built on it: batches of the size a
  registration names, clamped, and single messages out of receives of ten.\<close>

fun channel_item :: "'h pump_event \<Rightarrow> (sqs_error, ('h, aws_receipt) sqs_message list) rresult option" where
  "channel_item (SentBatch ms) = Some (Ok ms)"
| "channel_item (SentError e) = Some (Err e)"
| "channel_item _ = None"

definition batch_stream ::
    "'h pump_event list \<Rightarrow> (sqs_error, ('h, aws_receipt) sqs_message list) rresult list" where
  "batch_stream es = List.map_filter channel_item es"

definition live_batches ::
    "'h externals \<Rightarrow> receiver \<Rightarrow> nat \<Rightarrow> pump_turn list
      \<Rightarrow> (sqs_error, ('h, aws_receipt) sqs_message list) rresult list" where
  "live_batches x r n ts =
     batch_stream (fst (pump x (rv_queue_url r) (pump_call r (fst (receive_batch n))) ts))"

definition live_stream ::
    "'h externals \<Rightarrow> receiver \<Rightarrow> pump_turn list \<Rightarrow> (sqs_error, ('h, aws_receipt) sqs_message) rresult list" where
  "live_stream x r ts =
     concat (map one_at_a_time (batch_stream (fst (pump x (rv_queue_url r) (pump_call r RECEIVE_CAP) ts))))"

subsection \<open>What the pump hands over\<close>

lemma pump_requests: "Asked r \<in> set (fst (pump x url c ts)) \<Longrightarrow> r = request_of c"
proof (induction ts)
  case (Cons t ts)
  then show ?case
    by (cases "pump x url c ts") (auto simp: Let_def split: if_splits answer.splits)
qed simp

lemma live_batch_message:
  assumes "m \<in> set (live_batch x url c asked messages)"
  shows "sm_received m = asked \<and> sm_redrive_max m = rq_redrive_max c \<and>
    ar_queue_url (sm_receipt m) = url \<and>
    (\<exists>a \<in> set messages. msg_receipt a = Some (ar_receipt (sm_receipt m)) \<and>
       sm_payload m = fst (decode_message x a) \<and> sm_headers m = snd (decode_message x a))"
  using assms
  by (fastforce simp: live_batch_def List.map_filter_def new_message_def split: prod.splits)

lemma pump_batches:
  "SentBatch b \<in> set (fst (pump x url c ts)) \<Longrightarrow>
     b \<noteq> [] \<and> (\<exists>t \<in> set ts. \<exists>messages. pt_answer t = Answered messages \<and>
        b = live_batch x url c (pt_asked t) messages)"
proof (induction ts)
  case (Cons t ts)
  then show ?case
    by (cases "pump x url c ts") (auto simp: Let_def split: if_splits answer.splits)
qed simp

text \<open>What one turn lets happen before the next receive.\<close>

fun asked_in :: "'h pump_event list \<Rightarrow> nat" where
  "asked_in [] = 0"
| "asked_in (Asked r # es) = Suc (asked_in es)"
| "asked_in (_ # es) = asked_in es"

lemma pump_asked_bound: "asked_in (fst (pump x url c ts)) \<le> length ts"
proof (induction ts)
  case (Cons t ts)
  then show ?case
    by (cases "pump x url c ts") (auto simp: Let_def split: if_splits answer.splits)
qed simp

text \<open>Every error reaches the consumer, and every one that does not end the pump is followed by
  the back-off: no receive is asked for straight after a failure.\<close>

fun backs_off :: "'h pump_event list \<Rightarrow> bool" where
  "backs_off [] \<longleftrightarrow> True"
| "backs_off [e] \<longleftrightarrow> True"
| "backs_off (SentError e # f # es) \<longleftrightarrow> f = BackedOff \<and> backs_off (f # es)"
| "backs_off (_ # f # es) \<longleftrightarrow> backs_off (f # es)"

lemma backs_off_Cons: "(\<And>err. e \<noteq> SentError err) \<Longrightarrow> backs_off (e # es) = backs_off es"
  by (cases es; cases e) auto

lemma pump_backs_off: "backs_off (fst (pump x url c ts))"
proof (induction ts)
  case (Cons t ts)
  then show ?case
    by (cases "pump x url c ts") (auto simp: Let_def backs_off_Cons split: answer.splits)
qed simp

end
