(* ===== verification/Receive_Loop.thy ===== *)
theory Receive_Loop
  imports Receive_Properties Subscriber
begin

section \<open>The receive loop of an in-process subscription (in\_process/deliveries.rs)\<close>

text \<open>
  \<open>BusDeliveries::receive\<close> as it runs: turn after turn of theory Deliveries until a take hands
  something over, and the streams of batches and of single messages built on it. What happens
  while the loop is suspended, parked or in the batch window or between two items of the stream,
  is the list \<open>envs\<close> of changes to the world, one per suspension; when the list is used up the
  loop is still \<open>Pending\<close>. A loop that turns for ever without suspending is the value \<open>None\<close>.
\<close>

subsection \<open>Definitions\<close>

datatype 'a poll = Pending | Ready 'a

partial_function (option) deliveries_receive ::
    "'h externals \<Rightarrow> nat \<Rightarrow> duration option \<Rightarrow> bus_deliveries \<Rightarrow> ('h world \<Rightarrow> 'h world) list \<Rightarrow> 'h world
      \<Rightarrow> (('h, bus_receipt) sqs_message list poll \<times> ('h world \<Rightarrow> 'h world) list \<times> 'h world) option" where
  "deliveries_receive x limit window d envs w =
     (case receive_check limit window d w of (t, w1) \<Rightarrow>
        (case t of
           Park \<Rightarrow>
             (case envs of [] \<Rightarrow> Some (Pending, [], w1)
              | env # rest \<Rightarrow> deliveries_receive x limit window d rest (env w1))
         | TakeAfter span \<Rightarrow>
             (case envs of [] \<Rightarrow> Some (Pending, [], w1)
              | env # rest \<Rightarrow>
                  (case receive_take x limit d (env w1) of (ms, w2) \<Rightarrow>
                     if ms = [] then deliveries_receive x limit window d rest w2
                     else Some (Ready ms, rest, w2)))
         | TakeNow \<Rightarrow>
             (case receive_take x limit d w1 of (ms, w2) \<Rightarrow>
                if ms = [] then deliveries_receive x limit window d envs w2
                else Some (Ready ms, envs, w2))))"

partial_function (option) deliveries_receives ::
    "'h externals \<Rightarrow> nat \<Rightarrow> duration option \<Rightarrow> bus_deliveries \<Rightarrow> ('h world \<Rightarrow> 'h world) list \<Rightarrow> 'h world
      \<Rightarrow> (('h, bus_receipt) sqs_message list list \<times> 'h world) option" where
  "deliveries_receives x limit window d envs w =
     Option.bind (deliveries_receive x limit window d envs w) (\<lambda>(out, rest, w1).
       case out of
         Pending \<Rightarrow> Some ([], w1)
       | Ready ms \<Rightarrow>
           (case rest of [] \<Rightarrow> Some ([ms], w1)
            | env # rest' \<Rightarrow>
                Option.bind (deliveries_receives x limit window d rest' (env w1)) (\<lambda>(batches, w2).
                  Some (ms # batches, w2))))"

text \<open>\<open>BusDeliveries::batches\<close>, and \<open>BusDeliveries::stream\<close>: receives of up to ten handed over one
  at a time.\<close>

definition deliveries_batches ::
    "'h externals \<Rightarrow> nat \<Rightarrow> bus_deliveries \<Rightarrow> ('h world \<Rightarrow> 'h world) list \<Rightarrow> 'h world
      \<Rightarrow> ((sqs_error, ('h, bus_receipt) sqs_message list) rresult list \<times> 'h world) option" where
  "deliveries_batches x limit d envs w =
     map_option (\<lambda>(batches, w'). (map Ok batches, w')) (deliveries_receives x limit (Some BATCH_WINDOW) d envs w)"

definition deliveries_stream ::
    "'h externals \<Rightarrow> bus_deliveries \<Rightarrow> ('h world \<Rightarrow> 'h world) list \<Rightarrow> 'h world
      \<Rightarrow> ((sqs_error, ('h, bus_receipt) sqs_message) rresult list \<times> 'h world) option" where
  "deliveries_stream x d envs w =
     map_option (\<lambda>(batches, w'). (concat (map (\<lambda>ms. one_at_a_time (Ok ms)) batches), w'))
       (deliveries_receives x RECEIVE_CAP None d envs w)"

subsection \<open>A take that comes back empty\<close>

definition no_self_redrive :: "string \<Rightarrow> 'h world \<Rightarrow> bool" where
  "no_self_redrive k w \<longleftrightarrow>
     (case q_redrive (queue_of (w_bus w) k) of None \<Rightarrow> True | Some rd \<Rightarrow> rt_queue rd \<noteq> k)"

text \<open>A world a subscription can run in: reachable, the subscription open, its queue not its own
  dead-letter queue.\<close>

definition serviceable :: "'h externals \<Rightarrow> bus_deliveries \<Rightarrow> 'h world \<Rightarrow> bool" where
  "serviceable x d w \<longleftrightarrow> reachable world_init (world_step x) w \<and> d \<in> set (w_open w) \<and>
     no_self_redrive (bd_queue d) w"

lemma serviceableD:
  "serviceable x d w \<Longrightarrow> reachable world_init (world_step x) w"
  "serviceable x d w \<Longrightarrow> d \<in> set (w_open w)"
  "serviceable x d w \<Longrightarrow> no_self_redrive (bd_queue d) w"
  by (simp_all add: serviceable_def)

text \<open>When a receive takes without waiting: no batch window, or as many messages as asked for.\<close>

lemma check_takes_now:
  assumes "0 < limit" and "fst (bus_receivable (bd_queue d) limit (w_bus w)) \<noteq> 0"
    and "window = None \<or> limit \<le> length (filter (not_blocked (blocked_groups (queue_of (w_bus w) (bd_queue d))))
                                       (map snd (q_visible (queue_of (w_bus w) (bd_queue d)))))"
  shows "fst (receive_check limit window d w) = TakeNow"
proof -
  let ?free = "filter (not_blocked (blocked_groups (queue_of (w_bus w) (bd_queue d))))
     (map snd (q_visible (queue_of (w_bus w) (bd_queue d))))"
  have n: "fst (bus_receivable (bd_queue d) limit (w_bus w)) = min (length ?free) limit"
    by (simp add: bus_receivable_def Let_def)
  have "fst (receive_check limit window d w) =
      (let n = fst (bus_receivable (bd_queue d) limit (w_bus w))
       in if n = 0 then Park
          else case window of None \<Rightarrow> TakeNow | Some span \<Rightarrow> if n < limit then TakeAfter span else TakeNow)"
    by (simp only: receive_check_def Let_def split_beta fst_conv)
  then show ?thesis using assms(2,3) unfolding n by (auto simp: Let_def split: option.split)
qed

lemma empty_take_parks:
  assumes "serviceable x d w" and "0 < limit" and "receive_take x limit d w = ([], w')"
  shows "fst (receive_check limit window d w') = Park"
proof -
  let ?k = "bd_queue d"
  obtain b' where recv: "bus_receive x (w_now w) ?k limit (w_bus w) = ([], b')" and w': "w_bus w' = b'"
    using assms(3) by (auto simp: receive_take_def split: prod.splits)
  from serviceableD(1) [OF assms(1)] recv have "fst (bus_receivable ?k limit b') = 0"
  proof (rule reachable_walk)
    let ?q = "queue_of (w_bus w) ?k"
    fix kept out spnt
    assume walk: "receive_walk (exhausted ?q) (not_blocked (blocked_groups ?q)) limit (q_visible ?q) = (kept, out, spnt)"
      and rs: "[] = handovers (w_now w) (bus_next_id (w_bus w)) out"
      and b': "b' = redrive_spent x spnt
         ((put_queue ?k (?q\<lparr>q_visible := kept,
            q_in_flight := q_in_flight ?q @ flights (w_now w) (bus_next_id (w_bus w)) out\<rparr>) (w_bus w))
          \<lparr>bus_next_id := bus_next_id (w_bus w) + length out\<rparr>)"
    have out: "out = []" using arg_cong [OF rs, where f = length] by (simp add: handovers_def)
    have blocked: "\<forall>e \<in> set kept. \<not> not_blocked (blocked_groups ?q) (snd e)"
      using walk_out [OF walk] out assms(2) by auto
    have "\<forall>(rd, s) \<in> set spnt. exhausted ?q s = Some rd" using walk_out [OF walk] by blast
    then have "\<forall>(rd, s) \<in> set spnt. rt_queue rd \<noteq> ?k"
      using serviceableD(3) [OF assms(1)]
      by (auto simp: exhausted_def no_self_redrive_def split: option.splits if_splits)
    then have "queue_of b' ?k = ?q\<lparr>q_visible := kept\<rparr>"
      unfolding b' by (subst redrive_spent_other) (simp_all add: queue_of_put out)
    moreover have "blocked_groups (?q\<lparr>q_visible := kept\<rparr>) = blocked_groups ?q" by (simp add: blocked_groups_def)
    ultimately show ?thesis using blocked
      by (auto simp: bus_receivable_def Let_def filter_map filter_empty_conv)
  qed
  with w' show ?thesis by (cases "bus_receivable ?k limit b'") (simp add: receive_check_def)
qed

lemma serviceable_check:
  assumes "serviceable x d w" and "receive_check limit window d w = (t, w')"
  shows "serviceable x d w'"
proof -
  have "reachable world_init (world_step x) w'"
    using serviceableD(1,2) [OF assms(1)] assms(2) by (blast intro: reachable.move world_step.check)
  moreover have "w_open w' = w_open w" "queue_of (w_bus w') (bd_queue d) = queue_of (w_bus w) (bd_queue d)"
    using assms(2) by (auto simp: receive_check_def bus_receivable_def Let_def queue_of_put split: prod.splits)
  ultimately show ?thesis using assms(1) by (simp add: serviceable_def no_self_redrive_def)
qed

lemma redrive_spent_policy:
  "q_redrive (queue_of (redrive_spent x spnt b) k) = q_redrive (queue_of b k)"
  by (induction x spnt b rule: redrive_spent.induct) (simp_all add: redrive_one_queue)

lemma serviceable_take:
  assumes "serviceable x d w" and "receive_take x limit d w = (ms, w')"
  shows "serviceable x d w' \<and> length ms \<le> limit"
proof -
  obtain rs b' where recv: "bus_receive x (w_now w) (bd_queue d) limit (w_bus w) = (rs, b')"
    and eq: "w_bus w' = b'" "w_open w' = w_open w" "length ms = length rs"
    using assms(2) by (auto simp: receive_take_def split: prod.splits)
  have "reachable world_init (world_step x) w'"
    using serviceableD(1,2) [OF assms(1)] assms(2) by (blast intro: reachable.move world_step.take)
  moreover have "q_redrive (queue_of b' (bd_queue d)) = q_redrive (queue_of (w_bus w) (bd_queue d))"
    using serviceableD(1) [OF assms(1)] recv
    by (rule reachable_walk) (simp add: redrive_spent_policy queue_of_put)
  moreover have "length rs \<le> limit"
    using serviceableD(1) [OF assms(1)] recv
    by (rule reachable_walk) (use walk_out in \<open>fastforce simp: handovers_def\<close>)
  ultimately show ?thesis using assms(1) eq by (simp add: serviceable_def no_self_redrive_def)
qed


subsection \<open>The loop suspends or returns\<close>

text \<open>What a receive may answer: pending with every suspension used, or a batch.\<close>

definition answers :: "'h externals \<Rightarrow> nat \<Rightarrow> bus_deliveries \<Rightarrow> ('h world \<Rightarrow> 'h world) list
    \<Rightarrow> (('h, bus_receipt) sqs_message list poll \<times> ('h world \<Rightarrow> 'h world) list \<times> 'h world) option \<Rightarrow> bool" where
  "answers x limit d envs res \<longleftrightarrow> (\<exists>out rest w'. res = Some (out, rest, w') \<and> serviceable x d w' \<and>
     (\<exists>used. envs = used @ rest) \<and>
     (case out of Pending \<Rightarrow> rest = [] | Ready ms \<Rightarrow> 0 < length ms \<and> length ms \<le> limit))"

lemma answers_pending: "serviceable x d w' \<Longrightarrow> answers x limit d envs (Some (Pending, [], w'))"
  by (simp add: answers_def)

lemma answers_ready:
  "serviceable x d w' \<Longrightarrow> ms \<noteq> [] \<Longrightarrow> length ms \<le> limit \<Longrightarrow> answers x limit d envs (Some (Ready ms, envs, w'))"
  by (simp add: answers_def)

lemma answers_Cons: "answers x limit d envs res \<Longrightarrow> answers x limit d (env # envs) res"
proof -
  assume "answers x limit d envs res"
  then obtain out rest w' used where "res = Some (out, rest, w')" "serviceable x d w'" "envs = used @ rest"
    "case out of Pending \<Rightarrow> rest = [] | Ready ms \<Rightarrow> 0 < length ms \<and> length ms \<le> limit"
    unfolding answers_def by blast
  moreover from this(3) have "env # envs = (env # used) @ rest" by simp
  ultimately show ?thesis unfolding answers_def by blast
qed

lemma receive_answers:
  assumes "0 < limit" and "serviceable x d w" and "\<forall>env \<in> set envs. \<forall>w. serviceable x d w \<longrightarrow> serviceable x d (env w)"
  shows "answers x limit d envs (deliveries_receive x limit window d envs w)"
  using assms(2,3)
proof (induction envs arbitrary: w)
  case Nil
  have parked: "answers x limit d [] (deliveries_receive x limit window d [] w)"
    if "serviceable x d w" "fst (receive_check limit window d w) = Park" for w
    using that serviceable_check [OF that(1) prod.collapse [symmetric]]
    by (subst deliveries_receive.simps) (simp add: split_beta answers_pending)
  obtain t w1 where t: "receive_check limit window d w = (t, w1)" by fastforce
  note ok = serviceable_check [OF Nil(1) t]
  obtain ms w2 where take: "receive_take x limit d w1 = (ms, w2)" by fastforce
  note ok2 = serviceable_take [OF ok take]
  show ?case
  proof (cases "t = TakeNow \<and> ms = []")
    case True
    then have "fst (receive_check limit window d w2) = Park"
      using empty_take_parks [OF ok assms(1)] take by (auto simp: receive_check_def split: prod.splits if_splits)
    from parked [OF conjunct1 [OF ok2] this] True t take show ?thesis
      by (subst deliveries_receive.simps) simp
  next
    case False
    then show ?thesis using t take ok ok2
      by (subst deliveries_receive.simps) (auto simp: answers_pending answers_ready split: turn.split)
  qed
next
  case (Cons env envs)
  have env: "serviceable x d w \<Longrightarrow> serviceable x d (env w)" for w using Cons.prems(2) by simp
  have later: "answers x limit d (env # envs) (deliveries_receive x limit window d envs w)"
    if "serviceable x d w" for w
    using Cons.IH [OF that] Cons.prems(2) by (simp add: answers_Cons)
  have parked: "answers x limit d (env # envs) (deliveries_receive x limit window d (env # envs) w)"
    if "serviceable x d w" "fst (receive_check limit window d w) = Park" for w
    using that later [OF env [OF serviceable_check [OF that(1) prod.collapse [symmetric]]]]
    by (subst deliveries_receive.simps) (simp add: split_beta)
  obtain t w1 where t: "receive_check limit window d w = (t, w1)" by fastforce
  note ok = serviceable_check [OF Cons.prems(1) t]
  show ?case
  proof (cases t)
    case Park
    with t show ?thesis using parked [OF Cons.prems(1)] by simp
  next
    case (TakeAfter span)
    obtain ms w2 where take: "receive_take x limit d (env w1) = (ms, w2)" by fastforce
    note ok2 = serviceable_take [OF env [OF ok] take]
      note after = later [OF conjunct1 [OF ok2]]
    have "answers x limit d (env # envs) (Some (Ready ms, envs, w2))" if "ms \<noteq> []"
      using ok2 that by (intro answers_Cons answers_ready) simp_all
    with TakeAfter t take after show ?thesis
      by (subst deliveries_receive.simps) simp
  next
    case TakeNow
    obtain ms w2 where take: "receive_take x limit d w1 = (ms, w2)" by fastforce
    note ok2 = serviceable_take [OF ok take]
    show ?thesis
    proof (cases "ms = []")
      case True
      then have "fst (receive_check limit window d w2) = Park"
        using empty_take_parks [OF ok assms(1)] take by (auto simp: receive_check_def split: prod.splits if_splits)
      from parked [OF conjunct1 [OF ok2] this] True TakeNow t take show ?thesis
        by (subst deliveries_receive.simps) simp
    next
      case False
      then show ?thesis using TakeNow t take ok2
        by (subst deliveries_receive.simps) (simp add: answers_ready)
    qed
  qed
qed

text \<open>C14: the receive loop never spins. On a queue that is not its own dead-letter queue, a receive
  always comes to an end or to a suspension: over any changes to the account that leave it
  serviceable it is pending with every suspension used up, or it returns a batch of at least one
  and at most the messages it asked for.\<close>

theorem receive_never_spins:
  assumes "0 < limit" and "serviceable x d w"
    and "\<forall>env \<in> set envs. \<forall>w. serviceable x d w \<longrightarrow> serviceable x d (env w)"
  shows "\<exists>out rest w'. deliveries_receive x limit window d envs w = Some (out, rest, w') \<and>
    serviceable x d w' \<and>
    (case out of Pending \<Rightarrow> rest = [] | Ready ms \<Rightarrow> 0 < length ms \<and> length ms \<le> limit)"
  using receive_answers [OF assms] unfolding answers_def by blast

text \<open>Time passing while a subscription is suspended.\<close>

definition passing :: "'h world \<Rightarrow> 'h world" where
  "passing w = w\<lparr>w_now := w_now w + BATCH_WINDOW\<rparr>"

lemma serviceable_passing:
  assumes "serviceable x d w" shows "serviceable x d (passing w)"
proof -
  have "world_step x w (passing w)" unfolding passing_def by (rule world_step.tick) simp
  from reachable.move [OF serviceableD(1) [OF assms] this] assms show ?thesis
    by (simp add: serviceable_def passing_def no_self_redrive_def)
qed

lemma only_passing: "\<forall>env \<in> set [passing]. \<forall>w. serviceable x d w \<longrightarrow> serviceable x d (env w)"
  by (simp add: serviceable_passing)

lemma serviceable_sample: "serviceable sample_externals sample_subscription sample_sent"
proof -
  have "bd_queue sample_subscription = ''q''" "q_redrive (queue_of (w_bus sample_sent) ''q'') = None" by code_simp+
  then show ?thesis by (simp add: serviceable_def reachable_sent sample_facts no_self_redrive_def)
qed

theorem receive_never_spins_witness:
  "\<exists>out rest w'. deliveries_receive sample_externals 10 (Some BATCH_WINDOW) sample_subscription [passing] sample_sent =
     Some (out, rest, w')"
  using receive_never_spins [OF _ serviceable_sample only_passing, of 10 "Some BATCH_WINDOW"] by auto

text \<open>C20: a receive with something to hand over does not wait. With a message visible that no group
  holds back and the policy has not run out on, a receive returns at once, whatever its environment
  would have done, with at least one message: always without a batch window, and with one when the
  queue has as many messages of groups not held back as the receive asks for. With fewer it sleeps
  the window first.\<close>

theorem receive_returns_at_once:
  assumes "reachable world_init (world_step x) w" and "d \<in> set (w_open w)" and "0 < limit"
    and "(n, s) \<in> set (q_visible (queue_of (w_bus w) (bd_queue d)))"
    and "not_blocked (blocked_groups (queue_of (w_bus w) (bd_queue d))) s"
    and "exhausted (queue_of (w_bus w) (bd_queue d)) s = None"
    and "window = None \<or> limit \<le> length (filter (not_blocked (blocked_groups (queue_of (w_bus w) (bd_queue d))))
                                       (map snd (q_visible (queue_of (w_bus w) (bd_queue d)))))"
  shows "\<exists>ms w'. deliveries_receive x limit window d envs w = Some (Ready ms, envs, w') \<and> ms \<noteq> []"
proof -
  obtain t w1 where t: "receive_check limit window d w = (t, w1)" by fastforce
  have same: "queue_of (w_bus w1) (bd_queue d) = queue_of (w_bus w) (bd_queue d)"
    using t by (auto simp: receive_check_def bus_receivable_def Let_def queue_of_put split: prod.splits)
  have "fst (bus_receivable (bd_queue d) limit (w_bus w)) \<noteq> 0"
    using assms(3,5) by (auto simp: bus_receivable_def Let_def filter_map filter_empty_conv
        intro!: bexI [OF _ assms(4)])
  with check_takes_now [OF assms(3) _ assms(7)] t have now: "t = TakeNow" by simp
  have reach: "reachable world_init (world_step x) w1"
    using assms(1,2) t by (blast intro: reachable.move world_step.check)
  obtain ms w2 where take: "receive_take x limit d w1 = (ms, w2)" by fastforce
  obtain rs b' where recv: "bus_receive x (w_now w1) (bd_queue d) limit (w_bus w1) = (rs, b')"
    and len: "length ms = length rs" using take by (auto simp: receive_take_def split: prod.splits)
  obtain out where "rs = handovers (w_now w1) (bus_next_id (w_bus w1)) out" "s \<in> set out \<or> length out = limit"
    using receive_no_skip [OF reach recv, of n s] assms(4-6) same by auto
  then have "ms \<noteq> []" using len assms(3) by (auto simp: handovers_def)
  with t now take show ?thesis by (subst deliveries_receive.simps) simp
qed

theorem receive_returns_at_once_witness:
  "\<exists>ms w'. deliveries_receive sample_externals 1 (Some BATCH_WINDOW) sample_subscription [] sample_sent =
     Some (Ready ms, [], w') \<and> ms \<noteq> []"
proof -
  obtain s where s: "map_of (q_visible (queue_of (w_bus sample_sent) ''q'')) 1 = Some s"
    using sample_facts(5) by auto
  have "map_option group_of (map_of (q_visible (queue_of (w_bus sample_sent) ''q'')) 1) = Some None"
    "q_redrive (queue_of (w_bus sample_sent) ''q'') = None" "bd_queue sample_subscription = ''q''"
    "length (filter (not_blocked (blocked_groups (queue_of (w_bus sample_sent) ''q'')))
       (map snd (q_visible (queue_of (w_bus sample_sent) ''q'')))) = 1" by code_simp+
  with receive_returns_at_once [OF serviceableD(1,2) [OF serviceable_sample], of 1 1 s "Some BATCH_WINDOW"]
    map_of_SomeD [OF s] s
  show ?thesis by (simp add: not_blocked_def exhausted_def)
qed

subsection \<open>The streams\<close>

lemma receives_total:
  assumes "0 < limit" and "serviceable x d w" and "\<forall>env \<in> set envs. \<forall>w. serviceable x d w \<longrightarrow> serviceable x d (env w)"
  shows "\<exists>batches w'. deliveries_receives x limit window d envs w = Some (batches, w') \<and>
    list_all (\<lambda>ms. 0 < length ms \<and> length ms \<le> limit) batches"
  using assms(2,3)
proof (induction envs arbitrary: w rule: length_induct)
  case (1 envs)
  obtain out rest w1 used where r: "deliveries_receive x limit window d envs w = Some (out, rest, w1)"
    and ok: "serviceable x d w1" and used: "envs = used @ rest"
    and out: "case out of Pending \<Rightarrow> rest = [] | Ready ms \<Rightarrow> 0 < length ms \<and> length ms \<le> limit"
    using receive_answers [OF assms(1) "1.prems", of window] unfolding answers_def by blast
  show ?case
  proof (cases out)
    case Pending
    with r show ?thesis by (subst deliveries_receives.simps) simp
  next
    case (Ready ms)
    show ?thesis
    proof (cases rest)
      case Nil
      with r Ready out show ?thesis by (subst deliveries_receives.simps) simp
    next
      case (Cons env rest')
      with used have sub: "length rest' < length envs" "set rest' \<subseteq> set envs" "env \<in> set envs" by auto
      then obtain bs w2 where "deliveries_receives x limit window d rest' (env w1) = Some (bs, w2)"
        "list_all (\<lambda>ms. 0 < length ms \<and> length ms \<le> limit) bs"
        using "1.IH" [rule_format, of rest' "env w1"] "1.prems"(2) ok by blast
      with r Ready Cons out show ?thesis by (subst deliveries_receives.simps) simp
    qed
  qed
qed

text \<open>What the streams of a subscription yield on a queue that is not its own dead-letter queue. The
  stream of batches yields batches of one up to the size asked for, the stream of single messages
  messages, and neither spins.\<close>

lemma streams_yield_messages:
  assumes "0 < n" and "serviceable x d w"
    and "\<forall>env \<in> set envs. \<forall>w. serviceable x d w \<longrightarrow> serviceable x d (env w)"
  shows "(\<exists>items w'. deliveries_batches x n d envs w = Some (items, w') \<and>
      list_all (\<lambda>i. case i of Inl e \<Rightarrow> False | Inr ms \<Rightarrow> 0 < length ms \<and> length ms \<le> n) items) \<and>
    (\<exists>items w'. deliveries_stream x d envs w = Some (items, w') \<and> list_all is_ok items)"
proof (rule conjI)
  show "\<exists>items w'. deliveries_batches x n d envs w = Some (items, w') \<and>
      list_all (\<lambda>i. case i of Inl e \<Rightarrow> False | Inr ms \<Rightarrow> 0 < length ms \<and> length ms \<le> n) items"
    using receives_total [OF assms, of "Some BATCH_WINDOW"]
    by (auto simp: deliveries_batches_def list_all_iff)
  have "0 < RECEIVE_CAP" by (simp add: RECEIVE_CAP_def)
  from receives_total [OF this assms(2,3), of None]
  show "\<exists>items w'. deliveries_stream x d envs w = Some (items, w') \<and> list_all is_ok items"
    by (auto simp: deliveries_stream_def list_all_iff is_ok_iff)
qed

lemma streams_yield_messages_instance:
  "\<exists>items w'. deliveries_stream sample_externals sample_subscription [passing] sample_sent = Some (items, w') \<and>
     list_all is_ok items"
  using streams_yield_messages [OF _ serviceable_sample only_passing, of 10] by auto

subsection \<open>A queue that is its own dead-letter queue\<close>

text \<open>Every message a receive could take has used the receives the policy of the queue allows, and
  that policy names the queue itself.\<close>

definition self_spent :: "string \<Rightarrow> 'h world \<Rightarrow> bool" where
  "self_spent k w \<longleftrightarrow>
     (let q = queue_of (w_bus w) k;
          free = filter (not_blocked (blocked_groups q)) (map snd (q_visible q))
      in q_subscriptions q \<noteq> 0 \<and> free \<noteq> [] \<and>
         list_all (\<lambda>s. map_option rt_queue (exhausted q s) = Some k) free)"

lemma redrive_spent_shape:
  "\<exists>v j. queue_of (redrive_spent x spnt b) k = (queue_of b k)\<lparr>q_visible := v, q_notify := j\<rparr> \<and>
     (btree_wf (q_visible (queue_of b k)) \<longrightarrow> btree_wf v) \<and>
     set v \<subseteq> set (q_visible (queue_of b k)) \<union> (\<lambda>(rd, s). (st_seq s, s)) ` set spnt"
proof (induction x spnt b rule: redrive_spent.induct)
  case (1 x b)
  show ?case by (intro exI [of _ "q_visible (queue_of b k)"] exI [of _ "q_notify (queue_of b k)"]) simp
next
  case (2 x rd s rest b)
  let ?b = "redrive_one x rd s b"
  obtain v j where v: "queue_of (redrive_spent x rest ?b) k = (queue_of ?b k)\<lparr>q_visible := v, q_notify := j\<rparr>"
    "btree_wf (q_visible (queue_of ?b k)) \<longrightarrow> btree_wf v"
    "set v \<subseteq> set (q_visible (queue_of ?b k)) \<union> (\<lambda>(rd, s). (st_seq s, s)) ` set rest"
    using 2 by blast
  show ?case
  proof (intro exI [of _ v] exI [of _ j] conjI)
    show "queue_of (redrive_spent x ((rd, s) # rest) b) k = (queue_of b k)\<lparr>q_visible := v, q_notify := j\<rparr>"
      using v(1) by (simp add: redrive_one_queue)
    show "btree_wf (q_visible (queue_of b k)) \<longrightarrow> btree_wf v"
      using v(2) by (simp add: redrive_one_queue btree_wf_insert split: if_splits)
    show "set v \<subseteq> set (q_visible (queue_of b k)) \<union> (\<lambda>(rd, s). (st_seq s, s)) ` set ((rd, s) # rest)"
      using v(3) set_btree_insert [of "st_seq s" s "q_visible (queue_of b k)"]
      by (auto simp: redrive_one_queue split: if_splits)
  qed
qed

text \<open>A receive on such a queue hands over nothing and leaves the queue as it found it.\<close>

lemma self_redrive_same:
  assumes "reachable world_init (world_step x) w" and "self_spent k w" and "0 < limit"
    and "bus_receive x now k limit (w_bus w) = (rs, b')"
  shows "rs = [] \<and> (\<exists>j. queue_of b' k = (queue_of (w_bus w) k)\<lparr>q_notify := j\<rparr>)"
  using assms(1,4)
proof (rule reachable_walk)
  let ?q = "queue_of (w_bus w) k" and ?b = "w_bus w"
  let ?free = "not_blocked (blocked_groups ?q)" and ?ex = "exhausted ?q"
  fix kept out spnt
  assume walk: "receive_walk ?ex ?free limit (q_visible ?q) = (kept, out, spnt)"
    and rs: "rs = handovers now (bus_next_id ?b) out" and ok: "queue_ok (w_now w) (bus_next_id ?b) ?q"
    and b': "b' = redrive_spent x spnt
       ((put_queue k (?q\<lparr>q_visible := kept,
            q_in_flight := q_in_flight ?q @ flights now (bus_next_id ?b) out\<rparr>) ?b)
          \<lparr>bus_next_id := bus_next_id ?b + length out\<rparr>)" (is "_ = redrive_spent x spnt ?b1")
  have mine: "?ex s \<noteq> None \<and> (\<forall>rd. ?ex s = Some rd \<longrightarrow> rt_queue rd = k)"
    if "s \<in> snd ` set (q_visible ?q)" "?free s" for s
    using assms(2) that by (auto simp: self_spent_def Let_def list_all_iff)
  have out: "out = []" unfolding walk_takes [OF walk] using mine by (auto simp: filter_empty_conv)
  have b1: "queue_of ?b1 k = ?q\<lparr>q_visible := kept\<rparr>" by (simp add: queue_of_put out)
  have wf: "btree_wf (q_visible ?q)" and seq: "\<forall>e \<in> set (q_visible ?q). st_seq (snd e) = fst e"
    using ok by (auto simp: queue_ok_def)
  have part: "mset (map snd (q_visible ?q)) = mset (map snd kept) + mset (map snd spnt)"
    using walk_partition [OF walk] by (simp add: out)
  have kept: "set kept \<subseteq> set (q_visible ?q)" "btree_wf kept" using walk_kept [OF walk] wf by simp_all
  have own: "\<forall>(rd, s) \<in> set spnt. rt_queue rd = k"
  proof -
    have "\<forall>(rd, s) \<in> set spnt. ?ex s = Some rd \<and> ?free s" using walk_out [OF walk] by blast
    moreover have "snd ` set spnt \<subseteq> snd ` set (q_visible ?q)"
      using part [THEN arg_cong [where f = set_mset]] by auto
    ultimately show ?thesis using mine by fastforce
  qed
  obtain v j where v: "queue_of b' k = (queue_of ?b1 k)\<lparr>q_visible := v, q_notify := j\<rparr>"
    "btree_wf (q_visible (queue_of ?b1 k)) \<longrightarrow> btree_wf v"
    "set v \<subseteq> set (q_visible (queue_of ?b1 k)) \<union> (\<lambda>(rd, s). (st_seq s, s)) ` set spnt"
    unfolding b' using redrive_spent_shape by blast
  have dist: "distinct (map (st_seq \<circ> snd) kept @ map (st_seq \<circ> snd) spnt)"
    using walk_distinct [OF walk ok] by (simp add: out)
  have home: "map_of v (st_seq s) = Some s"
    if "(\<exists>rd. (rd, s) \<in> set spnt) \<or> (map_of kept (st_seq s) = Some s \<and> st_seq s \<notin> set (map (st_seq \<circ> snd) spnt))" for s
  proof -
    have "map_of (q_visible (queue_of b' k)) (st_seq s) = Some s"
      unfolding b'
    proof (rule redrive_spent_holds)
      show "q_subscriptions (queue_of ?b1 k) \<noteq> 0" "btree_wf (q_visible (queue_of ?b1 k))"
        using assms(2) kept(2) by (simp_all add: b1 self_spent_def Let_def)
      show "distinct (map (st_seq \<circ> snd) spnt)" using dist by simp
      show "(\<exists>rd. (rd, s) \<in> set spnt \<and> rt_queue rd = k) \<or>
          map_of (q_visible (queue_of ?b1 k)) (st_seq s) = Some s \<and> st_seq s \<notin> set (map (st_seq \<circ> snd) spnt)"
        using that own unfolding b1 by auto
    qed
    then show ?thesis by (simp add: v(1))
  qed
  have "set v = set (q_visible ?q)"
  proof
    have "snd ` set spnt \<subseteq> snd ` set (q_visible ?q)" using walk_out [OF walk] by blast
    then have "(\<lambda>(rd, s). (st_seq s, s)) ` set spnt \<subseteq> set (q_visible ?q)" using seq by force
    moreover have "set v \<subseteq> set kept \<union> (\<lambda>(rd, s). (st_seq s, s)) ` set spnt" using v(3) unfolding b1 by simp
    ultimately show "set v \<subseteq> set (q_visible ?q)" using kept(1) by blast
    show "set (q_visible ?q) \<subseteq> set v"
    proof
      fix e assume e: "e \<in> set (q_visible ?q)"
      then have eq: "(st_seq (snd e), snd e) = e" using seq by (cases e) auto
      have "snd ` set (q_visible ?q) = snd ` set kept \<union> snd ` set spnt"
        using part [THEN arg_cong [where f = set_mset]] by simp
      with imageI [OF e, of snd] have "snd e \<in> snd ` set kept \<union> snd ` set spnt" by simp
      then consider f where "f \<in> set kept" "snd f = snd e" | rd where "(rd, snd e) \<in> set spnt" by auto
      then have "map_of v (st_seq (snd e)) = Some (snd e)"
      proof cases
        case (1 f)
        then have "f \<in> set (q_visible ?q)" using kept(1) by blast
        with seq 1(2) have "f = (st_seq (snd e), snd e)" by (cases f) auto
        then have "map_of kept (st_seq (snd e)) = Some (snd e)"
          using 1 btree_wf_distinct [OF kept(2)] by simp
        moreover have "st_seq (snd e) \<in> set (map (st_seq \<circ> snd) kept)" using 1 by (auto simp: image_iff intro!: bexI [of _ f])
        then have "st_seq (snd e) \<notin> set (map (st_seq \<circ> snd) spnt)" using dist unfolding distinct_append by blast
        ultimately show ?thesis using home by blast
      next
        case (2 rd)
        then show ?thesis using home by blast
      qed
      from map_of_SomeD [OF this] show "e \<in> set v" unfolding eq .
    qed
  qed
  moreover have "btree_wf v" using v(2) kept(2) by (simp add: b1)
  ultimately have "v = q_visible ?q"
    using wf by (intro map_sorted_distinct_set_unique [of fst])
      (auto simp: btree_wf_def strict_sorted_iff distinct_map)
  then have "queue_of b' k = ?q\<lparr>q_notify := j\<rparr>" using v(1) unfolding b1 by simp
  moreover have "rs = []" using rs by (simp add: out handovers_def)
  ultimately show ?thesis by blast
qed

definition self_spent_world :: "'h externals \<Rightarrow> nat \<Rightarrow> duration option \<Rightarrow> bus_deliveries \<Rightarrow> 'h world \<Rightarrow> bool" where
  "self_spent_world x limit window d w \<longleftrightarrow>
     reachable world_init (world_step x) w \<and> d \<in> set (w_open w) \<and> self_spent (bd_queue d) w \<and> 0 < limit \<and>
     (window = None \<or> limit \<le> length (filter (not_blocked (blocked_groups (queue_of (w_bus w) (bd_queue d))))
                                        (map snd (q_visible (queue_of (w_bus w) (bd_queue d))))))"

lemma self_spent_worldD:
  assumes "self_spent_world x limit window d w"
  shows "reachable world_init (world_step x) w" "d \<in> set (w_open w)" "self_spent (bd_queue d) w" "0 < limit"
    "window = None \<or> limit \<le> length (filter (not_blocked (blocked_groups (queue_of (w_bus w) (bd_queue d))))
                                        (map snd (q_visible (queue_of (w_bus w) (bd_queue d)))))"
  using assms unfolding self_spent_world_def by blast+

lemma self_spent_turn:
  assumes "self_spent_world x limit window d w"
  shows "\<exists>w1 w2. receive_check limit window d w = (TakeNow, w1) \<and> receive_take x limit d w1 = ([], w2) \<and>
    self_spent_world x limit window d w2"
proof -
  let ?k = "bd_queue d"
  note ok = self_spent_worldD [OF assms]
  obtain w1 where check: "receive_check limit window d w = (TakeNow, w1)"
  proof -
    have "fst (bus_receivable ?k limit (w_bus w)) \<noteq> 0"
      using ok(3,4) by (auto simp: bus_receivable_def Let_def self_spent_def filter_map)
    then have "fst (receive_check limit window d w) = TakeNow"
      using check_takes_now [OF ok(4) _ ok(5)] by simp
    with that show ?thesis by (metis prod.collapse)
  qed
  have same: "queue_of (w_bus w1) ?k = queue_of (w_bus w) ?k" "w_open w1 = w_open w"
    using check by (auto simp: receive_check_def bus_receivable_def Let_def queue_of_put split: prod.splits)
  have r1: "reachable world_init (world_step x) w1"
    using ok(1,2) check by (blast intro: reachable.move world_step.check)
  obtain ms w2 where take: "receive_take x limit d w1 = (ms, w2)" by fastforce
  obtain rs b' where recv: "bus_receive x (w_now w1) ?k limit (w_bus w1) = (rs, b')"
    and eq: "ms = map (delivery_of x d) rs" "w_bus w2 = b'" "w_open w2 = w_open w1"
    using take by (auto simp: receive_take_def split: prod.splits)
  have "self_spent ?k w1" using ok(3) same by (simp add: self_spent_def)
  from self_redrive_same [OF r1 this ok(4) recv]
  obtain j where j: "rs = []" "queue_of b' ?k = (queue_of (w_bus w) ?k)\<lparr>q_notify := j\<rparr>" unfolding same by blast
  have "reachable world_init (world_step x) w2"
    using r1 by (rule reachable.move) (rule world_step.take [OF _ take], use ok(2) same in simp)
  moreover have "blocked_groups (queue_of b' ?k) = blocked_groups (queue_of (w_bus w) ?k)"
    "exhausted (queue_of b' ?k) = exhausted (queue_of (w_bus w) ?k)"
    by (simp_all add: j(2) blocked_groups_def exhausted_def fun_eq_iff)
  ultimately have "self_spent_world x limit window d w2"
    using ok eq(2,3) same j(2) by (simp add: self_spent_world_def self_spent_def Let_def)
  moreover have "receive_take x limit d w1 = ([], w2)" using take eq(1) j(1) by simp
  ultimately show ?thesis using check by blast
qed

lemma self_spent_spins:
  assumes "self_spent_world x limit window d w"
  shows "deliveries_receive x limit window d envs w = None"
proof (rule ccontr)
  let ?Q = "\<lambda>(x :: 'a externals) limit (window :: duration option) d (envs :: ('a world \<Rightarrow> 'a world) list) w
    (r :: ('a, bus_receipt) sqs_message list poll \<times> ('a world \<Rightarrow> 'a world) list \<times> 'a world).
    \<not> self_spent_world x limit window d w"
  assume "deliveries_receive x limit window d envs w \<noteq> None"
  then obtain r where r: "deliveries_receive x limit window d envs w = Some r" by blast
  have "?Q x limit window d envs w r"
  proof (rule deliveries_receive.raw_induct [of ?Q "(((((x, limit), window), d), envs), w)" r, simplified prod.case])
    fix rec x limit d w r and window :: "duration option" and envs :: "('a world \<Rightarrow> 'a world) list"
    assume IH: "\<And>x limit window d envs w r. rec x limit window d envs w = Some r \<Longrightarrow> ?Q x limit window d envs w r"
      and run: "(case receive_check limit window d w of (t, w1) \<Rightarrow>
        (case t of
           Park \<Rightarrow> (case envs of [] \<Rightarrow> Some (Pending, [], w1) | env # rest \<Rightarrow> rec x limit window d rest (env w1))
         | TakeAfter span \<Rightarrow>
             (case envs of [] \<Rightarrow> Some (Pending, [], w1)
              | env # rest \<Rightarrow> (case receive_take x limit d (env w1) of (ms, w2) \<Rightarrow>
                   if ms = [] then rec x limit window d rest w2 else Some (Ready ms, rest, w2)))
         | TakeNow \<Rightarrow> (case receive_take x limit d w1 of (ms, w2) \<Rightarrow>
              if ms = [] then rec x limit window d envs w2 else Some (Ready ms, envs, w2)))) = Some r"
    show "?Q x limit window d envs w r"
    proof
      assume "self_spent_world x limit window d w"
      then obtain w1 w2 where "receive_check limit window d w = (TakeNow, w1)"
        "receive_take x limit d w1 = ([], w2)" "self_spent_world x limit window d w2"
        using self_spent_turn by blast
      with run IH show False by fastforce
    qed
  qed (rule r)
  with assms show False by simp
qed

text \<open>C15: a queue declared its own dead-letter queue can stop its subscription. Once every visible
  message of a group not held back has used the receives the policy allows, and there is such a
  message, every receive carries them back to the queue they came from and finds them receivable
  again: the loop turns for ever without suspending, whatever its environment would do. So it does
  without a batch window, and with one when there are as many of them as the receive asks for; with
  fewer a receive with a batch window sleeps the window in each turn.\<close>

theorem self_dead_letter_spins:
  assumes "reachable world_init (world_step x) w" and "d \<in> set (w_open w)"
    and "self_spent (bd_queue d) w" and "0 < limit"
    and "window = None \<or> limit \<le> length (filter (not_blocked (blocked_groups (queue_of (w_bus w) (bd_queue d))))
                                       (map snd (q_visible (queue_of (w_bus w) (bd_queue d)))))"
  shows "deliveries_receive x limit window d envs w = None"
  using assms by (intro self_spent_spins) (simp add: self_spent_world_def)

text \<open>A run that gets there: the policy names the queue itself, one receive, the message returned.\<close>

definition self_run :: "(string \<times> bytes) list world" where
  "self_run =
     (let w1 = sample_entered\<lparr>w_bus := snd (bus_set_redrive ''q'' 1 ''q'' (w_bus sample_entered))\<rparr>;
          w2 = w1\<lparr>w_bus := snd (bus_send sample_externals 0 ''q'' ''q'' (sample_outbound ''hi'' None) (w_bus w1))\<rparr>
      in snd (receipt_change_visibility sample_handle 0 (snd (receive_take sample_externals 10 sample_subscription w2))))"

lemma reachable_self_run: "reachable world_init (world_step sample_externals) self_run"
proof -
  define w1 where "w1 = sample_entered\<lparr>w_bus := snd (bus_set_redrive ''q'' 1 ''q'' (w_bus sample_entered))\<rparr>"
  define w2 where "w2 = w1\<lparr>w_bus :=
    snd (bus_send sample_externals 0 ''q'' ''q'' (sample_outbound ''hi'' None) (w_bus w1))\<rparr>"
  define w3 where "w3 = snd (receive_take sample_externals 10 sample_subscription w2)"
  have run: "self_run = snd (receipt_change_visibility sample_handle 0 w3)"
    by (simp only: self_run_def w1_def w2_def w3_def Let_def)
  have "w_now w1 = 0" by (simp add: w1_def sample_facts)
  then have 2: "world_step sample_externals w1 w2"
    unfolding w2_def by (intro world_step.send) (subst \<open>w_now w1 = 0\<close>, rule prod.collapse [symmetric])
  have 1: "world_step sample_externals sample_entered w1"
    unfolding w1_def by (rule world_step.policy) (rule prod.collapse [symmetric])
  have facts: "sample_subscription \<in> set (w_open w2)" "sample_handle \<in> set (w_held w3)"
    unfolding w3_def w2_def w1_def by code_simp+
  have 3: "world_step sample_externals w2 w3"
    unfolding w3_def by (rule world_step.take [OF facts(1)]) (rule prod.collapse [symmetric])
  have "world_step sample_externals w3 self_run"
    unfolding run by (rule world_step.changed [OF facts(2)]) (rule prod.collapse [symmetric])
  with reachable_entered 1 2 3 show ?thesis by (blast intro: reachable.move)
qed

theorem self_dead_letter_spins_witness:
  "fst (bus_set_redrive ''q'' 1 ''q'' (w_bus sample_entered)) = Ok () \<and>
   deliveries_receive sample_externals 10 None sample_subscription [passing] self_run = None"
proof -
  have "fst (bus_set_redrive ''q'' 1 ''q'' (w_bus sample_entered)) = Ok ()"
    "self_spent (bd_queue sample_subscription) self_run" "sample_subscription \<in> set (w_open self_run)" by code_simp+
  then show ?thesis
    using self_dead_letter_spins [OF reachable_self_run, of sample_subscription 10 None] by simp
qed

end
