(* ===== verification/Delivery_Properties.thy ===== *)
theory Delivery_Properties
  imports Wire_Properties Receive_Loop
begin

section \<open>From a send to the subscriber\<close>

text \<open>
  The whole way of a message through the in-process account: the crate's send frames it, the
  account checks and enqueues it, the receive loop hands it over, and the delivery is decoded. A
  producer's contract with a queue is the locale \<open>end_of_line\<close>: what it sends joins the end of the
  line, so that a run of sends is served in order; the queue's own sends meet it here, a topic's
  publishes in Topic\_Delivery. And how the harness's questions about a destination are answered,
  and a handle that is never let go.
\<close>

subsection \<open>A message alone on its queue\<close>

definition fresh_message :: "nat \<Rightarrow> outbound \<Rightarrow> stored" where
  "fresh_message n ob = \<lparr>st_seq = n, st_outbound = ob, st_receives = 0\<rparr>"

lemma open_subscription:
  assumes "reachable world_init (world_step x) w" and "d \<in> set (w_open w)"
  shows "q_subscriptions (queue_of (w_bus w) (bd_queue d)) \<noteq> 0"
proof -
  have "subscribers_ok w"
    by (rule world_okD(5) [OF account.reachable_inv [OF assms(1)]])
  moreover have "d \<in> set (filter (\<lambda>d'. bd_queue d' = bd_queue d) (w_open w))"
    using assms(2) by simp
  ultimately show ?thesis unfolding subscribers_ok_def by (metis length_pos_if_in_set less_numeral_extra(3))
qed

subsection \<open>What a handler gets\<close>

text \<open>The group a FIFO send resolves to, and a delivery that is a message: its payload, a receive
  count of one, every header with its value, and on a FIFO queue the group as the partition key.\<close>

definition ladder_group :: "'h externals \<Rightarrow> 'h \<Rightarrow> publish_options option \<Rightarrow> string option \<Rightarrow> string" where
  "ladder_group x headers options grp =
     (case or_else (or_else (Option.bind options group_id)
             (map_option from_utf8_lossy (hm_get x headers PARTITION_KEY_HEADER))) grp of
        None \<Rightarrow> ''default'' | Some g \<Rightarrow> g)"

definition is_delivered ::
    "'h externals \<Rightarrow> string option option \<Rightarrow> 'h outgoing \<Rightarrow> ('h, 'r) sqs_message \<Rightarrow> bool" where
  "is_delivered x grp msg m \<longleftrightarrow> sm_payload m = og_payload msg \<and> redelivery_count m = Some 1 \<and>
     (\<forall>n. hm_get x (sm_headers m) n =
        (if n = RECEIVE_COUNT_HEADER then Some ''1''
         else if n = PARTITION_KEY_HEADER \<and> grp \<noteq> None then the grp
         else hm_get x (og_headers msg) n))"

lemma frame_settings:
  assumes "externals_ok x" and "frame x pid seq d True payload headers options grp = (Ok ob, seq')"
  obtains s where "ob_fifo ob = Some s" "fifo_group s = ladder_group x headers options grp"
    "Option.bind options deduplication_id = None \<Longrightarrow> fifo_deduplication s = dedup_id pid seq \<and> seq' = Suc seq"
proof -
  have hm: "header_map_ok x" and bld: "builder_ok x" using assms(1) by (auto simp: externals_ok_def)
  from assms(2) obtain marker attributes key where f:
    "encode_attributes x headers marker True d = Ok (attributes, key)"
    "fifo_settings pid seq d True options key grp = (Ok (ob_fifo ob), seq')" by (rule frame_Ok)
  have key: "key = map_option from_utf8_lossy (hm_get x headers PARTITION_KEY_HEADER)"
    using f(1) unfolding encode_attributes_eq [OF bld iter_distinct [OF hm]] get_iter [OF hm]
    by (simp split: if_splits)
  from fifo_settings_fifo [of pid seq d options key grp] f(2) that show thesis
    by (auto simp: ladder_group_def key)
qed

lemma frame_ids:
  assumes "externals_ok x" and "frame x pid seq d fifo payload headers options grp = (Ok ob, seq')"
    and "Option.bind options deduplication_id = None"
  shows "ob_fifo ob = Some t \<Longrightarrow> fifo \<and> fifo_deduplication t = dedup_id pid seq" and "fifo \<Longrightarrow> seq' = Suc seq"
proof -
  have plain: "\<not> fifo \<Longrightarrow> ob_fifo ob = None" using frame_fifo [OF assms(2)] by simp
  have "\<exists>s. ob_fifo ob = Some s \<and> fifo_deduplication s = dedup_id pid seq \<and> seq' = Suc seq" if fifo
  proof -
    from assms(2) that have "frame x pid seq d True payload headers options grp = (Ok ob, seq')" by simp
    from frame_settings [OF assms(1) this] assms(3) show ?thesis by metis
  qed
  with plain show "ob_fifo ob = Some t \<Longrightarrow> fifo \<and> fifo_deduplication t = dedup_id pid seq" and "fifo \<Longrightarrow> seq' = Suc seq"
    by (cases fifo; force)+
qed

text \<open>A delivery of a message received for the first time, under the settings it arrived with.\<close>

lemma first_delivery:
  assumes "externals_ok x"
    and framed: "frame x pid seq (og_name msg) fifo (og_payload msg) (og_headers msg) options grp = (Ok ob, seq')"
    and "settings \<noteq> None \<Longrightarrow> fifo"
  shows "is_delivered x (if fifo then Some (map_option fifo_group settings) else None) msg
    (delivery_of x d (handed now r (counted (fresh_message n (ob\<lparr>ob_fifo := settings\<rparr>)))))" (is "is_delivered _ _ _ ?m")
proof -
  let ?ob = "ob\<lparr>ob_fifo := settings\<rparr>"
  have wire: "rc_message (handed now r (counted (fresh_message n ?ob))) = wire_message ?ob (Some r) (Some 1)" (is "_ = ?wire")
    by (simp add: handed_def counted_def fresh_message_def u32_saturating_add_def U32_MAX_def)
  have one: "show_nat 1 = ''1''" "parse_uint U32_MAX (trim ''1'') = Some 1" by code_simp+
  have "sm_payload ?m = fst (decode_message x ?wire)" "sm_headers ?m = snd (decode_message x ?wire)"
    "redelivery_count ?m = Some 1"
    using one by (simp_all add: delivery_of_def wire new_message_def split_beta redelivery_count_def receives_of_def
        wire_message_def Let_def)
  with frame_decodes_as [OF assms(1) framed prod.collapse [symmetric] assms(3), where receipt = "Some r" and receives = "Some 1"] one(1)
  show ?thesis by (simp add: is_delivered_def)
qed

subsection \<open>A send joins the end of the line\<close>

lemma btree_insert_end: "\<forall>e \<in> set m. fst e < k \<Longrightarrow> btree_insert k v m = m @ [(k, v)]"
  by (induction k v m rule: btree_insert.induct) (auto simp: not_less_iff_gr_or_eq)

lemma unseen_id:
  assumes "map_of seen i = None"
  obtains seen' where "seen_within_window now i seen = (False, seen')"
    "\<And>j. j \<noteq> i \<Longrightarrow> map_of seen j = None \<Longrightarrow> map_of seen' j = None"
proof -
  let ?kept = "filter (\<lambda>e. now - snd e < DEDUPLICATION_WINDOW) seen"
  have none: "map_of seen j = None \<Longrightarrow> map_of ?kept j = None" for j by (auto simp: map_of_eq_None_iff)
  from none [OF assms] have "seen_within_window now i seen = (False, hash_insert i now ?kept)"
    by (simp add: seen_within_window_def Let_def)
  with none that show thesis by (simp add: hash_insert_def update_conv')
qed

text \<open>A queue with one message more at the end of its line, whatever it notified and remembers.\<close>

definition joined :: "nat \<times> stored \<Rightarrow> bus_queue \<Rightarrow> bus_queue \<Rightarrow> bool" where
  "joined e q q' \<longleftrightarrow> (\<exists>j seen. q' = q\<lparr>q_visible := q_visible q @ [e], q_notify := j, q_dedup := seen\<rparr>)"

text \<open>A delivery under an id the queue does not remember joins the line, and leaves the table without
  every other id it did not hold.\<close>

lemma deliver_joins:
  assumes "bus_ok c b" and "q_subscriptions (queue_of b k) \<noteq> 0"
    and "\<And>s. ob_fifo ob = Some s \<Longrightarrow> map_of (q_dedup (queue_of b k)) (fifo_deduplication s) = None"
  shows "joined (bus_next_id b, fresh_message (bus_next_id b) ob) (queue_of b k) (queue_of (deliver now k ob b) k)" (is ?joins)
    and "map_of (q_dedup (queue_of b k)) i = None \<Longrightarrow> \<forall>s. ob_fifo ob = Some s \<longrightarrow> i \<noteq> fifo_deduplication s \<Longrightarrow>
       map_of (q_dedup (queue_of (deliver now k ob b) k)) i = None" (is "?unseen \<Longrightarrow> ?other \<Longrightarrow> ?still")
proof -
  let ?q = "queue_of b k"
  have "\<forall>e \<in> set (q_visible ?q). fst e < bus_next_id b"
    using bus_okD [OF assms(1), of k] by (simp add: queue_ok_def)
  note end_of = btree_insert_end [OF this]
  have "?joins \<and> (?unseen \<longrightarrow> ?other \<longrightarrow> ?still)"
  proof (cases "ob_fifo ob")
    case None
    then have "queue_of (deliver now k ob b) k = ?q
      \<lparr>q_visible := q_visible ?q @ [(bus_next_id b, fresh_message (bus_next_id b) ob)], q_notify := q_notify ?q + 1\<rparr>"
      using assms(2)
      by (simp add: deliver_def deliver_fresh_def enqueue_def fresh_message_def Let_def queue_of_put end_of)
    then show ?thesis
      by (auto simp: joined_def intro!: exI [of _ "q_notify ?q + 1"] exI [of _ "q_dedup ?q"])
  next
    case (Some s)
    from unseen_id [OF assms(3) [OF Some], of now] obtain seen where
      seen: "seen_within_window now (fifo_deduplication s) (q_dedup ?q) = (False, seen)"
      "\<And>j. j \<noteq> fifo_deduplication s \<Longrightarrow> map_of (q_dedup ?q) j = None \<Longrightarrow> map_of seen j = None" by blast
    have "queue_of (deliver now k ob b) k = ?q
      \<lparr>q_visible := q_visible ?q @ [(bus_next_id b, fresh_message (bus_next_id b) ob)],
       q_notify := q_notify ?q + 1, q_dedup := seen\<rparr>"
      using assms(2) Some seen(1)
      by (simp add: deliver_def deliver_fresh_def enqueue_def fresh_message_def Let_def queue_of_put end_of)
    with seen(2) Some show ?thesis
      by (auto simp: joined_def)
  qed
  then show ?joins and "?unseen \<Longrightarrow> ?other \<Longrightarrow> ?still" by blast+
qed

subsection \<open>A run of sends\<close>

text \<open>Sends one after another, each answered with success; \<open>send\<close> is the transport's send or its
  publish to a topic.\<close>

fun send_each ::
    "('h outgoing \<Rightarrow> publish_options option \<Rightarrow> string option \<Rightarrow> 's \<Rightarrow> (sqs_error, unit) rresult \<times> 's) \<Rightarrow> string option
      \<Rightarrow> ('h outgoing \<times> publish_options option) list \<Rightarrow> 's \<Rightarrow> 's option" where
  "send_each send grp [] st = Some st"
| "send_each send grp ((msg, options) # ms) st =
     (case send msg options grp st of
        (Inl _, _) \<Rightarrow> None
      | (Inr _, st') \<Rightarrow> send_each send grp ms st')"

text \<open>A message as a send leaves it on a queue: framed, with the FIFO settings where the queue
  keeps them.\<close>

definition framed_as ::
    "'h externals \<Rightarrow> nat \<Rightarrow> bool \<Rightarrow> bool \<Rightarrow> string option \<Rightarrow> 'h outgoing \<times> publish_options option \<Rightarrow> stored \<Rightarrow> bool" where
  "framed_as x pid fifo keeps grp e s \<longleftrightarrow> (\<exists>seq seq' n ob.
     s = fresh_message n (ob\<lparr>ob_fifo := if keeps then ob_fifo ob else None\<rparr>) \<and>
     frame x pid seq (og_name (fst e)) fifo (og_payload (fst e)) (og_headers (fst e)) (snd e) grp = (Ok ob, seq'))"

text \<open>What a queue promises a producer: a send it takes joins the end of the queue's line, and
  leaves the account fit for the next.\<close>

locale end_of_line =
  fixes x :: "'h externals" and pid :: nat
    and send :: "'h outgoing \<Rightarrow> publish_options option \<Rightarrow> string option \<Rightarrow> nat \<times> 'h bus \<Rightarrow> (sqs_error, unit) rresult \<times> (nat \<times> 'h bus)"
    and k :: string and named :: "string \<Rightarrow> bool" and fits :: "nat \<times> 'h bus \<Rightarrow> bool" and fifo :: bool and keeps :: bool
  assumes send_keeps: "fits st \<Longrightarrow> named (og_name msg) \<Longrightarrow> Option.bind options deduplication_id = None \<Longrightarrow>
      send msg options grp st = (Ok u, st') \<Longrightarrow> fits st'"
    and send_joins: "fits st \<Longrightarrow> named (og_name msg) \<Longrightarrow> Option.bind options deduplication_id = None \<Longrightarrow>
      send msg options grp st = (Ok u, st') \<Longrightarrow>
      \<exists>s. framed_as x pid fifo keeps grp (msg, options) s \<and> joined (st_seq s, s) (queue_of (snd st) k) (queue_of (snd st') k)"
begin

lemma send_each_line:
  assumes "fits st" and "\<forall>e \<in> set ms. named (og_name (fst e)) \<and> Option.bind (snd e) deduplication_id = None"
    and "send_each send grp ms st = Some st'"
  shows "\<exists>ss j seen. queue_of (snd st') k = (queue_of (snd st) k)
      \<lparr>q_visible := q_visible (queue_of (snd st) k) @ map (\<lambda>s. (st_seq s, s)) ss, q_notify := j, q_dedup := seen\<rparr> \<and>
    list_all2 (framed_as x pid fifo keeps grp) ms ss"
  using assms
proof (induction ms arbitrary: st)
  case Nil
  then show ?case
    by (intro exI [of _ "[]"] exI [of _ "q_notify (queue_of (snd st) k)"] exI [of _ "q_dedup (queue_of (snd st) k)"]) simp
next
  case (Cons e ms)
  obtain msg options where e: "e = (msg, options)" by (cases e)
  from Cons.prems(3) obtain u st1 where one: "send msg options grp st = (Ok u, st1)"
    and rest: "send_each send grp ms st1 = Some st'"
    by (auto simp: e split: prod.splits sum.splits)
  have own: "named (og_name msg)" "Option.bind options deduplication_id = None" using Cons.prems(2) by (simp_all add: e)
  from send_joins [OF Cons.prems(1) own one] obtain s j seen where s: "framed_as x pid fifo keeps grp e s"
    and q1: "queue_of (snd st1) k = (queue_of (snd st) k)
      \<lparr>q_visible := q_visible (queue_of (snd st) k) @ [(st_seq s, s)], q_notify := j, q_dedup := seen\<rparr>"
    by (auto simp: e joined_def)
  from Cons.IH [OF send_keeps [OF Cons.prems(1) own one] _ rest] Cons.prems(2)
  obtain ss j' seen' where "queue_of (snd st') k = (queue_of (snd st1) k)
      \<lparr>q_visible := q_visible (queue_of (snd st1) k) @ map (\<lambda>s. (st_seq s, s)) ss, q_notify := j', q_dedup := seen'\<rparr>"
    "list_all2 (framed_as x pid fifo keeps grp) ms ss" by auto
  with s q1 show ?case by (intro exI [of _ "s # ss"] exI [of _ j'] exI [of _ seen']) simp
qed

end

lemma send_each_reachable:
  assumes "reachable world_init (world_step x) w"
    and "send_each send grp ms (seq, w_bus w) = Some (seq', b')"
    and steps: "\<And>w' msg options seq u seq1 b1. w_now w' = w_now w \<Longrightarrow>
      send msg options grp (seq, w_bus w') = (Ok u, (seq1, b1)) \<Longrightarrow> world_step x w' (w'\<lparr>w_bus := b1\<rparr>)"
  shows "reachable world_init (world_step x) (w\<lparr>w_bus := b'\<rparr>)"
  using assms(1,2) steps
proof (induction ms arbitrary: seq w)
  case (Nil seq w)
  then show ?case by (cases w) simp
next
  case (Cons e ms)
  obtain msg options where e: "e = (msg, options)" by (cases e)
  from Cons.prems(2) obtain u seq1 b1 where one: "send msg options grp (seq, w_bus w) = (Ok u, (seq1, b1))"
    and rest: "send_each send grp ms (seq1, b1) = Some (seq', b')"
    by (auto simp: e split: prod.splits sum.splits)
  from reachable.move [OF Cons.prems(1) Cons.prems(3) [OF refl one]] rest Cons.prems(3)
  have "reachable world_init (world_step x) ((w\<lparr>w_bus := b1\<rparr>)\<lparr>w_bus := b'\<rparr>)"
    by (intro Cons.IH [of _ seq1]) simp_all
  then show ?case by simp
qed

subsection \<open>The queue's own sends\<close>

text \<open>A deduplication table holds none of the ids this process has yet to generate.\<close>

definition ids_unseen :: "nat \<Rightarrow> nat \<Rightarrow> (string \<times> instant) list \<Rightarrow> bool" where
  "ids_unseen pid seq seen \<longleftrightarrow> (\<forall>n \<ge> seq. map_of seen (dedup_id pid n) = None)"

lemma ids_unseen_next:
  "ids_unseen pid seq seen \<Longrightarrow> (\<And>i. map_of seen i = None \<Longrightarrow> i \<noteq> dedup_id pid seq \<Longrightarrow> map_of seen' i = None) \<Longrightarrow>
   ids_unseen pid (Suc seq) seen'"
  by (simp add: ids_unseen_def dedup_id_inject)

text \<open>A framed message, or the copy of it without FIFO settings, joins the line.\<close>

lemma copy_joins:
  assumes "externals_ok x"
    and framed: "frame x pid seq (og_name msg) fifo (og_payload msg) (og_headers msg) options grp = (Ok ob, seq')"
    and "Option.bind options deduplication_id = None" and "keeps \<Longrightarrow> fifo"
    and "bus_ok c b" and "q_subscriptions (queue_of b k) \<noteq> 0"
    and unseen: "keeps \<Longrightarrow> ids_unseen pid seq (q_dedup (queue_of b k))"
    and b': "b' = deliver now k (ob\<lparr>ob_fifo := if keeps then ob_fifo ob else None\<rparr>) b" (is "_ = deliver now k ?copy b")
  shows "\<exists>s. framed_as x pid fifo keeps grp (msg, options) s \<and> joined (st_seq s, s) (queue_of b k) (queue_of b' k)"
    and "keeps \<Longrightarrow> ids_unseen pid seq' (q_dedup (queue_of b' k))"
proof -
  have ids: "ob_fifo ob = Some t \<Longrightarrow> fifo_deduplication t = dedup_id pid seq" "seq' = Suc seq" if keeps for t
    using frame_ids [OF assms(1) framed assms(3)] assms(4) [OF that] by auto
  have new: "map_of (q_dedup (queue_of b k)) (fifo_deduplication t) = None" if "ob_fifo ?copy = Some t" for t
    using that unseen ids(1) by (simp add: ids_unseen_def split: if_splits)
  note joins = deliver_joins [OF assms(5,6), where ob = ?copy and now = now, OF new]
  have "framed_as x pid fifo keeps grp (msg, options) (fresh_message (bus_next_id b) ?copy)"
    using framed unfolding framed_as_def fst_conv snd_conv by metis
  with joins(1) show "\<exists>s. framed_as x pid fifo keeps grp (msg, options) s \<and> joined (st_seq s, s) (queue_of b k) (queue_of b' k)"
    unfolding b' by (intro exI [of _ "fresh_message (bus_next_id b) ?copy"]) (simp add: fresh_message_def)
  show "ids_unseen pid seq' (q_dedup (queue_of b' k))" if keeps
    unfolding ids(2) [OF that] b'
    by (rule ids_unseen_next [OF unseen [OF that]], rule joins(2)) (use ids(1) that in auto)
qed

definition line_ready :: "'h externals \<Rightarrow> instant \<Rightarrow> nat \<Rightarrow> string \<Rightarrow> nat \<times> 'h bus \<Rightarrow> bool" where
  "line_ready x c pid k st \<longleftrightarrow> externals_ok x \<and> bus_ok c (snd st) \<and> q_subscriptions (queue_of (snd st) k) \<noteq> 0 \<and>
     (is_fifo k \<longrightarrow> ids_unseen pid (fst st) (q_dedup (queue_of (snd st) k)))"

lemma send_at_end:
  assumes "line_ready x c pid k (seq, b)" and "queue_key (og_name msg) = Ok k" and "Option.bind options deduplication_id = None"
    and "in_process_send x pid now msg options grp (seq, b) = (Ok u, (seq', b'))"
  shows "line_ready x c pid k (seq', b') \<and>
    (\<exists>s. framed_as x pid (is_fifo k) (is_fifo k) grp (msg, options) s \<and> joined (st_seq s, s) (queue_of b k) (queue_of b' k))"
proof -
  have ext: "externals_ok x" and ok: "bus_ok c b" and open_k: "q_subscriptions (queue_of b k) \<noteq> 0"
    and fresh: "is_fifo k \<Longrightarrow> ids_unseen pid seq (q_dedup (queue_of b k))"
    using assms(1) by (simp_all add: line_ready_def)
  obtain ob where framed: "frame x pid seq (og_name msg) (is_fifo k) (og_payload msg) (og_headers msg) options grp = (Ok ob, seq')"
    and sent: "bus_send x now (og_name msg) k ob b = (Ok (), b')"
    using assms(2,4) by (auto simp: in_process_send_def Let_def split: prod.splits sum.splits)
  let ?log = "push_log (og_name msg) (log_entry x (og_name msg) ob) b"
  have copy: "ob\<lparr>ob_fifo := if is_fifo k then ob_fifo ob else None\<rparr> = ob" using frame_fifo [OF framed] by (cases ob) auto
  have b': "b' = deliver now k (ob\<lparr>ob_fifo := if is_fifo k then ob_fifo ob else None\<rparr>) ?log"
    using sent unfolding copy by (auto simp: bus_send_def split: sum.splits if_splits)
  note joins = copy_joins [OF ext framed assms(3) _ _ _ _ b', of c]
  have "bus_ok c b'"
    using keeps_traffic_ok [OF bus_send_keeps [OF ok], of x now "og_name msg" k ob] sent by simp
  then show ?thesis
    using joins ext ok open_k fresh by (auto simp: line_ready_def joined_def)
qed

interpretation own: end_of_line x pid "in_process_send x pid now" k "\<lambda>n. queue_key n = Ok k"
    "line_ready x c pid k" "is_fifo k" "is_fifo k" for x pid now k c
proof
  fix st st' msg options grp u
  assume "line_ready x c pid k st" "queue_key (og_name msg) = Ok k" "Option.bind options deduplication_id = None"
    "in_process_send x pid now msg options grp st = (Ok u, st')"
  with send_at_end [of x c pid k "fst st" "snd st" msg options now grp u "fst st'" "snd st'"]
  show "line_ready x c pid k st'" and "\<exists>s. framed_as x pid (is_fifo k) (is_fifo k) grp (msg, options) s \<and>
      joined (st_seq s, s) (queue_of (snd st) k) (queue_of (snd st') k)" by simp_all
qed

lemma send_moves:
  assumes "in_process_send x pid (w_now w) msg options grp (seq, w_bus w) = (Ok u, (seq1, b1))"
  shows "world_step x w (w\<lparr>w_bus := b1\<rparr>)"
proof -
  from assms obtain key ob where "bus_send x (w_now w) (og_name msg) key ob (w_bus w) = (Ok (), b1)"
    by (auto simp: in_process_send_def Let_def split: prod.splits sum.splits)
  then show ?thesis by (rule world_step.send)
qed

subsection \<open>The line is served in order\<close>

text \<open>The partition key a delivery of a message framed for a FIFO destination carries.\<close>

definition partition_key_of ::
    "'h externals \<Rightarrow> bool \<Rightarrow> bool \<Rightarrow> string option \<Rightarrow> 'h outgoing \<times> publish_options option \<Rightarrow> string option option" where
  "partition_key_of x fifo keeps grp e =
     (if fifo then Some (if keeps then Some (ladder_group x (og_headers (fst e)) (snd e) grp) else None) else None)"

lemma framed_delivery:
  assumes "externals_ok x" and "framed_as x pid fifo keeps grp e s" and "keeps \<Longrightarrow> fifo"
  shows "is_delivered x (partition_key_of x fifo keeps grp e) (fst e) (delivery_of x d (handed now r (counted s)))"
proof -
  from assms(2) obtain seq seq' n ob where
    s: "s = fresh_message n (ob\<lparr>ob_fifo := if keeps then ob_fifo ob else None\<rparr>)"
    and framed: "frame x pid seq (og_name (fst e)) fifo (og_payload (fst e)) (og_headers (fst e)) (snd e) grp = (Ok ob, seq')"
    unfolding framed_as_def by blast
  have "partition_key_of x fifo keeps grp e =
      (if fifo then Some (map_option fifo_group (if keeps then ob_fifo ob else None)) else None)"
  proof (cases fifo)
    case True
    with framed have "frame x pid seq (og_name (fst e)) True (og_payload (fst e)) (og_headers (fst e)) (snd e) grp = (Ok ob, seq')"
      by simp
    from frame_settings [OF assms(1) this] obtain t where
      "ob_fifo ob = Some t" "fifo_group t = ladder_group x (og_headers (fst e)) (snd e) grp" by blast
    with True show ?thesis by (simp add: partition_key_of_def)
  qed (simp add: partition_key_of_def)
  moreover have "(if keeps then ob_fifo ob else None) \<noteq> None \<Longrightarrow> fifo" using assms(3) by (simp split: if_splits)
  note first_delivery [OF assms(1) framed this, where d = d and now = now and r = r and n = n]
  ultimately show ?thesis unfolding s by (simp only:)
qed

lemma line_is_delivered:
  assumes "externals_ok x" and "reachable world_init (world_step x) w" and "d \<in> set (w_open w)"
    and line: "map snd (q_visible (queue_of (w_bus w) (bd_queue d))) = ss"
    and framed: "list_all2 (framed_as x pid fifo keeps grp) ms ss" and "keeps \<Longrightarrow> fifo"
    and idle: "keeps \<Longrightarrow> q_in_flight (queue_of (w_bus w) (bd_queue d)) = []"
    and redrive: "\<forall>rd. q_redrive (queue_of (w_bus w) (bd_queue d)) = Some rd \<longrightarrow> 0 < rt_max rd"
    and "0 < limit" and "ms \<noteq> []"
    and window: "window = None \<or> limit \<le> length ms"
  shows "\<exists>ds w'. deliveries_receive x limit window d envs w = Some (Ready ds, envs, w') \<and>
    list_all2 (\<lambda>e m. is_delivered x (partition_key_of x fifo keeps grp e) (fst e) m) (take limit ms) ds"
proof -
  let ?k = "bd_queue d" let ?q = "queue_of (w_bus w) ?k"
  have free: "not_blocked (blocked_groups ?q) s \<and> exhausted ?q s = None" if "s \<in> set ss" for s
  proof -
    from that framed obtain e where "framed_as x pid fifo keeps grp e s"
      by (metis in_set_conv_nth list_all2_conv_all_nth)
    then have "st_receives s = 0" "\<not> keeps \<Longrightarrow> group_of s = None"
      by (auto simp: framed_as_def fresh_message_def group_of_def)
    with idle redrive show ?thesis
      by (cases keeps) (auto simp: exhausted_def not_blocked_def blocked_groups_def List.map_filter_simps split: option.split)
  qed
  have ne: "ss \<noteq> []" using framed \<open>ms \<noteq> []\<close> by auto
  let ?b = "put_queue ?k ?q (w_bus w)" let ?w = "w\<lparr>w_bus := ?b\<rparr>"
  have "filter (not_blocked (blocked_groups ?q)) ss = ss" using free by (simp add: filter_id_conv)
  then have "bus_receivable ?k limit (w_bus w) = (length (take limit ss), ?b)"
    by (simp only: bus_receivable_def Let_def line)
  then have check: "receive_check limit window d w = (TakeNow, ?w)"
    using \<open>0 < limit\<close> ne window list_all2_lengthD [OF framed] by (auto simp: receive_check_def split: option.split)
  have reach: "reachable world_init (world_step x) ?w"
    by (rule reachable.move [OF assms(2) world_step.check [OF assms(3) check]])
  obtain rs b2 where recv: "bus_receive x (w_now w) ?k limit ?b = (rs, b2)" by fastforce
  have q: "queue_of ?b ?k = ?q" by (simp add: queue_of_put)
  have "filter (\<lambda>s. not_blocked (blocked_groups ?q) s \<and> exhausted ?q s = None) ss = ss"
    using free by (simp add: filter_id_conv)
  then have rs: "rs = map (\<lambda>(i, s). handed (w_now w) i (counted s)) (enumerate (bus_next_id ?b) (take limit ss))"
    using receive_first [OF reach, of "w_now w" ?k limit rs b2] recv by (simp add: Let_def q line)
  let ?ds = "map (delivery_of x d) rs"
  obtain w2 where take: "receive_take x limit d ?w = (?ds, w2)"
    using recv by (simp add: receive_take_def)
  have "rs \<noteq> []" using rs ne \<open>0 < limit\<close> by (auto simp: enumerate_eq_zip)
  then have "deliveries_receive x limit window d envs w = Some (Ready ?ds, envs, w2)"
    using check take by (subst deliveries_receive.simps) simp
  moreover have "list_all2 (\<lambda>e m. is_delivered x (partition_key_of x fifo keeps grp e) (fst e) m) (take limit ms) ?ds"
  proof (rule list_all2_all_nthI)
    have len: "length ms = length ss" by (rule list_all2_lengthD [OF framed])
    then show "length (take limit ms) = length ?ds" by (simp add: rs)
    fix i assume i: "i < length (take limit ms)"
    then have "framed_as x pid fifo keeps grp (take limit ms ! i) (take limit ss ! i)"
      using framed len by (simp add: list_all2_conv_all_nth)
    from framed_delivery [OF assms(1) this assms(6)] i len
    show "is_delivered x (partition_key_of x fifo keeps grp (take limit ms ! i)) (fst (take limit ms ! i)) (?ds ! i)"
      by (simp add: rs nth_enumerate_eq)
  qed
  ultimately show ?thesis by blast
qed

lemma sends_in_order:
  assumes "externals_ok x" and "reachable world_init (world_step x) w" and "d \<in> set (w_open w)"
    and "\<forall>e \<in> set ms. queue_key (og_name (fst e)) = Ok (bd_queue d) \<and> Option.bind (snd e) deduplication_id = None"
    and "q_visible (queue_of (w_bus w) (bd_queue d)) = []"
    and "is_fifo (bd_queue d) \<Longrightarrow> q_in_flight (queue_of (w_bus w) (bd_queue d)) = [] \<and>
      ids_unseen pid seq (q_dedup (queue_of (w_bus w) (bd_queue d)))"
    and "\<forall>rd. q_redrive (queue_of (w_bus w) (bd_queue d)) = Some rd \<longrightarrow> 0 < rt_max rd"
    and "send_each (in_process_send x pid (w_now w)) grp ms (seq, w_bus w) = Some (seq', b')" and "0 < limit" and "ms \<noteq> []"
    and "window = None \<or> limit \<le> length ms"
  shows "\<exists>ds w'. deliveries_receive x limit window d envs (w\<lparr>w_bus := b'\<rparr>) = Some (Ready ds, envs, w') \<and>
    list_all2 (\<lambda>e m. is_delivered x (partition_key_of x (is_fifo (bd_queue d)) (is_fifo (bd_queue d)) grp e) (fst e) m)
      (take limit ms) ds"
proof -
  let ?k = "bd_queue d" let ?q = "queue_of (w_bus w) ?k"
  have "world_ok w" by (rule account.reachable_inv [OF assms(2)])
  then have "line_ready x (w_now w) pid ?k (seq, w_bus w)"
    using world_okD(1) [of w] open_subscription [OF assms(2,3)] assms(1,6) by (simp add: line_ready_def)
  from own.send_each_line [OF this assms(4,8)]
  obtain ss j seen where
    q: "queue_of b' ?k = ?q\<lparr>q_visible := map (\<lambda>s. (st_seq s, s)) ss, q_notify := j, q_dedup := seen\<rparr>"
    and framed: "list_all2 (framed_as x pid (is_fifo ?k) (is_fifo ?k) grp) ms ss"
    using assms(5) by auto
  show ?thesis
    by (rule line_is_delivered [OF assms(1) send_each_reachable [OF assms(2) assms(8) send_moves] _ _ framed])
      (use q assms(6,7,9-11) assms(3) in \<open>simp_all add: comp_def\<close>)
qed

text \<open>C7: what is sent is handled, in the order it was sent. On an open queue with nothing visible, a
  run of sends the crate answers with success is what the subscription's next receive returns, as
  many as it asked for, at once and in the order they were sent: each payload byte for byte, every
  header with its value, a receive count of one both as the header the crate adds and as the
  redelivery count, and on a FIFO queue the group each send resolved to as its partition key. The
  conditions: no send names a deduplication id of its own; a redrive policy of the queue, if any,
  allows at least one receive; on a FIFO queue nothing is in flight and the ids the crate is about to
  generate are new to the queue; and the receive has no batch window, or at least as many were sent
  as it asks for.\<close>

theorem all_sent_in_order:
  assumes "externals_ok x" and "reachable world_init (world_step x) w" and "d \<in> set (w_open w)"
    and "\<forall>e \<in> set ms. queue_key (og_name (fst e)) = Ok (bd_queue d) \<and> Option.bind (snd e) deduplication_id = None"
    and "q_visible (queue_of (w_bus w) (bd_queue d)) = []"
    and "is_fifo (bd_queue d) \<Longrightarrow> q_in_flight (queue_of (w_bus w) (bd_queue d)) = [] \<and>
      ids_unseen pid seq (q_dedup (queue_of (w_bus w) (bd_queue d)))"
    and "\<forall>rd. q_redrive (queue_of (w_bus w) (bd_queue d)) = Some rd \<longrightarrow> 0 < rt_max rd"
    and "send_each (in_process_send x pid (w_now w)) grp ms (seq, w_bus w) = Some (seq', b')" and "0 < limit" and "ms \<noteq> []"
    and "window = None \<or> limit \<le> length ms"
  shows "\<exists>ds w'. deliveries_receive x limit window d envs (w\<lparr>w_bus := b'\<rparr>) = Some (Ready ds, envs, w') \<and>
    list_all2 (\<lambda>e m. is_delivered x (partition_key_of x (is_fifo (bd_queue d)) (is_fifo (bd_queue d)) grp e) (fst e) m)
      (take limit ms) ds"
  by (rule sends_in_order [OF assms])

text \<open>Two sends of one group: the first named it by its partition key, the second by its options.\<close>

definition line_world :: "(string \<times> bytes) list world" where
  "line_world = snd (deliveries_open ''q.fifo'' (from_secs 30) (Some 3) sample_start)"

definition line_subscription :: bus_deliveries where
  "line_subscription = fst (deliveries_open ''q.fifo'' (from_secs 30) (Some 3) sample_start)"

definition line_messages :: "((string \<times> bytes) list outgoing \<times> publish_options option) list" where
  "line_messages =
     [(\<lparr>og_name = ''q.fifo'', og_payload = ''one'', og_headers = [(''partition-key'', ''g'')]\<rparr>, None),
      (\<lparr>og_name = ''q.fifo'', og_payload = ''two'', og_headers = []\<rparr>, Some (default_options\<lparr>group_id := Some ''g''\<rparr>))]"

lemma reachable_line_world: "reachable world_init (world_step sample_externals) line_world"
proof (rule reachable.move)
  show "reachable world_init (world_step sample_externals) sample_start"
    by (rule reachable.start) (auto simp: world_init_def sample_start_def)
  have "visibility_ok (from_secs 30)" by (simp add: visibility_ok_def duration_defs)
  then show "world_step sample_externals sample_start line_world"
    unfolding line_world_def by (rule world_step.enter) (rule prod.collapse [symmetric])
qed

theorem all_sent_in_order_witness:
  "\<exists>ds w'. deliveries_receive sample_externals 10 None line_subscription []
      (line_world\<lparr>w_bus := snd (the (send_each (in_process_send sample_externals 7 0) None line_messages (0, w_bus line_world)))\<rparr>)
      = Some (Ready ds, [], w') \<and>
    map sm_payload ds = [''one'', ''two''] \<and>
    map (\<lambda>m. map_of (sm_headers m) PARTITION_KEY_HEADER) ds = [Some ''g'', Some ''g'']"
proof -
  have facts: "list_all (\<lambda>e. queue_key (og_name (fst e)) = Ok (bd_queue line_subscription) \<and>
      Option.bind (snd e) deduplication_id = None) line_messages"
    "q_visible (queue_of (w_bus line_world) (bd_queue line_subscription)) = []"
    "q_in_flight (queue_of (w_bus line_world) (bd_queue line_subscription)) = []"
    "q_dedup (queue_of (w_bus line_world) (bd_queue line_subscription)) = []"
    "q_redrive (queue_of (w_bus line_world) (bd_queue line_subscription)) = None"
    "w_open line_world = [line_subscription]" "w_now line_world = 0" "is_fifo (bd_queue line_subscription)"
    "map_option fst (send_each (in_process_send sample_externals 7 0) None line_messages (0, w_bus line_world)) = Some 2"
    "ladder_group sample_externals [(''partition-key'', ''g'')] None None = ''g''"
    "ladder_group sample_externals [] (Some (default_options\<lparr>group_id := Some ''g''\<rparr>)) None = ''g''"
    "RECEIVE_COUNT_HEADER \<noteq> PARTITION_KEY_HEADER"
    by code_simp+
  have ready: "line_subscription \<in> set (w_open line_world)" using facts(6) by simp
  have hm: "hm_get sample_externals = map_of" by (simp add: sample_externals_def)
  obtain b' where sent: "send_each (in_process_send sample_externals 7 (w_now line_world)) None line_messages (0, w_bus line_world) = Some (2, b')"
    using facts(7,9) by auto
  have "\<exists>ds w'. deliveries_receive sample_externals 10 None line_subscription [] (line_world\<lparr>w_bus := b'\<rparr>) = Some (Ready ds, [], w') \<and>
    list_all2 (\<lambda>e m. is_delivered sample_externals (partition_key_of sample_externals (is_fifo (bd_queue line_subscription))
      (is_fifo (bd_queue line_subscription)) None e) (fst e) m) (take 10 line_messages) ds"
    using facts(1-5)
    by (intro all_sent_in_order [OF sample_externals_ok reachable_line_world ready _ _ _ _ sent])
      (auto simp: list_all_iff ids_unseen_def line_messages_def)
  then show ?thesis
    using sent facts(8,10-12)
    by (fastforce simp: line_messages_def list_all2_Cons1 is_delivered_def partition_key_of_def hm facts(7))
qed

text \<open>One send to a standard queue.\<close>

lemma sent_is_delivered:
  assumes "externals_ok x" and "reachable world_init (world_step x) w" and "d \<in> set (w_open w)" and "queue_key (og_name msg) = Ok (bd_queue d)"
    and "\<not> is_fifo (bd_queue d)" and "q_visible (queue_of (w_bus w) (bd_queue d)) = []"
    and "\<forall>rd. q_redrive (queue_of (w_bus w) (bd_queue d)) = Some rd \<longrightarrow> 0 < rt_max rd"
    and "in_process_send x pid (w_now w) msg options grp (seq, w_bus w) = (Ok (), seq', b')" and "0 < limit"
  shows "\<exists>m w'. deliveries_receive x limit None d envs (w\<lparr>w_bus := b'\<rparr>) = Some (Ready [m], envs, w') \<and>
    is_delivered x None msg m"
proof -
  from assms(4,5,8) obtain ob where
    "frame x pid seq (og_name msg) False (og_payload msg) (og_headers msg) options grp = (Ok ob, seq')"
    by (auto simp: in_process_send_def Let_def split: prod.splits sum.splits)
  then have own: "Option.bind options deduplication_id = None"
    by (auto elim!: frame_Ok simp: fifo_settings_standard split: option.splits if_splits)
  have "\<exists>ds w'. deliveries_receive x limit None d envs (w\<lparr>w_bus := b'\<rparr>) = Some (Ready ds, envs, w') \<and>
    list_all2 (\<lambda>e m. is_delivered x (partition_key_of x (is_fifo (bd_queue d)) (is_fifo (bd_queue d)) grp e) (fst e) m)
      (take limit [(msg, options)]) ds"
    by (rule sends_in_order [OF assms(1-3) _ assms(6) _ assms(7) _ assms(9), where pid = pid and seq = seq and seq' = seq'])
      (use assms(4,5,8) own in simp_all)
  with assms(5,9) show ?thesis
    by (cases limit) (auto simp: partition_key_of_def list_all2_Cons1)
qed

subsection \<open>Where the harness says a publish went\<close>

text \<open>The harness's questions about a destination shared by queue and topic publishes are shared
  out as the publishes were. Over any stretch of as many questions as publishes, before the counter
  of questions wraps, exactly the number of queue publishes is answered with the queue and the
  number of topic publishes with the topic, wherever the stretch starts.\<close>

lemma pass_answers_each_publish:
  assumes "map_of (r_publishes r) d = Some t" and "hash_wf (r_publishes r)"
    and "0 < t_queue t + t_topic t" and "unat (t_asked t) + (t_queue t + t_topic t) \<le> 2 ^ 64"
  shows "length (filter (\<lambda>s. s = QueueSurface) (fst (ask (t_queue t + t_topic t) d r))) = t_queue t \<and>
    length (filter (\<lambda>s. s = TopicSurface) (fst (ask (t_queue t + t_topic t) d r))) = t_topic t"
proof -
  let ?m = "t_queue t + t_topic t" and ?a = "unat (t_asked t)"
  let ?is = "[?a ..< ?a + ?m]"
  have ask: "fst (ask ?m d r) = map (turn_surface (t_queue t) ?m) ?is" by (rule ask_surfaces [OF assms])
  have q: "length (filter (\<lambda>i. i mod ?m < t_queue t) ?is) = t_queue t" by (rule period_count_value) simp
  moreover have "length (filter (\<lambda>i. i mod ?m < t_queue t) ?is) + length (filter (\<lambda>i. \<not> i mod ?m < t_queue t) ?is) = ?m"
    using sum_length_filter_compl [of "\<lambda>i. i mod ?m < t_queue t" ?is] by simp
  ultimately have "length (filter (\<lambda>i. \<not> i mod ?m < t_queue t) ?is) = t_topic t" by linarith
  with q show ?thesis unfolding ask by (simp add: filter_map comp_def turn_surface_def)
qed

definition sample_routing :: routing where
  "sample_routing = routing_published ''a'' TopicSurface (routing_published ''a'' QueueSurface
     (routing_published ''a'' QueueSurface empty_routing))"

lemma pass_answers_each_publish_instance:
  "length (filter (\<lambda>s. s = QueueSurface) (fst (ask 3 ''a'' sample_routing))) = 2"
proof -
  have "map_of (r_publishes sample_routing) ''a'' = Some \<lparr>t_queue = 2, t_topic = 1, t_asked = 0\<rparr>"
    "hash_wf (r_publishes sample_routing)"
    by (simp_all add: sample_routing_def empty_routing_def routing_published_def Let_def hash_insert_def
        hash_wf_def empty_tally_def)
  from pass_answers_each_publish [OF this] show ?thesis by simp
qed

subsection \<open>A handle held past the window\<close>

text \<open>No timer runs while a handle is held: a day after the receive the message of a handle still
  held is in flight, and nothing is armed that would return it.\<close>

lemma held_past_the_window:
  "reachable world_init (world_step sample_externals) (sample_taken\<lparr>w_now := from_hours 24\<rparr>) \<and>
   flight (w_bus (sample_taken\<lparr>w_now := from_hours 24\<rparr>)) ''q'' 2 \<noteq> None \<and>
   bus_timers (w_bus (sample_taken\<lparr>w_now := from_hours 24\<rparr>)) = []"
proof -
  have facts: "w_now sample_taken = 0" "flight (w_bus sample_taken) ''q'' 2 \<noteq> None" "bus_timers (w_bus sample_taken) = []"
    by code_simp+
  then have "world_step sample_externals sample_taken (sample_taken\<lparr>w_now := from_hours 24\<rparr>)"
    by (intro world_step.tick) simp
  with reachable.move [OF reachable_taken this] facts show ?thesis by simp
qed

end
