(* ===== verification/Group_Order.thy ===== *)
theory Group_Order
  imports Life_History Delivery_Properties
begin

section \<open>The order of a FIFO group\<close>

text \<open>
  What a FIFO queue promises of a message group: a message is handed over only while no other of
  its group is in flight, and never before an older one that stays visible. Only the take of a
  subscription on the queue puts a message in flight, and a queue is FIFO exactly when its name
  says so, over every reachable account (an interpretation of \<open>bus_invariant\<close>).
\<close>

subsection \<open>A queue is FIFO by its name\<close>

definition kinds_ok :: "'h bus \<Rightarrow> bool" where
  "kinds_ok b \<longleftrightarrow> (\<forall>k. q_fifo (queue_of b k) = is_fifo k)"

lemma enqueue_kind: "q_fifo (queue_of (enqueue key s b) k) = q_fifo (queue_of b k)"
  by (simp add: enqueue_def Let_def queue_of_put)

lemma deliver_kind: "q_fifo (queue_of (deliver now key ob b) k) = q_fifo (queue_of b k)"
  by (simp add: deliver_def deliver_fresh_def enqueue_kind Let_def queue_of_put split: option.split prod.split)

lemma fan_out_kind: "q_fifo (queue_of (fan_out x now ob eps b) k) = q_fifo (queue_of b k)"
  by (induction x now ob eps b rule: fan_out.induct) (simp_all add: Let_def deliver_kind)

lemma redrive_spent_kind: "q_fifo (queue_of (redrive_spent x sp b) k) = q_fifo (queue_of b k)"
  by (induction x sp b rule: redrive_spent.induct) (simp_all add: redrive_one_queue)

lemma requeue_kind: "q_fifo (queue_of (requeue key r e b) k) = q_fifo (queue_of b k)"
  by (simp add: requeue_eq enqueue_kind queue_of_put landed_def)

lemma receive_loop_kind: "q_fifo (fst (receive_loop now bl limit q nid rs sp)) = q_fifo q"
  by (induction now bl limit q nid rs sp rule: receive_loop.induct)
    (subst receive_loop.simps, auto simp: fly_def Let_def split: option.split)

lemma traffic_kind:
  "q_fifo (queue_of (snd (bus_send x now name key ob b)) k) = q_fifo (queue_of b k)"
  "q_fifo (queue_of (snd (bus_publish_topic x now name topic ob b)) k) = q_fifo (queue_of b k)"
  "q_fifo (queue_of (snd (bus_set_redrive key n dl b)) k) = q_fifo (queue_of b k)"
  by (auto simp: bus_send_def bus_publish_topic_def bus_set_redrive_def deliver_kind fan_out_kind Let_def queue_of_put
      split: sum.split option.split prod.split)

lemma queue_kind:
  "q_fifo (queue_of (bus_open key b) k) = q_fifo (queue_of b k)"
  "q_fifo (queue_of (bus_close key b) k) = q_fifo (queue_of b k)"
  "q_fifo (queue_of (snd (bus_receivable key limit b)) k) = q_fifo (queue_of b k)"
  "q_fifo (queue_of (snd (bus_receive x now key limit b)) k) = q_fifo (queue_of b k)"
  "q_fifo (queue_of (bus_delete key r b) k) = q_fifo (queue_of b k)"
  "q_fifo (queue_of (snd (bus_change_visibility now key r v b)) k) = q_fifo (queue_of b k)"
  "q_fifo (queue_of (lapse key r g b) k) = q_fifo (queue_of b k)"
  using receive_loop_kind [of now "blocked_groups (queue_of b key)" limit "queue_of b key" "bus_next_id b" "[]" "[]"]
  by (auto simp: bus_open_def bus_close_def bus_receivable_def bus_receive_def bus_delete_def
      bus_change_visibility_def lapse_def lapse_after_def requeue_kind redrive_spent_kind Let_def queue_of_put
      split: option.split prod.split)

lemma kinds_ok_cong: "(\<And>k. q_fifo (queue_of b' k) = q_fifo (queue_of b k)) \<Longrightarrow> kinds_ok b' = kinds_ok b"
  by (simp add: kinds_ok_def)

lemma field_kind:
  "q_fifo (queue_of (install_coordinator b) k) = q_fifo (queue_of b k)"
  "q_fifo (queue_of (tell c b) k) = q_fifo (queue_of b k)" "q_fifo (queue_of (b\<lparr>bus_timers := ts\<rparr>) k) = q_fifo (queue_of b k)"
  "q_fifo (queue_of (snd (bus_subscribe_topic topic queue name b)) k) = q_fifo (queue_of b k)"
  by (simp_all add: install_coordinator_def bus_subscribe_topic_def Let_def split: option.split)

lemmas kinds_kept = field_kind [THEN kinds_ok_cong] traffic_kind [THEN kinds_ok_cong] queue_kind [THEN kinds_ok_cong]

lemma kinds_ok_new: "kinds_ok (new_bus endpoint region)"
  by (simp add: kinds_ok_def queue_of_def new_bus_queue_def new_bus_def)

interpretation kinds: bus_invariant x kinds_ok for x
  by unfold_locales (simp_all add: kinds_ok_new kinds_kept)

subsection \<open>Only a take puts a message in flight\<close>

lemma change_flights:
  assumes "bus_ok c b" and "flight (snd (bus_change_visibility now key r v b)) k i \<noteq> None"
  shows "flight b k i \<noteq> None"
proof (cases rule: change_visibility_cases [of v now key r b])
  case (returned e)
  have "flight (put_queue key (queue_of b key) b) key r = Some e" using returned(2) by (simp add: put_back_keeps)
  from requeue_keeps(3) [OF put_back_keeps(1) [OF assms(1)] this] assms(2) returned(4)
  show ?thesis by (simp add: put_back_keeps split: if_splits)
next
  case (armed e)
  then show ?thesis using assms(2)
    by (auto simp: lapse_after_def flight_def queue_of_put hash_insert_def update_conv' split: if_splits)
qed (use assms(2) in \<open>simp_all add: put_back_keeps\<close>)

lemma handed_by_take:
  assumes ok: "world_ok w" and step: "world_step x w w'"
    and new: "flight (w_bus w) k r = None" "flight (w_bus w') k r \<noteq> None"
  obtains d limit ms where "d \<in> set (w_open w)" "bd_queue d = k" "receive_take x limit d w = (ms, w')"
proof -
  note bus = world_okD(1) [OF ok]
  have traffic: "flight b = flight (w_bus w)" if "keeps_traffic (w_now w) (w_bus w) b" for b
    using that by (simp add: keeps_traffic_def)
  note sends = traffic_steps [OF bus, THEN traffic]
  have change: "flight (snd (bus_change_visibility now q h v (w_bus w))) k r = None" for now q h v
    using change_flights [OF bus] new(1) by blast
  show thesis using step
  proof (cases rule: world_step.cases)
    case (check d limit window t)
    then show thesis using traffic [OF bus_receivable_keeps [OF bus, of "bd_queue d" limit]] new
      by (auto simp: receive_check_def split: prod.splits)
  next
    case (take d limit ms)
    obtain rs b' where recv: "bus_receive x (w_now w) (bd_queue d) limit (w_bus w) = (rs, b')" by fastforce
    with take(2) have "w_bus w' = b'" by (auto simp: receive_take_def)
    with bus_receive_keeps(3) [OF bus order_refl recv] new have "bd_queue d = k" by (auto split: if_splits)
    with take that show thesis by blast
  next
    case (changed h secs res)
    then show thesis
      using new change [of "w_now w" "br_queue h" "br_receipt h" "from_secs (nat secs)"]
      by (auto simp: receipt_change_visibility_def split: if_splits prod.splits sum.splits)
  next
    case (dropped h)
    then show thesis using new by (auto simp: receipt_drop_def change split: if_splits option.splits)
  next
    case (expired i)
    have "bus_ok (w_now w) ((w_bus w)\<lparr>bus_timers := ts\<rparr>)" for ts using bus by simp
    from lapse_keeps(3) [OF this] expired new show thesis by (auto simp: fire_timer_def Let_def split: if_splits)
  qed (use new in \<open>auto simp: sends deliveries_open_def deliveries_drop_def receipt_delete_def Let_def
      bus_open_keeps(3) [OF bus] bus_close_keeps(3) [OF bus] bus_delete_keeps(3) [OF bus] split: if_splits\<close>)
qed

subsection \<open>One receive\<close>

lemma receive_group:
  assumes "reachable world_init (world_step x) w" and "bus_receive x now k limit (w_bus w) = (rs, b')"
    and "no_self_redrive k w" and "is_fifo k"
    and new: "flight (w_bus w) k r = None" "flight b' k r = Some e" and g: "group_of (fl_stored e) = Some g"
  shows "(\<forall>f \<in> set (q_in_flight (queue_of (w_bus w) k)). group_of (fl_stored (snd f)) \<noteq> Some g) \<and>
    (\<forall>f \<in> set (q_visible (queue_of b' k)). group_of (snd f) = Some g \<longrightarrow> st_seq (fl_stored e) < st_seq (snd f))"
  using assms(1,2)
proof (rule reachable_walk)
  let ?q = "queue_of (w_bus w) k" let ?nid = "bus_next_id (w_bus w)"
  fix kept out spnt
  assume walk: "receive_walk (exhausted ?q) (not_blocked (blocked_groups ?q)) limit (q_visible ?q) = (kept, out, spnt)"
    and ok: "queue_ok (w_now w) ?nid ?q"
    and b': "b' = redrive_spent x spnt
       ((put_queue k (?q\<lparr>q_visible := kept, q_in_flight := q_in_flight ?q @ flights now ?nid out\<rparr>) (w_bus w))
          \<lparr>bus_next_id := ?nid + length out\<rparr>)"
  have "\<forall>(rd, s) \<in> set spnt. rt_queue rd \<noteq> k"
    using walk_out [OF walk] assms(3) by (fastforce simp: no_self_redrive_def exhausted_def split: option.splits if_splits)
  then have q': "queue_of b' k = ?q\<lparr>q_visible := kept, q_in_flight := q_in_flight ?q @ flights now ?nid out\<rparr>"
    by (simp add: b' redrive_spent_other queue_of_put)
  have "(r, e) \<in> set (flights now ?nid out)"
    using new map_of_SomeD by (fastforce simp: flight_def q' map_add_Some_iff)
  then obtain s where s: "s \<in> set out" "fl_stored e = counted s" using flights_entry by blast
  have free: "g \<notin> blocked_groups ?q"
    using walk_out [OF walk] s g by (auto simp: not_blocked_def group_of_def counted_def)
  have "q_fifo ?q" using kinds.kept.reachable_inv [OF assms(1)] assms(4) by (simp add: kinds_ok_def)
  with free have "\<forall>f \<in> set (q_in_flight ?q). group_of (fl_stored (snd f)) \<noteq> Some g"
    by (auto simp: blocked_iff)
  moreover have "st_seq s < st_seq (snd f)" if "f \<in> set kept" "group_of (snd f) = Some g" for f
    using walk_no_skip [OF walk visible_sorted [OF ok]] that free s(1) by (simp add: not_blocked_def)
  ultimately show ?thesis by (simp add: q' s(2))
qed

text \<open>C11: a message group is served in order, one hand-over at a time. Whenever a step of the account
  puts a message of a group in flight on a FIFO queue that is not its own dead-letter queue, nothing
  of that group was in flight there before the step, and every message of the group that is still
  visible there after it arrived later.\<close>

theorem fifo_group_in_order:
  assumes "reachable world_init (world_step x) w" and "world_step x w w'" and "is_fifo k" and "no_self_redrive k w"
    and "(InFlightOn k r, s) \<in> places (w_bus w')" and "flight (w_bus w) k r = None" and "group_of s = Some g"
  shows "(\<forall>i t. (InFlightOn k i, t) \<in> places (w_bus w) \<longrightarrow> group_of t \<noteq> Some g) \<and>
    (\<forall>t. (VisibleOn k, t) \<in> places (w_bus w') \<and> group_of t = Some g \<longrightarrow> st_seq s < st_seq t)"
proof -
  from assms(5) obtain e where e: "flight (w_bus w') k r = Some e" "s = fl_stored e" by auto
  obtain d limit ms where take: "d \<in> set (w_open w)" "bd_queue d = k" "receive_take x limit d w = (ms, w')"
    by (rule handed_by_take [OF account.reachable_inv [OF assms(1)] assms(2,6)]) (use e in auto)
  then obtain rs where "bus_receive x (w_now w) k limit (w_bus w) = (rs, w_bus w')"
    by (auto simp: receive_take_def split: prod.splits)
  from receive_group [OF assms(1) this assms(4,3,6) e(1)] assms(7) e(2)
  have "\<forall>f \<in> set (q_in_flight (queue_of (w_bus w) k)). group_of (fl_stored (snd f)) \<noteq> Some g"
    "\<forall>f \<in> set (q_visible (queue_of (w_bus w') k)). group_of (snd f) = Some g \<longrightarrow> st_seq s < st_seq (snd f)"
    by simp_all
  then show ?thesis by (fastforce simp: flight_def dest: map_of_SomeD)
qed

text \<open>Two messages of one group, taken one at a time.\<close>

definition group_world :: "(string \<times> bytes) list world" where
  "group_world = line_world\<lparr>w_bus := snd (the (send_each (in_process_send sample_externals 7 0) None line_messages
     (0, w_bus line_world)))\<rparr>"

definition group_taken :: "(string \<times> bytes) list world" where
  "group_taken = snd (receive_take sample_externals 1 line_subscription group_world)"

lemma reachable_group_world: "reachable world_init (world_step sample_externals) group_world"
proof -
  have now: "w_now line_world = 0"
    and "map_option fst (send_each (in_process_send sample_externals 7 0) None line_messages (0, w_bus line_world)) = Some 2"
    by code_simp+
  then obtain b where b: "send_each (in_process_send sample_externals 7 (w_now line_world)) None line_messages
      (0, w_bus line_world) = Some (2, b)" by auto
  from send_each_reachable [OF reachable_line_world this send_moves] b now show ?thesis by (simp add: group_world_def)
qed

theorem fifo_group_in_order_witness:
  "\<exists>s t. (InFlightOn ''q.fifo'' 3, s) \<in> places (w_bus group_taken) \<and>
    (VisibleOn ''q.fifo'', t) \<in> places (w_bus group_taken) \<and> st_seq s < st_seq t"
proof -
  have facts: "is_fifo ''q.fifo''" "q_redrive (queue_of (w_bus group_world) ''q.fifo'') = None"
    "w_open group_world = [line_subscription]" "flight (w_bus group_world) ''q.fifo'' 3 = None"
    "map_option (group_of \<circ> fl_stored) (flight (w_bus group_taken) ''q.fifo'' 3) = Some (Some ''g'')"
    "map_option (\<lambda>t. (st_seq t, group_of t)) (map_of (q_visible (queue_of (w_bus group_taken) ''q.fifo'')) 2) = Some (2, Some ''g'')"
    by code_simp+
  from facts(5) obtain s where s: "(InFlightOn ''q.fifo'' 3, s) \<in> places (w_bus group_taken)" "group_of s = Some ''g''" by auto
  from facts(6) obtain t where seq: "map_of (q_visible (queue_of (w_bus group_taken) ''q.fifo'')) 2 = Some t" "st_seq t = 2"
    and "group_of t = Some ''g''" by auto
  then have t: "(VisibleOn ''q.fifo'', t) \<in> places (w_bus group_taken)" "group_of t = Some ''g''" by simp_all
  have step: "world_step sample_externals group_world group_taken"
    unfolding group_taken_def
    by (rule world_step.take [where d = line_subscription and limit = 1]) (simp add: facts(3), rule prod.collapse [symmetric])
  have "no_self_redrive ''q.fifo'' group_world" by (simp add: no_self_redrive_def facts(2))
  from fifo_group_in_order [OF reachable_group_world step facts(1) this s(1) facts(4) s(2)] s t show ?thesis by blast
qed

end
