(* ===== verification/Topic_Delivery.thy ===== *)
theory Topic_Delivery
  imports Delivery_Properties Arrival_Properties
begin

section \<open>From a publish to the subscribers\<close>

text \<open>
  A topic's subscriptions over every reachable world, what the fan-out of a publish does to one
  queue and to the others, and the whole way of a message through a topic: framed, checked,
  copied to every subscribed queue, handed over and decoded. Publishes to a topic meet the contract
  \<open>end_of_line\<close> on every subscribed queue, standard queues under a FIFO topic included.
\<close>

subsection \<open>A topic's subscriptions\<close>

text \<open>A queue is subscribed to a topic once, and a standard topic has standard queues only.\<close>

definition topics_ok :: "'h bus \<Rightarrow> bool" where
  "topics_ok b \<longleftrightarrow> (\<forall>t. distinct (map ep_queue (endpoints_of b t)) \<and>
     (\<not> is_fifo t \<longrightarrow> (\<forall>ep \<in> set (endpoints_of b t). \<not> is_fifo (ep_queue ep))))"

lemma redrive_spent_topics: "bus_topics (redrive_spent x sp b) = bus_topics b"
  by (induction x sp b rule: redrive_spent.induct) (simp_all add: redrive_one_def)

lemma requeue_topics: "bus_topics (requeue k r e b) = bus_topics b"
  by (simp add: requeue_eq)

lemma traffic_topics:
  "bus_topics (snd (bus_send x now name key ob b)) = bus_topics b"
  "bus_topics (snd (bus_publish_topic x now name topic ob b)) = bus_topics b"
  "bus_topics (snd (bus_set_redrive key n dl b)) = bus_topics b"
  by (auto simp: bus_send_def bus_publish_topic_def bus_set_redrive_def deliver_fields fan_out_fields Let_def
      split: sum.split option.split prod.split)

lemma queue_topics:
  "bus_topics (bus_open k b) = bus_topics b" "bus_topics (bus_close k b) = bus_topics b"
  "bus_topics (snd (bus_receivable k limit b)) = bus_topics b"
  "bus_topics (snd (bus_receive x now k limit b)) = bus_topics b"
  "bus_topics (bus_delete k r b) = bus_topics b"
  "bus_topics (snd (bus_change_visibility now k r v b)) = bus_topics b"
  "bus_topics (lapse k r g b) = bus_topics b"
  by (auto simp: bus_open_def bus_close_def bus_receivable_def bus_receive_def bus_delete_def
      bus_change_visibility_def lapse_def lapse_after_def requeue_topics redrive_spent_topics Let_def
      split: option.split prod.split)

lemma topics_ok_cong: "bus_topics b' = bus_topics b \<Longrightarrow> topics_ok b' = topics_ok b"
  by (simp add: topics_ok_def endpoints_of_def)

lemma topics_ok_subscribe:
  assumes "topics_ok b"
  shows "topics_ok (snd (bus_subscribe_topic topic queue name b))"
proof -
  have eps: "endpoints_of (b\<lparr>bus_topics := hash_insert topic eps (bus_topics b)\<rparr>) t =
      (if t = topic then eps else endpoints_of b t)" for eps t
    by (simp add: endpoints_of_def hash_insert_def update_conv')
  show ?thesis
    using assms unfolding topics_ok_def
    by (auto simp: bus_subscribe_topic_def Let_def eps list_ex_iff image_iff)
qed

lemma field_topics:
  "bus_topics (install_coordinator b) = bus_topics b" "bus_topics (tell c b) = bus_topics b"
  "bus_topics (b\<lparr>bus_timers := ts\<rparr>) = bus_topics b"
  by (simp_all add: install_coordinator_def split: option.split)

lemmas topics_kept = field_topics [THEN topics_ok_cong] traffic_topics [THEN topics_ok_cong] queue_topics [THEN topics_ok_cong]

lemma topics_ok_new: "topics_ok (new_bus endpoint region)"
  by (simp add: topics_ok_def endpoints_of_def new_bus_def)

interpretation topics: bus_invariant x topics_ok for x
  by unfold_locales (simp_all add: topics_ok_new topics_kept topics_ok_subscribe)

subsection \<open>One copy each\<close>

lemma deliver_other: "k \<noteq> key \<Longrightarrow> queue_of (deliver now key ob b) k = queue_of b k"
  by (simp add: deliver_def deliver_fresh_def enqueue_def Let_def queue_of_put split: option.split prod.split)

lemma fan_out_other: "k \<notin> set (map ep_queue eps) \<Longrightarrow> queue_of (fan_out x now ob eps b) k = queue_of b k"
proof (induction x now ob eps b rule: fan_out.induct)
  case (2 x now ob ep eps b)
  then show ?case by (simp add: Let_def deliver_other)
qed simp

text \<open>What the fan-out leaves on a subscribed queue is what one delivery of the queue's copy does.\<close>

lemma fan_out_delivers:
  assumes "distinct (map ep_queue eps)" and "k \<in> set (map ep_queue eps)" and "bus_ok c (b :: 'h bus)"
  obtains b1 where "bus_ok c (b1 :: 'h bus)" "queue_of b1 k = queue_of b k"
    "queue_of (fan_out x now ob eps b) k =
       queue_of (deliver now k (ob\<lparr>ob_fifo := if is_fifo k then ob_fifo ob else None\<rparr>) b1) k"
  using assms
proof (induction x now ob eps b arbitrary: thesis rule: fan_out.induct)
  case (2 x now ob ep eps b)
  let ?copy = "if is_fifo (ep_queue ep) then ob else ob\<lparr>ob_fifo := None\<rparr>"
  let ?log = "push_log (ep_name ep) (log_entry x (ep_name ep) ?copy) b"
  have step: "fan_out x now ob (ep # eps) b = fan_out x now ob eps (deliver now (ep_queue ep) ?copy ?log)"
    by (simp only: fan_out.simps Let_def)
  show ?case
  proof (cases "k = ep_queue ep")
    case True
    with "2.prems"(2) have "k \<notin> set (map ep_queue eps)" by simp
    with True have "queue_of (fan_out x now ob (ep # eps) b) k =
        queue_of (deliver now k (ob\<lparr>ob_fifo := if is_fifo k then ob_fifo ob else None\<rparr>) ?log) k"
      unfolding step by (simp add: fan_out_other)
    then show ?thesis by (intro "2.prems"(1) [of ?log]) (use "2.prems"(4) in simp_all)
  next
    case False
    have "bus_ok c (deliver now (ep_queue ep) ?copy ?log)"
      using "2.prems"(4) by (meson deliver_keeps push_log_keeps keeps_traffic_trans keeps_traffic_ok)
    then show ?thesis
    proof (rule "2.IH" [OF refl, rotated 3])
      fix b1 :: "'h bus"
      assume b1: "bus_ok c b1" "queue_of b1 k = queue_of (deliver now (ep_queue ep) ?copy ?log) k"
        "queue_of (fan_out x now ob eps (deliver now (ep_queue ep) ?copy ?log)) k =
         queue_of (deliver now k (ob\<lparr>ob_fifo := if is_fifo k then ob_fifo ob else None\<rparr>) b1) k"
      show thesis
      proof (rule "2.prems"(1) [OF b1(1)])
        show "queue_of b1 k = queue_of b k" unfolding b1(2) deliver_other [OF False] by simp
      qed (unfold step, rule b1(3))
    qed (use False "2.prems"(2,3) in auto)
  qed
qed simp

subsection \<open>A run of publishes\<close>

definition topic_seen :: "'h bus \<Rightarrow> string \<Rightarrow> (string \<times> instant) list" where
  "topic_seen b t = (case map_of (bus_topic_dedup b) t of None \<Rightarrow> [] | Some seen \<Rightarrow> seen)"

definition topic_ready :: "'h externals \<Rightarrow> instant \<Rightarrow> nat \<Rightarrow> string \<Rightarrow> string \<Rightarrow> nat \<times> 'h bus \<Rightarrow> bool" where
  "topic_ready x c pid topic k st \<longleftrightarrow> line_ready x c pid k st \<and> topics_ok (snd st) \<and>
     k \<in> ep_queue ` set (endpoints_of (snd st) topic) \<and>
     (is_fifo topic \<longrightarrow> ids_unseen pid (fst st) (topic_seen (snd st) topic))"

lemma fan_out_topic_seen: "topic_seen (fan_out x now ob eps b) t = topic_seen b t"
  by (simp add: topic_seen_def fan_out_fields)

text \<open>A publish whose id is new to the topic is a fan-out over the topic's endpoints, with the id
  remembered.\<close>

lemma publish_fans_out:
  assumes "bus_publish_topic x now name topic ob b = (Ok (), b')"
    and "\<And>s. ob_fifo ob = Some s \<Longrightarrow> map_of (topic_seen b topic) (fifo_deduplication s) = None"
  obtains table where "b' = fan_out x now ob (endpoints_of b topic)
      (push_log name (log_entry x name ob) b\<lparr>bus_topic_dedup := table\<rparr>)"
    "\<And>i. map_of (topic_seen b topic) i = None \<Longrightarrow> \<forall>s. ob_fifo ob = Some s \<longrightarrow> i \<noteq> fifo_deduplication s \<Longrightarrow>
       map_of (topic_seen b' topic) i = None"
proof (cases "ob_fifo ob")
  case None
  let ?log = "push_log name (log_entry x name ob) b"
  from assms(1) None have b': "b' = fan_out x now ob (endpoints_of b topic) ?log"
    by (auto simp: bus_publish_topic_def Let_def split: sum.splits if_splits)
  then have "topic_seen b' topic = topic_seen b topic" by (simp add: fan_out_topic_seen) (simp add: topic_seen_def)
  moreover have same: "?log\<lparr>bus_topic_dedup := bus_topic_dedup b\<rparr> = ?log"
    by (cases b) (simp add: push_log_def bus_published_def Let_def)
  ultimately show thesis by (intro that [of "bus_topic_dedup b"]) (unfold same, rule b', simp)
next
  case (Some s)
  from unseen_id [OF assms(2) [OF Some], of now] obtain seen where
    seen: "seen_within_window now (fifo_deduplication s) (topic_seen b topic) = (False, seen)"
    "\<And>j. j \<noteq> fifo_deduplication s \<Longrightarrow> map_of (topic_seen b topic) j = None \<Longrightarrow> map_of seen j = None" by blast
  let ?table = "hash_insert topic seen (bus_topic_dedup b)"
  have b': "b' = fan_out x now ob (endpoints_of b topic) (push_log name (log_entry x name ob) b\<lparr>bus_topic_dedup := ?table\<rparr>)"
    using assms(1) Some seen(1)
    by (auto simp: bus_publish_topic_def Let_def topic_seen_def endpoints_of_def split: sum.splits if_splits)
  then have "topic_seen b' topic = seen"
    by (simp add: fan_out_topic_seen) (simp add: topic_seen_def hash_insert_def update_conv')
  with b' seen(2) Some show thesis by (intro that [of ?table]) simp_all
qed

lemma publish_at_end:
  assumes "topic_ready x c pid topic k (seq, b :: 'h bus)" and "topic_key (og_name msg) = Ok topic"
    and "Option.bind options deduplication_id = None"
    and "in_process_publish_topic x pid now msg options grp (seq, b) = (Ok u, (seq', b'))"
  shows "topic_ready x c pid topic k (seq', b') \<and>
    (\<exists>s. framed_as x pid (is_fifo topic) (is_fifo k) grp (msg, options) s \<and> joined (st_seq s, s) (queue_of b k) (queue_of b' k))"
proof -
  have ext: "externals_ok x" and ok: "bus_ok c b" and open_k: "q_subscriptions (queue_of b k) \<noteq> 0"
    and unseen: "is_fifo k \<Longrightarrow> ids_unseen pid seq (q_dedup (queue_of b k))"
    and topics: "topics_ok b" and k: "k \<in> set (map ep_queue (endpoints_of b topic))"
    and topic_unseen: "is_fifo topic \<Longrightarrow> ids_unseen pid seq (topic_seen b topic)"
    using assms(1) by (simp_all add: topic_ready_def line_ready_def)
  have fifo: "is_fifo k \<Longrightarrow> is_fifo topic" and distinct: "distinct (map ep_queue (endpoints_of b topic))"
    using topics k unfolding topics_ok_def by auto
  obtain ob where framed: "frame x pid seq (og_name msg) (is_fifo topic) (og_payload msg) (og_headers msg) options grp = (Ok ob, seq')"
    and sent: "bus_publish_topic x now (og_name msg) topic ob b = (Ok (), b')"
    using assms(2,4) by (auto simp: in_process_publish_topic_def Let_def split: prod.splits sum.splits)
  note ids = frame_ids [OF ext framed assms(3)]
  have "map_of (topic_seen b topic) (fifo_deduplication t) = None" if "ob_fifo ob = Some t" for t
    using ids(1) [OF that] topic_unseen by (simp add: ids_unseen_def)
  from publish_fans_out [OF sent this] obtain table where
    b': "b' = fan_out x now ob (endpoints_of b topic)
      (push_log (og_name msg) (log_entry x (og_name msg) ob) b\<lparr>bus_topic_dedup := table\<rparr>)" (is "_ = fan_out x now ob _ ?log")
    and others: "\<And>i. map_of (topic_seen b topic) i = None \<Longrightarrow> \<forall>s. ob_fifo ob = Some s \<longrightarrow> i \<noteq> fifo_deduplication s \<Longrightarrow>
       map_of (topic_seen b' topic) i = None" by blast
  have log: "bus_ok c ?log" "queue_of ?log k = queue_of b k" using ok by simp_all
  obtain b1 :: "'h bus" where b1: "bus_ok c b1" "queue_of b1 k = queue_of b k"
    and q': "queue_of b' k = queue_of (deliver now k (ob\<lparr>ob_fifo := if is_fifo k then ob_fifo ob else None\<rparr>) b1) k"
    by (rule fan_out_delivers [OF distinct k log(1), where x = x and now = now and ob = ob], rule that)
      (simp_all only: log(2) b')
  have joins: "\<exists>s. framed_as x pid (is_fifo topic) (is_fifo k) grp (msg, options) s \<and> joined (st_seq s, s) (queue_of b k) (queue_of b' k)"
    "is_fifo k \<Longrightarrow> ids_unseen pid seq' (q_dedup (queue_of b' k))"
    using copy_joins [OF ext framed assms(3) fifo b1(1) _ _ refl, where keeps = "is_fifo k" and k = k and now = now, unfolded q' [symmetric] b1(2)]
      open_k unseen by simp_all
  have "ids_unseen pid seq' (topic_seen b' topic)" if "is_fifo topic"
    unfolding ids(2) [OF that]
    by (rule ids_unseen_next [OF topic_unseen [OF that]], rule others) (use ids(1) in auto)
  moreover have "bus_ok c b'"
    using keeps_traffic_ok [OF bus_publish_topic_keeps [OF ok], of x now "og_name msg" topic ob] sent by simp
  moreover have "bus_topics b' = bus_topics b"
    using traffic_topics(2) [of x now "og_name msg" topic ob b] sent by simp
  ultimately show ?thesis
    using joins ext open_k topics k
    by (auto simp: topic_ready_def line_ready_def joined_def endpoints_of_def topics_ok_cong [of b' b])
qed

interpretation under_topic: end_of_line x pid "in_process_publish_topic x pid now" k "\<lambda>n. topic_key n = Ok topic"
    "topic_ready x c pid topic k" "is_fifo topic" "is_fifo k" for x pid now topic k c
proof
  fix st st' msg options grp u
  assume "topic_ready x c pid topic k st" "topic_key (og_name msg) = Ok topic" "Option.bind options deduplication_id = None"
    "in_process_publish_topic x pid now msg options grp st = (Ok u, st')"
  with publish_at_end [of x c pid topic k "fst st" "snd st" msg options now grp u "fst st'" "snd st'"]
  show "topic_ready x c pid topic k st'" and "\<exists>s. framed_as x pid (is_fifo topic) (is_fifo k) grp (msg, options) s \<and>
      joined (st_seq s, s) (queue_of (snd st) k) (queue_of (snd st') k)" by simp_all
qed

lemma publish_moves:
  assumes "in_process_publish_topic x pid (w_now w) msg options grp (seq, w_bus w) = (Ok u, (seq1, b1))"
  shows "world_step x w (w\<lparr>w_bus := b1\<rparr>)"
proof -
  from assms obtain topic ob where "bus_publish_topic x (w_now w) (og_name msg) topic ob (w_bus w) = (Ok (), b1)"
    by (auto simp: in_process_publish_topic_def Let_def split: prod.splits sum.splits)
  then show ?thesis by (rule world_step.publish)
qed

lemma publishes_in_order:
  assumes "externals_ok x" and "reachable world_init (world_step x) w" and "d \<in> set (w_open w)"
    and "\<forall>e \<in> set ms. topic_key (og_name (fst e)) = Ok topic \<and> Option.bind (snd e) deduplication_id = None"
    and "bd_queue d \<in> ep_queue ` set (endpoints_of (w_bus w) topic)"
    and "q_visible (queue_of (w_bus w) (bd_queue d)) = []"
    and "is_fifo topic \<Longrightarrow> ids_unseen pid seq (topic_seen (w_bus w) topic)"
    and "is_fifo (bd_queue d) \<Longrightarrow> q_in_flight (queue_of (w_bus w) (bd_queue d)) = [] \<and>
      ids_unseen pid seq (q_dedup (queue_of (w_bus w) (bd_queue d)))"
    and "\<forall>rd. q_redrive (queue_of (w_bus w) (bd_queue d)) = Some rd \<longrightarrow> 0 < rt_max rd"
    and "send_each (in_process_publish_topic x pid (w_now w)) grp ms (seq, w_bus w) = Some (seq', b')"
    and "0 < limit" and "ms \<noteq> []"
    and "window = None \<or> limit \<le> length ms"
  shows "\<exists>ds w'. deliveries_receive x limit window d envs (w\<lparr>w_bus := b'\<rparr>) = Some (Ready ds, envs, w') \<and>
    list_all2 (\<lambda>e m. is_delivered x (partition_key_of x (is_fifo topic) (is_fifo (bd_queue d)) grp e) (fst e) m)
      (take limit ms) ds"
proof -
  let ?k = "bd_queue d" let ?q = "queue_of (w_bus w) ?k"
  have "world_ok w" by (rule account.reachable_inv [OF assms(2)])
  moreover have topics: "topics_ok (w_bus w)" by (rule topics.kept.reachable_inv [OF assms(2)])
  ultimately have "topic_ready x (w_now w) pid topic ?k (seq, w_bus w)"
    using world_okD(1) [of w] open_subscription [OF assms(2,3)] assms(1,5,7,8) by (simp add: topic_ready_def line_ready_def)
  from under_topic.send_each_line [OF this assms(4,10)] obtain ss j seen where
    q: "queue_of b' ?k = ?q\<lparr>q_visible := map (\<lambda>s. (st_seq s, s)) ss, q_notify := j, q_dedup := seen\<rparr>"
    and framed: "list_all2 (framed_as x pid (is_fifo topic) (is_fifo ?k) grp) ms ss"
    using assms(6) by auto
  have "is_fifo ?k \<Longrightarrow> is_fifo topic" using topics assms(5) unfolding topics_ok_def by auto
  then show ?thesis
    by (intro line_is_delivered [OF assms(1) send_each_reachable [OF assms(2) assms(10) publish_moves] _ _ framed])
      (use q assms(8,9,11-13) assms(3) in \<open>simp_all add: comp_def\<close>)
qed

text \<open>C8: what is published is handled by every subscriber, in the order it was published. A run of
  publishes to a topic the crate answers with success is what the next receive returns on every
  queue subscribed to it that is open with nothing visible, as many as it asked for, at once and in
  the order they were published: each payload byte for byte, every header with its value, a receive
  count of one; under a FIFO topic a FIFO queue's deliveries carry the group each publish resolved
  to as their partition key, and a standard queue's carry none. The conditions: no publish names a
  deduplication id of its own; a redrive policy of the queue, if any, allows at least one receive;
  under a FIFO topic the ids the crate is about to generate are new to the topic, and on a FIFO queue
  new to the queue with nothing of it in flight; and the receive has no batch window, or at least as
  many were published as it asks for.\<close>

theorem all_published_in_order:
  assumes "externals_ok x" and "reachable world_init (world_step x) w" and "d \<in> set (w_open w)"
    and "\<forall>e \<in> set ms. topic_key (og_name (fst e)) = Ok topic \<and> Option.bind (snd e) deduplication_id = None"
    and "bd_queue d \<in> ep_queue ` set (endpoints_of (w_bus w) topic)"
    and "q_visible (queue_of (w_bus w) (bd_queue d)) = []"
    and "is_fifo topic \<Longrightarrow> ids_unseen pid seq (topic_seen (w_bus w) topic)"
    and "is_fifo (bd_queue d) \<Longrightarrow> q_in_flight (queue_of (w_bus w) (bd_queue d)) = [] \<and>
      ids_unseen pid seq (q_dedup (queue_of (w_bus w) (bd_queue d)))"
    and "\<forall>rd. q_redrive (queue_of (w_bus w) (bd_queue d)) = Some rd \<longrightarrow> 0 < rt_max rd"
    and "send_each (in_process_publish_topic x pid (w_now w)) grp ms (seq, w_bus w) = Some (seq', b')"
    and "0 < limit" and "ms \<noteq> []"
    and "window = None \<or> limit \<le> length ms"
  shows "\<exists>ds w'. deliveries_receive x limit window d envs (w\<lparr>w_bus := b'\<rparr>) = Some (Ready ds, envs, w') \<and>
    list_all2 (\<lambda>e m. is_delivered x (partition_key_of x (is_fifo topic) (is_fifo (bd_queue d)) grp e) (fst e) m)
      (take limit ms) ds"
  by (rule publishes_in_order [OF assms])

text \<open>A FIFO topic with a FIFO queue, which is read, and a standard queue under it.\<close>

definition topic_world :: "(string \<times> bytes) list world" where
  "topic_world = (let w1 = line_world\<lparr>w_bus := snd (bus_subscribe_topic ''t.fifo'' ''other'' ''other'' (w_bus line_world))\<rparr>
     in w1\<lparr>w_bus := snd (bus_subscribe_topic ''t.fifo'' ''q.fifo'' ''q.fifo'' (w_bus w1))\<rparr>)"

definition published_messages :: "((string \<times> bytes) list outgoing \<times> publish_options option) list" where
  "published_messages = map (\<lambda>(msg, options). (msg\<lparr>og_name := ''t.fifo''\<rparr>, options)) line_messages"

lemma reachable_topic_world: "reachable world_init (world_step sample_externals) topic_world"
proof -
  let ?sub = "\<lambda>q (w :: (string \<times> bytes) list world). w\<lparr>w_bus := snd (bus_subscribe_topic ''t.fifo'' q q (w_bus w))\<rparr>"
  have "reachable world_init (world_step sample_externals) (?sub q w)"
    if "reachable world_init (world_step sample_externals) w" for q w
    by (rule reachable.move [OF that world_step.subscribe [OF prod.collapse [symmetric]]])
  from this [OF this [OF reachable_line_world]] show ?thesis unfolding topic_world_def Let_def .
qed

theorem all_published_in_order_witness:
  "\<exists>ds w'. deliveries_receive sample_externals 10 None line_subscription []
      (topic_world\<lparr>w_bus := snd (the (send_each (in_process_publish_topic sample_externals 7 0) None published_messages (0, w_bus topic_world)))\<rparr>)
      = Some (Ready ds, [], w') \<and>
    map sm_payload ds = [''one'', ''two''] \<and>
    map (\<lambda>m. map_of (sm_headers m) PARTITION_KEY_HEADER) ds = [Some ''g'', Some ''g'']"
proof -
  have facts: "list_all (\<lambda>e. topic_key (og_name (fst e)) = Ok ''t.fifo'' \<and> Option.bind (snd e) deduplication_id = None) published_messages"
    "bd_queue line_subscription \<in> ep_queue ` set (endpoints_of (w_bus topic_world) ''t.fifo'')"
    "q_visible (queue_of (w_bus topic_world) (bd_queue line_subscription)) = []"
    "topic_seen (w_bus topic_world) ''t.fifo'' = []"
    "q_in_flight (queue_of (w_bus topic_world) (bd_queue line_subscription)) = []"
    "q_dedup (queue_of (w_bus topic_world) (bd_queue line_subscription)) = []"
    "q_redrive (queue_of (w_bus topic_world) (bd_queue line_subscription)) = None"
    "w_open topic_world = [line_subscription]" "w_now topic_world = 0" "is_fifo (bd_queue line_subscription)" "is_fifo ''t.fifo''"
    "map_option fst (send_each (in_process_publish_topic sample_externals 7 0) None published_messages (0, w_bus topic_world)) = Some 2"
    "ladder_group sample_externals [(''partition-key'', ''g'')] None None = ''g''"
    "ladder_group sample_externals [] (Some (default_options\<lparr>group_id := Some ''g''\<rparr>)) None = ''g''"
    "RECEIVE_COUNT_HEADER \<noteq> PARTITION_KEY_HEADER"
    by code_simp+
  have ready: "line_subscription \<in> set (w_open topic_world)" using facts(8) by simp
  have hm: "hm_get sample_externals = map_of" by (simp add: sample_externals_def)
  obtain b' where sent: "send_each (in_process_publish_topic sample_externals 7 (w_now topic_world)) None published_messages
      (0, w_bus topic_world) = Some (2, b')"
    using facts(9,12) by auto
  have "\<exists>ds w'. deliveries_receive sample_externals 10 None line_subscription [] (topic_world\<lparr>w_bus := b'\<rparr>) = Some (Ready ds, [], w') \<and>
    list_all2 (\<lambda>e m. is_delivered sample_externals (partition_key_of sample_externals (is_fifo ''t.fifo'')
      (is_fifo (bd_queue line_subscription)) None e) (fst e) m) (take 10 published_messages) ds"
    using facts(1-7)
    by (intro all_published_in_order [OF sample_externals_ok reachable_topic_world ready _ _ _ _ _ _ sent])
      (auto simp: list_all_iff ids_unseen_def published_messages_def line_messages_def)
  then show ?thesis
    using sent facts(10,11,13-15)
    by (fastforce simp: published_messages_def line_messages_def list_all2_Cons1 is_delivered_def partition_key_of_def hm facts(9))
qed

text \<open>One publish to a standard topic.\<close>

lemma published_is_delivered:
  assumes "externals_ok x" and "reachable world_init (world_step x) w" and "d \<in> set (w_open w)" and "topic_key (og_name msg) = Ok topic"
    and "\<not> is_fifo topic" and "bd_queue d \<in> ep_queue ` set (endpoints_of (w_bus w) topic)"
    and "q_visible (queue_of (w_bus w) (bd_queue d)) = []"
    and "\<forall>rd. q_redrive (queue_of (w_bus w) (bd_queue d)) = Some rd \<longrightarrow> 0 < rt_max rd"
    and "in_process_publish_topic x pid (w_now w) msg options grp (seq, w_bus w) = (Ok (), seq', b')" and "0 < limit"
  shows "\<exists>m w'. deliveries_receive x limit None d envs (w\<lparr>w_bus := b'\<rparr>) = Some (Ready [m], envs, w') \<and>
    is_delivered x None msg m"
proof -
  from assms(4,5,9) obtain ob where
    "frame x pid seq (og_name msg) False (og_payload msg) (og_headers msg) options grp = (Ok ob, seq')"
    by (auto simp: in_process_publish_topic_def Let_def split: prod.splits sum.splits)
  then have own: "Option.bind options deduplication_id = None"
    by (auto elim!: frame_Ok simp: fifo_settings_standard split: option.splits if_splits)
  have "topics_ok (w_bus w)" by (rule topics.kept.reachable_inv [OF assms(2)])
  with assms(5,6) have "\<not> is_fifo (bd_queue d)" unfolding topics_ok_def by auto
  then have "\<exists>ds w'. deliveries_receive x limit None d envs (w\<lparr>w_bus := b'\<rparr>) = Some (Ready ds, envs, w') \<and>
    list_all2 (\<lambda>e m. is_delivered x (partition_key_of x (is_fifo topic) (is_fifo (bd_queue d)) grp e) (fst e) m)
      (take limit [(msg, options)]) ds"
    by (intro publishes_in_order [OF assms(1-3) _ assms(6,7) _ _ assms(8) _ assms(10), where pid = pid and seq = seq and seq' = seq'])
      (use assms(4,5,9) own in simp_all)
  with assms(5,10) show ?thesis
    by (cases limit) (auto simp: partition_key_of_def list_all2_Cons1)
qed

end
