(* ===== verification/Queue_Policy.thy ===== *)
theory Queue_Policy
  imports Aws "HOL-Library.List_Lexorder" "HOL-Library.Char_ord"
begin

section \<open>The access policy that lets a topic deliver into a queue (queue\_policy.rs)\<close>

text \<open>
  The merge of a topic's grant into a queue's policy document, the test whether a statement
  already grants it, the statement's id, and the read-merge-write against the service. The JSON
  values are a datatype whose objects are \<open>BTreeMap\<close>s; \<open>serde_json\<close>'s parser and printer are
  code outside the repository, the parameter \<open>json_codec\<close>.
\<close>

subsection \<open>Definitions\<close>

datatype json =
    JNull
  | JBool bool
  | JNumber string
  | JString string
  | JArray "json list"
  | JObject "(string \<times> json) list"

record json_codec =
  js_parse :: "string \<Rightarrow> (string, json) rresult"
  js_print :: "json \<Rightarrow> string"

definition SNS_SERVICE :: string where "SNS_SERVICE = ''sns.amazonaws.com''"
definition SEND_MESSAGE :: string where "SEND_MESSAGE = ''sqs:SendMessage''"
definition ARN_CONDITIONS :: "string list" where "ARN_CONDITIONS = [''ArnEquals'', ''ArnLike'']"

text \<open>\<open>Value::get\<close> with a key, \<open>Value::as_str\<close>, and an object literal of \<open>json!\<close>.\<close>

fun json_get :: "json \<Rightarrow> string \<Rightarrow> json option" where
  "json_get (JObject m) k = map_of m k"
| "json_get _ k = None"

fun as_str :: "json \<Rightarrow> string option" where
  "as_str (JString s) = Some s"
| "as_str _ = None"

definition json_object :: "(string \<times> json) list \<Rightarrow> json" where
  "json_object members = JObject (fold (\<lambda>(k, v). btree_insert k v) members [])"

definition policy_names :: "json option \<Rightarrow> (string \<Rightarrow> bool) \<Rightarrow> bool" where
  "policy_names element wanted =
     (case element of
        Some (JString s) \<Rightarrow> wanted s
      | Some (JArray vs) \<Rightarrow> list_ex wanted (List.map_filter as_str vs)
      | _ \<Rightarrow> False)"

definition pins_source :: "(string \<times> json) list \<Rightarrow> string \<Rightarrow> bool" where
  "pins_source statement tarn =
     (case map_of statement ''Condition'' of
        None \<Rightarrow> False
      | Some condition \<Rightarrow>
          list_ex (\<lambda>operator. policy_names
              (Option.bind (json_get condition operator) (\<lambda>c. json_get c ''aws:SourceArn''))
              (\<lambda>arn. arn = tarn)) ARN_CONDITIONS)"

fun grants :: "json \<Rightarrow> string \<Rightarrow> bool" where
  "grants (JObject statement) tarn \<longleftrightarrow>
     Option.bind (map_of statement ''Effect'') as_str = Some ''Allow'' \<and>
     policy_names (Option.bind (map_of statement ''Principal'') (\<lambda>p. json_get p ''Service''))
       (\<lambda>service. service = SNS_SERVICE) \<and>
     policy_names (map_of statement ''Action'') (\<lambda>action. eq_ignore_ascii_case action SEND_MESSAGE) \<and>
     pins_source statement tarn"
| "grants _ tarn \<longleftrightarrow> False"

definition FNV_OFFSET :: "64 word" where "FNV_OFFSET = 0xcbf29ce484222325"
definition FNV_PRIME :: "64 word" where "FNV_PRIME = 0x00000100000001b3"

definition fnv_hash :: "bytes \<Rightarrow> 64 word" where
  "fnv_hash bs = fold (\<lambda>c hash. (xor hash (word_of_nat (byte c))) * FNV_PRIME) bs FNV_OFFSET"

definition sid :: "string \<Rightarrow> string" where
  "sid tarn = ''RustStreamSnsSend'' @ hex_fixed 16 (unat (fnv_hash tarn))"

definition grant :: "string \<Rightarrow> string \<Rightarrow> json" where
  "grant qarn tarn = json_object
     [(''Sid'', JString (sid tarn)), (''Effect'', JString ''Allow''),
      (''Principal'', json_object [(''Service'', JString SNS_SERVICE)]),
      (''Action'', JString SEND_MESSAGE), (''Resource'', JString qarn),
      (''Condition'', json_object [(''ArnEquals'', json_object [(''aws:SourceArn'', JString tarn)])])]"

text \<open>Reading the policy there is: a missing or blank one starts a document of its own.\<close>

definition current_policy :: "json_codec \<Rightarrow> string option \<Rightarrow> (string, json) rresult" where
  "current_policy c current =
     (case map_option trim current of
        None \<Rightarrow> Ok (json_object [(''Version'', JString ''2012-10-17'')])
      | Some text \<Rightarrow>
          if text = [] then Ok (json_object [(''Version'', JString ''2012-10-17'')])
          else map_err (\<lambda>e. ''the queue'' @ [CHR 0x27] @ ''s access policy is not JSON: '' @ e)
                 (js_parse c text))"

definition statements_of :: "json_codec \<Rightarrow> json option \<Rightarrow> (string, json list) rresult" where
  "statements_of c s =
     (case s of
        None \<Rightarrow> Ok []
      | Some (JArray statements) \<Rightarrow> Ok statements
      | Some (JObject m) \<Rightarrow> Ok [JObject m]
      | Some other \<Rightarrow> Err (''the queue'' @ [CHR 0x27]
          @ ''s access policy holds a Statement that is not a statement: '' @ js_print c other))"

definition with_topic_grant ::
    "json_codec \<Rightarrow> string option \<Rightarrow> string \<Rightarrow> string \<Rightarrow> (string, string option) rresult" where
  "with_topic_grant c current qarn tarn =
     (case current_policy c current of
        Inl e \<Rightarrow> Err e
      | Inr (JObject document) \<Rightarrow>
          (case statements_of c (map_of document ''Statement'') of
             Inl e \<Rightarrow> Err e
           | Inr statements \<Rightarrow>
               (let granted = list_ex (\<lambda>s. grants s tarn) statements;
                    statements' = (if granted then statements else statements @ [grant qarn tarn]);
                    document' = btree_insert ''Statement'' (JArray statements')
                                  (btree_remove ''Statement'' document)
                in Ok (if granted then None else Some (js_print c (JObject document')))))
      | Inr _ \<Rightarrow> Err (''the queue'' @ [CHR 0x27] @ ''s access policy is not a JSON object''))"

text \<open>The read, the merge and the write, under the lock that keeps one broker's grants apart.\<close>

definition grant_topic_send ::
    "'w aws_api \<Rightarrow> json_codec \<Rightarrow> string \<times> string \<Rightarrow> string \<Rightarrow> string \<Rightarrow> string \<Rightarrow> 'w aws
      \<Rightarrow> (sqs_error, unit) rresult \<times> 'w aws" where
  "grant_topic_send api c names url qarn tarn a =
     (let failed = QueuePolicyError (fst names) (snd names);
          (answer, w) = api_get_attribute api url ''Policy'' (aws_world a); a1 = a\<lparr>aws_world := w\<rparr>
      in case answer of
           Inl e \<Rightarrow> (Err (failed (SdkFailure e)), a1)
         | Inr current \<Rightarrow>
             (case with_topic_grant c current qarn tarn of
                Inl reason \<Rightarrow> (Err (failed (Reason reason)), a1)
              | Inr None \<Rightarrow> (Ok (), a1)
              | Inr (Some policy) \<Rightarrow>
                  (let (written, w') = api_set_attribute api url ''Policy'' policy w
                   in (map_err (\<lambda>e. failed (SdkFailure e)) written, a1\<lparr>aws_world := w'\<rparr>))))"

subsection \<open>What a grant grants\<close>

lemma grant_fields:
  "grant q t = JObject
     [(''Action'', JString SEND_MESSAGE),
      (''Condition'', JObject [(''ArnEquals'', JObject [(''aws:SourceArn'', JString t)])]),
      (''Effect'', JString ''Allow''), (''Principal'', JObject [(''Service'', JString SNS_SERVICE)]),
      (''Resource'', JString q), (''Sid'', JString (sid t))]"
  by (simp add: grant_def json_object_def list_less_def less_char_def)

lemma grants_grant: "grants (grant q t) t' \<longleftrightarrow> t = t'"
  by (simp add: grant_fields pins_source_def policy_names_def ARN_CONDITIONS_def eq_ignore_ascii_case_def)

text \<open>A merge that writes: the document it writes is the one read, with the grant behind the
  statements that were there.\<close>

lemma with_topic_grant_writes:
  assumes "with_topic_grant c current q t = Ok (Some text)"
  obtains document statements where
    "current_policy c current = Ok (JObject document)"
    "statements_of c (map_of document ''Statement'') = Ok statements"
    "\<forall>s \<in> set statements. \<not> grants s t"
    "text = js_print c (JObject (btree_insert ''Statement'' (JArray (statements @ [grant q t]))
              (btree_remove ''Statement'' document)))"
  using assms unfolding with_topic_grant_def
  by (auto simp: Let_def list_ex_iff split: sum.splits json.splits if_splits)

lemma with_topic_grant_keeps:
  assumes "with_topic_grant c current q t = Ok None"
  obtains document statements where
    "current_policy c current = Ok (JObject document)"
    "statements_of c (map_of document ''Statement'') = Ok statements"
    "\<exists>s \<in> set statements. grants s t"
  using assms unfolding with_topic_grant_def
  by (auto simp: Let_def list_ex_iff split: sum.splits json.splits if_splits)

text \<open>The codec reads a document back: what \<open>serde_json\<close> documents, at one document.\<close>

definition reads_back :: "json_codec \<Rightarrow> json \<Rightarrow> bool" where
  "reads_back c v \<longleftrightarrow> js_parse c (js_print c v) = Ok v \<and> trim (js_print c v) = js_print c v \<and>
     js_print c v \<noteq> []"

lemma current_policy_printed:
  "reads_back c v \<Longrightarrow> current_policy c (Some (js_print c v)) = Ok v"
  by (simp add: current_policy_def reads_back_def)

end
