(* ===== verification/Clients.thy ===== *)
theory Clients
  imports Prelude
begin

section \<open>Which clients a request goes out through (clients.rs)\<close>

text \<open>
  One set of SDK clients per runtime that sends requests. A broker's clients are identified by
  the address of their allocation (\<open>owner\<close>); a thread keeps one placement per broker it sent
  through, decided on the first request. Whether an allocation is still alive is the \<open>Weak\<close>
  handle's strong count, the parameter \<open>alive\<close>; the runtime a thread runs on is the parameter
  \<open>current\<close> (\<open>None\<close> outside any runtime). A client set is what it was built from: the SDK
  configuration with the broker's overrides in place.
\<close>

subsection \<open>Definitions\<close>

record sdk_config =
  sc_endpoint :: "string option"
  sc_region :: "string option"
  sc_rest :: string

record overrides =
  ov_endpoint :: "string option"
  ov_region :: "string option"

record client_config =
  cc_endpoint :: "string option"
  cc_region :: "string option"
  cc_rest :: string

datatype service = Sqs | Sns

text \<open>\<open>ClientSet::new\<close>. The service's own configuration, built from the shared one by the SDK
  (which may prefer a service-specific endpoint of the environment), is the parameter
  \<open>service_config\<close>; what the broker names replaces its value in either.\<close>

definition client_set ::
    "(service \<Rightarrow> sdk_config \<Rightarrow> client_config) \<Rightarrow> sdk_config \<Rightarrow> overrides \<Rightarrow> service \<Rightarrow> client_config" where
  "client_set service_config config ov s =
     (let c = service_config s config;
          c1 = (case ov_endpoint ov of None \<Rightarrow> c | Some e \<Rightarrow> c\<lparr>cc_endpoint := Some e\<rparr>)
      in case ov_region ov of None \<Rightarrow> c1 | Some r \<Rightarrow> c1\<lparr>cc_region := Some r\<rparr>)"

record clients =
  cl_owner :: nat
  cl_runtime :: nat
  cl_config :: sdk_config
  cl_overrides :: overrides

datatype placement = Home | Own nat

record thread_entry =
  te_owner :: nat
  te_placement :: placement

text \<open>A set of its own is built fresh per thread: \<open>Own\<close> carries the number of the build, so two
  builds are two connection pools. \<open>builds\<close> counts them.\<close>

record thread =
  th_entries :: "thread_entry list"
  th_builds :: nat

datatype chosen = HomeSet | OwnSet nat

fun set_for :: "placement \<Rightarrow> chosen" where
  "set_for Home = HomeSet"
| "set_for (Own n) = OwnSet n"

definition with_placed ::
    "(nat \<Rightarrow> bool) \<Rightarrow> nat option \<Rightarrow> clients \<Rightarrow> thread \<Rightarrow> chosen \<times> thread" where
  "with_placed alive current c th =
     (case find (\<lambda>e. te_owner e = cl_owner c) (th_entries th) of
        Some e \<Rightarrow> (set_for (te_placement e), th)
      | None \<Rightarrow>
          (case current of
             None \<Rightarrow> (HomeSet, th)
           | Some rt \<Rightarrow>
               (let (p, n) = (if rt = cl_runtime c then (Home, th_builds th)
                              else (Own (th_builds th), Suc (th_builds th)))
                in (set_for p,
                    \<lparr>th_entries = filter (\<lambda>e. alive (te_owner e)) (th_entries th)
                                  @ [\<lparr>te_owner = cl_owner c, te_placement = p\<rparr>],
                     th_builds = n\<rparr>))))"

text \<open>\<open>with\<close>: a thread being torn down has no entries to look in, and sends through home.\<close>

definition with_clients ::
    "(nat \<Rightarrow> bool) \<Rightarrow> nat option \<Rightarrow> clients \<Rightarrow> thread option \<Rightarrow> chosen \<times> thread option" where
  "with_clients alive current c th =
     (case th of None \<Rightarrow> (HomeSet, None)
      | Some t \<Rightarrow> (let (s, t') = with_placed alive current c t in (s, Some t')))"

subsection \<open>One entry per broker, decided once\<close>

definition thread_ok :: "thread \<Rightarrow> bool" where
  "thread_ok th \<longleftrightarrow> distinct (map te_owner (th_entries th)) \<and>
     (\<forall>e \<in> set (th_entries th). \<forall>n. te_placement e = Own n \<longrightarrow> n < th_builds th) \<and>
     (\<forall>e \<in> set (th_entries th). \<forall>f \<in> set (th_entries th). \<forall>n.
        te_placement e = Own n \<and> te_placement f = Own n \<longrightarrow> e = f)"

lemma find_owner_None:
  "find (\<lambda>e. te_owner e = k) es = None \<longleftrightarrow> k \<notin> te_owner ` set es"
  by (auto simp: find_None_iff)

lemma with_placed_ok: "thread_ok th \<Longrightarrow> thread_ok (snd (with_placed alive current c th))"
  by (auto simp: with_placed_def Let_def thread_ok_def find_owner_None less_Suc_eq
      split: option.splits intro: distinct_map_filter)

lemma with_placed_again:
  assumes "with_placed alive (Some rt) c th = (s, th')"
  shows "with_placed alive' current' c th' = (s, th')"
proof -
  have "find P (filter Q es @ [e]) = Some e" if "find P es = None" "P e" for P Q es and e :: thread_entry
    using that by (induction es) (auto split: if_splits)
  with assms show ?thesis
    by (auto simp: with_placed_def Let_def split: option.splits if_splits)
qed

end
