(* ===== verification/Broker.thy ===== *)
theory Broker
  imports In_Process Subscriber Queue_Policy Clients
begin

section \<open>The broker ladder (broker.rs) and its two transports\<close>

text \<open>
  The shared state behind every handle (\<open>Core\<close>): the transport, the closed flag, what bare-name
  registrations declared, and the harness's routing record. \<open>connect\<close> and
  \<open>connect_in_process\<close> fill the cell every publisher shares; the connected broker subscribes
  queues and topics over either transport, declares retries, and shuts down. The parameters are
  the SDK calls (\<open>aws_api\<close>), the configuration loader, and the JSON codec of the policy merge.
\<close>

subsection \<open>State\<close>

datatype ('h, 'w) transport = OverAws "'w aws" | InProcess "'h world"

record ('h, 'w) core =
  c_transport :: "('h, 'w) transport"
  c_closed :: bool
  c_declared :: "(string \<times> redrive) list"
  c_routing :: routing

definition new_core :: "('h, 'w) transport \<Rightarrow> ('h, 'w) core" where
  "new_core t = \<lparr>c_transport = t, c_closed = False, c_declared = [], c_routing = empty_routing\<rparr>"

definition ensure_open :: "('h, 'w) core \<Rightarrow> (sqs_error, unit) rresult" where
  "ensure_open core = (if c_closed core then Err NotConnected else Ok ())"

definition record_redrive :: "string \<Rightarrow> redrive option \<Rightarrow> ('h, 'w) core \<Rightarrow> ('h, 'w) core" where
  "record_redrive queue rd core =
     core\<lparr>c_declared := (case rd of Some r \<Rightarrow> hash_insert queue r (c_declared core)
                          | None \<Rightarrow> hash_remove queue (c_declared core))\<rparr>"

definition declared_redrive :: "string \<Rightarrow> ('h, 'w) core \<Rightarrow> redrive option" where
  "declared_redrive queue core = map_of (c_declared core) queue"

subsection \<open>Construction and connection\<close>

record sqs_broker =
  b_endpoint :: "string option"
  b_region :: "string option"
  b_test_credentials :: bool
  b_sdk_config :: "sdk_config option"

definition new_broker :: sqs_broker where
  "new_broker = \<lparr>b_endpoint = None, b_region = None, b_test_credentials = False, b_sdk_config = None\<rparr>"

definition from_config :: "sdk_config \<Rightarrow> sqs_broker" where
  "from_config config = new_broker\<lparr>b_sdk_config := Some config\<rparr>"

definition broker_endpoint :: "string \<Rightarrow> sqs_broker \<Rightarrow> sqs_broker" where
  "broker_endpoint e b = b\<lparr>b_endpoint := Some e\<rparr>"

definition broker_region :: "string \<Rightarrow> sqs_broker \<Rightarrow> sqs_broker" where
  "broker_region r b = b\<lparr>b_region := Some r\<rparr>"

definition broker_test_credentials :: "sqs_broker \<Rightarrow> sqs_broker" where
  "broker_test_credentials b = b\<lparr>b_test_credentials := True\<rparr>"

text \<open>What the environment loader is asked for: the broker's own settings and a per-attempt
  timeout of 25 seconds.\<close>

record loader =
  ld_endpoint :: "string option"
  ld_region :: "string option"
  ld_test_credentials :: bool
  ld_attempt_timeout :: duration

definition connect_config :: "(loader \<Rightarrow> sdk_config) \<Rightarrow> sqs_broker \<Rightarrow> sdk_config" where
  "connect_config load b =
     (case b_sdk_config b of
        Some config \<Rightarrow> config
      | None \<Rightarrow> load \<lparr>ld_endpoint = b_endpoint b, ld_region = b_region b,
                      ld_test_credentials = b_test_credentials b,
                      ld_attempt_timeout = from_secs 25\<rparr>)"

text \<open>The cell every handle of the broker shares: filled by the first connection, kept by the
  next. \<open>connect\<close> starts from the service world \<open>w\<close>.\<close>

definition broker_connect ::
    "(loader \<Rightarrow> sdk_config) \<Rightarrow> 'w \<Rightarrow> sqs_broker \<Rightarrow> ('h, 'w) core option \<Rightarrow> ('h, 'w) core" where
  "broker_connect load w b cell =
     (case cell of
        Some core \<Rightarrow> core
      | None \<Rightarrow>
          (let config = connect_config load b
           in new_core (OverAws \<lparr>aws_endpoint = or_else (b_endpoint b) (sc_endpoint config),
                aws_queue_urls = [], aws_topic_arns = [], aws_world = w\<rparr>)))"

definition in_process_region :: "sqs_broker \<Rightarrow> string" where
  "in_process_region b =
     (case or_else (b_region b) (Option.bind (b_sdk_config b) sc_region) of
        None \<Rightarrow> ''us-east-1'' | Some r \<Rightarrow> r)"

definition connect_in_process ::
    "sqs_broker \<Rightarrow> ('h, 'w) core option \<Rightarrow> (sqs_error, ('h, 'w) core) rresult" where
  "connect_in_process b cell =
     (case cell of
        None \<Rightarrow> Ok (new_core (InProcess (new_world
            (new_bus (or_else (b_endpoint b) (Option.bind (b_sdk_config b) sc_endpoint))
                     (in_process_region b)))))
      | Some core \<Rightarrow>
          (case c_transport core of
             InProcess w \<Rightarrow> Ok core
           | OverAws a \<Rightarrow> Err (ConfigError (''this broker'' @ [CHR 0x27]
               @ ''s handles already connected to AWS, so it cannot connect in process as well''))))"

definition shutdown :: "('h, 'w) core \<Rightarrow> ('h, 'w) core" where
  "shutdown core = core\<lparr>c_closed := True\<rparr>"

subsection \<open>Subscribing\<close>

datatype lane = LiveLane receiver | InProcessLane bus_deliveries

definition on_aws :: "'w aws \<Rightarrow> ('h, 'w) core \<Rightarrow> ('h, 'w) core" where
  "on_aws a core = core\<lparr>c_transport := OverAws a\<rparr>"

definition on_bus :: "'h world \<Rightarrow> ('h, 'w) core \<Rightarrow> ('h, 'w) core" where
  "on_bus w core = core\<lparr>c_transport := InProcess w\<rparr>"

text \<open>The live half of \<open>subscribe_queue\<close>: the URL, the redrive policy, the receiver.\<close>

definition live_subscribe ::
    "'w aws_api \<Rightarrow> (string \<Rightarrow> string) \<Rightarrow> sqs_queue \<Rightarrow> 'w aws \<Rightarrow> (sqs_error, receiver) rresult \<times> 'w aws" where
  "live_subscribe api debug queue a =
     (case (if sq_create_if_missing queue then ensure_queue api (sq_queue queue) a
            else queue_url api (sq_queue queue) a) of
        (Inl e, a1) \<Rightarrow> (Err e, a1)
      | (Inr url, a1) \<Rightarrow>
          (case redrive_of queue of
             Inl e \<Rightarrow> (Err e, a1)
           | Inr None \<Rightarrow> subscriber_open api debug (sq_queue queue) url queue a1
           | Inr (Some rd) \<Rightarrow>
               (case set_redrive_policy api (sq_queue queue) url rd (sq_create_if_missing queue) a1 of
                  (Inl e, a2) \<Rightarrow> (Err e, a2)
                | (Inr _, a2) \<Rightarrow> subscriber_open api debug (sq_queue queue) url queue a2)))"

definition subscribe_queue ::
    "'w aws_api \<Rightarrow> (string \<Rightarrow> string) \<Rightarrow> sqs_queue \<Rightarrow> ('h, 'w) core
      \<Rightarrow> (sqs_error, lane) rresult \<times> ('h, 'w) core" where
  "subscribe_queue api debug queue core =
     (case and_then (validate queue) (\<lambda>_. ensure_open core) of
        Inl e \<Rightarrow> (Err e, core)
      | Inr _ \<Rightarrow>
          (case c_transport core of
             InProcess w \<Rightarrow>
               (case in_process_subscribe queue w of
                  (Inl e, w') \<Rightarrow> (Err e, on_bus w' core)
                | (Inr d, w') \<Rightarrow> (Ok (InProcessLane d), on_bus w' core))
           | OverAws a \<Rightarrow>
               (case live_subscribe api debug queue a of
                  (Inl e, a') \<Rightarrow> (Err e, on_aws a' core)
                | (Inr r, a') \<Rightarrow> (Ok (LiveLane r), on_aws a' core))))"

text \<open>A bare name: the descriptor of that name, with what its registration declared.\<close>

definition subscribe_by_name ::
    "'w aws_api \<Rightarrow> (string \<Rightarrow> string) \<Rightarrow> string \<Rightarrow> ('h, 'w) core
      \<Rightarrow> (sqs_error, lane) rresult \<times> ('h, 'w) core" where
  "subscribe_by_name api debug name core =
     subscribe_queue api debug (with_redrive (declared_redrive name core) (new_queue name)) core"

definition declare_retry ::
    "string \<Rightarrow> nat option \<Rightarrow> string option \<Rightarrow> ('h, 'w) core \<Rightarrow> (sqs_error, unit) rresult \<times> ('h, 'w) core" where
  "declare_retry name max_attempts dl core =
     (case redrive_of (with_declaration max_attempts dl (new_queue name)) of
        Inl e \<Rightarrow> (Err e, core)
      | Inr rd \<Rightarrow> (Ok (), record_redrive name rd core))"

subsection \<open>Topics\<close>

definition live_subscribe_topic ::
    "'w aws_api \<Rightarrow> json_codec \<Rightarrow> string \<Rightarrow> string \<Rightarrow> 'w aws \<Rightarrow> (sqs_error, unit) rresult \<times> 'w aws" where
  "live_subscribe_topic api codec topic queue a =
     (case topic_arn api topic a of
        (Inl e, a1) \<Rightarrow> (Err e, a1)
      | (Inr tarn, a1) \<Rightarrow>
        (case queue_url api queue a1 of
           (Inl e, a2) \<Rightarrow> (Err e, a2)
         | (Inr url, a2) \<Rightarrow>
           (case queue_arn api queue url a2 of
              (Inl e, a3) \<Rightarrow> (Err e, a3)
            | (Inr qarn, a3) \<Rightarrow>
              (case grant_topic_send api codec (topic, queue) url qarn tarn a3 of
                 (Inl e, a4) \<Rightarrow> (Err e, a4)
               | (Inr _, a4) \<Rightarrow>
                 (let (answer, w) = api_subscribe api tarn ''sqs'' qarn
                        [(''RawMessageDelivery'', ''true'')] (aws_world a4)
                  in (map_err (\<lambda>e. AdminError topic (SdkFailure e)) answer, a4\<lparr>aws_world := w\<rparr>))))))"

definition subscribe_queue_to_topic ::
    "'w aws_api \<Rightarrow> json_codec \<Rightarrow> string \<Rightarrow> string \<Rightarrow> ('h, 'w) core
      \<Rightarrow> (sqs_error, unit) rresult \<times> ('h, 'w) core" where
  "subscribe_queue_to_topic api codec topic queue core =
     (case ensure_open core of
        Inl e \<Rightarrow> (Err e, core)
      | Inr _ \<Rightarrow>
          (let (r, core1) =
                 (case c_transport core of
                    InProcess w \<Rightarrow>
                      (let (r, b) = in_process_subscribe_topic topic queue (w_bus w)
                       in (r, on_bus (w\<lparr>w_bus := b\<rparr>) core))
                  | OverAws a \<Rightarrow>
                      (let (r, a') = live_subscribe_topic api codec topic queue a
                       in (r, on_aws a' core)))
           in (r, if is_ok r
                  then core1\<lparr>c_routing := record_topic_queue topic queue (c_routing core1)\<rparr>
                  else core1)))"

end
