(* ===== verification/Publishing.thy ===== *)
theory Publishing
  imports Broker
begin

section \<open>The publishers (publisher.rs, sns.rs) and the documents they write\<close>

text \<open>
  \<open>SqsPublisher\<close> and \<open>SnsPublisher\<close> over the cell they share with the broker: the check for a
  connection that is there and open, the live send and publish, the in-process ones, the fan-out
  a publish policy declares, and the note the harness's routing keeps of a paired publisher's
  publishes. A publish reads the clock and the process id; the counter behind generated
  deduplication ids and the cell's content are the state it passes on. Whichever transport the
  cell holds, the crate's own framing and FIFO ladder run first; \<open>send_api\<close> is the SDK's two
  calls and its SNS attribute builder.
\<close>

record 'w send_api =
  api_send_message :: "string \<Rightarrow> string \<Rightarrow> (string \<times> message_attribute) list option
      \<Rightarrow> fifo_settings option \<Rightarrow> 'w \<Rightarrow> (string, unit) rresult \<times> 'w"
  api_publish_message :: "string \<Rightarrow> string \<Rightarrow> (string \<times> message_attribute) list option
      \<Rightarrow> fifo_settings option \<Rightarrow> 'w \<Rightarrow> (string, unit) rresult \<times> 'w"
  api_build_sns_attribute :: "message_attribute \<Rightarrow> (string, message_attribute) rresult"

subsection \<open>The cell\<close>

definition publisher_core :: "('h, 'w) core option \<Rightarrow> (sqs_error, ('h, 'w) core) rresult" where
  "publisher_core cell =
     (case cell of None \<Rightarrow> Err NotConnected
      | Some core \<Rightarrow> and_then (ensure_open core) (\<lambda>_. Ok core))"

text \<open>A publisher notes a publish only when a policy paired it.\<close>

definition note_publish :: "bool \<Rightarrow> string \<Rightarrow> surface \<Rightarrow> ('h, 'w) core option \<Rightarrow> ('h, 'w) core option" where
  "note_publish paired destination s cell =
     (if paired
      then map_option (\<lambda>core. core\<lparr>c_routing := routing_published destination s (c_routing core)\<rparr>) cell
      else cell)"

subsection \<open>Sending to a queue\<close>

record sqs_publisher =
  pub_group :: "string option"
  pub_paired :: bool

definition new_sqs_publisher :: sqs_publisher where
  "new_sqs_publisher = \<lparr>pub_group = None, pub_paired = False\<rparr>"

definition sqs_paired :: "sqs_publish \<Rightarrow> sqs_publisher" where
  "sqs_paired p = \<lparr>pub_group = policy_group p, pub_paired = True\<rparr>"

definition some_attributes :: "(string \<times> 'a) list \<Rightarrow> (string \<times> 'a) list option" where
  "some_attributes as = (if as = [] then None else Some as)"

definition live_send ::
    "'h externals \<Rightarrow> 'w aws_api \<Rightarrow> 'w send_api \<Rightarrow> nat \<Rightarrow> 'h outgoing \<Rightarrow> publish_options option
      \<Rightarrow> string option \<Rightarrow> nat \<times> 'w aws \<Rightarrow> (sqs_error, unit) rresult \<times> (nat \<times> 'w aws)" where
  "live_send x api send pid msg options default_group st =
     (let (seq, a) = st; destination = og_name msg
      in case queue_url api destination a of
           (Inl e, a1) \<Rightarrow> (Err e, (seq, a1))
         | (Inr url, a1) \<Rightarrow>
             (let (body, marker) = encode_body x (og_payload msg);
                  fifo = is_fifo destination \<or> is_fifo url
              in case encode_attributes x (og_headers msg) marker fifo destination of
                   Inl e \<Rightarrow> (Err e, (seq, a1))
                 | Inr (attributes, partition_key) \<Rightarrow>
                     (case fifo_settings pid seq destination fifo options partition_key default_group of
                        (Inl e, seq') \<Rightarrow> (Err e, (seq', a1))
                      | (Inr settings, seq') \<Rightarrow>
                          (let (r, w) = api_send_message send url body (some_attributes attributes)
                                          settings (aws_world a1)
                           in (map_err (\<lambda>e. PublishError destination (SdkFailure e)) r,
                               (seq', a1\<lparr>aws_world := w\<rparr>))))))"

definition sqs_send ::
    "'h externals \<Rightarrow> 'w aws_api \<Rightarrow> 'w send_api \<Rightarrow> nat \<Rightarrow> sqs_publisher \<Rightarrow> 'h outgoing
      \<Rightarrow> publish_options option \<Rightarrow> nat \<times> ('h, 'w) core option
      \<Rightarrow> (sqs_error, unit) rresult \<times> (nat \<times> ('h, 'w) core option)" where
  "sqs_send x api send pid p msg options st =
     (let (seq, cell) = st
      in case publisher_core cell of
           Inl e \<Rightarrow> (Err e, st)
         | Inr core \<Rightarrow>
             (case c_transport core of
                InProcess w \<Rightarrow>
                  (let (r, (seq', b)) = in_process_send x pid (w_now w) msg options (pub_group p) (seq, w_bus w)
                   in (r, (seq', Some (on_bus (w\<lparr>w_bus := b\<rparr>) core))))
              | OverAws a \<Rightarrow>
                  (let (r, (seq', a')) = live_send x api send pid msg options (pub_group p) (seq, a)
                   in (r, (seq', Some (on_aws a' core))))))"

definition sqs_publisher_publish ::
    "'h externals \<Rightarrow> 'w aws_api \<Rightarrow> 'w send_api \<Rightarrow> nat \<Rightarrow> sqs_publisher \<Rightarrow> 'h outgoing
      \<Rightarrow> publish_options option \<Rightarrow> nat \<times> ('h, 'w) core option
      \<Rightarrow> (sqs_error, unit) rresult \<times> (nat \<times> ('h, 'w) core option)" where
  "sqs_publisher_publish x api send pid p msg options st =
     (let (r, (seq, cell)) = sqs_send x api send pid p msg options st
      in (r, (seq, if is_ok r then note_publish (pub_paired p) (og_name msg) QueueSurface cell else cell)))"

subsection \<open>Publishing to a topic\<close>

record sns_publish =
  sp_group :: "string option"
  sp_fan_out :: "string list"

definition default_sns_publish :: sns_publish where
  "default_sns_publish = \<lparr>sp_group = None, sp_fan_out = []\<rparr>"

definition sns_group_id :: "string \<Rightarrow> sns_publish \<Rightarrow> sns_publish" where
  "sns_group_id g p = p\<lparr>sp_group := Some g\<rparr>"

definition fans_out_to :: "string list \<Rightarrow> sns_publish \<Rightarrow> sns_publish" where
  "fans_out_to queues p = p\<lparr>sp_fan_out := sp_fan_out p @ queues\<rparr>"

record sns_publisher =
  snsp_group :: "string option"
  snsp_paired :: bool
  snsp_fan_out :: "string list"

definition new_sns_publisher :: sns_publisher where
  "new_sns_publisher = \<lparr>snsp_group = None, snsp_paired = False, snsp_fan_out = []\<rparr>"

definition sns_paired :: "sns_publish \<Rightarrow> sns_publisher" where
  "sns_paired p = \<lparr>snsp_group = sp_group p, snsp_paired = True, snsp_fan_out = sp_fan_out p\<rparr>"

definition put_sns_attribute ::
    "'w send_api \<Rightarrow> string \<Rightarrow> attribute_value \<Rightarrow> (string \<times> message_attribute) list
      \<Rightarrow> (cause, (string \<times> message_attribute) list) rresult" where
  "put_sns_attribute send name val attributes =
     (case api_build_sns_attribute send (wire_attribute val) of
        Inl e \<Rightarrow> Err (SdkFailure e)
      | Inr a \<Rightarrow> Ok (hash_insert name a attributes))"

definition live_publish ::
    "'h externals \<Rightarrow> 'w aws_api \<Rightarrow> 'w send_api \<Rightarrow> nat \<Rightarrow> 'h outgoing \<Rightarrow> publish_options option
      \<Rightarrow> string option \<Rightarrow> nat \<times> 'w aws \<Rightarrow> (sqs_error, unit) rresult \<times> (nat \<times> 'w aws)" where
  "live_publish x api send pid msg options default_group st =
     (let (seq, a) = st; destination = og_name msg
      in case topic_arn api destination a of
           (Inl e, a1) \<Rightarrow> (Err e, (seq, a1))
         | (Inr arn, a1) \<Rightarrow>
             (let (body, marker) = encode_body x (og_payload msg); fifo = is_fifo arn
              in case encode_attributes_with x (og_headers msg) marker fifo destination
                        (put_sns_attribute send) [] of
                   Inl e \<Rightarrow> (Err e, (seq, a1))
                 | Inr (grp, attributes) \<Rightarrow>
                     (case fifo_settings pid seq destination fifo options (map_option from_utf8_lossy grp)
                             default_group of
                        (Inl e, seq') \<Rightarrow> (Err e, (seq', a1))
                      | (Inr settings, seq') \<Rightarrow>
                          (let (r, w) = api_publish_message send arn body (some_attributes attributes)
                                          settings (aws_world a1)
                           in (map_err (\<lambda>e. PublishError destination (SdkFailure e)) r,
                               (seq', a1\<lparr>aws_world := w\<rparr>))))))"

text \<open>The fan-out a policy declares, on the account when the transport is one, then the
  harness's record.\<close>

definition core_fan_out ::
    "string \<Rightarrow> string list \<Rightarrow> ('h, 'w) core \<Rightarrow> (sqs_error, unit) rresult \<times> ('h, 'w) core" where
  "core_fan_out topic queues core =
     (case c_transport core of
        InProcess w \<Rightarrow>
          (let (r, (ob, rt)) = declare_fan_out topic queues (Some (w_bus w), c_routing core)
           in (r, (on_bus (case ob of None \<Rightarrow> w | Some b \<Rightarrow> w\<lparr>w_bus := b\<rparr>) core)\<lparr>c_routing := rt\<rparr>))
      | OverAws a \<Rightarrow>
          (let (r, (ob, rt)) = declare_fan_out topic queues (None :: 'h bus option, c_routing core)
           in (r, core\<lparr>c_routing := rt\<rparr>)))"

definition publish_to_topic ::
    "'h externals \<Rightarrow> 'w aws_api \<Rightarrow> 'w send_api \<Rightarrow> nat \<Rightarrow> sns_publisher \<Rightarrow> 'h outgoing
      \<Rightarrow> publish_options option \<Rightarrow> nat \<times> ('h, 'w) core option
      \<Rightarrow> (sqs_error, unit) rresult \<times> (nat \<times> ('h, 'w) core option)" where
  "publish_to_topic x api send pid p msg options st =
     (let (seq, cell) = st
      in case publisher_core cell of
           Inl e \<Rightarrow> (Err e, st)
         | Inr core \<Rightarrow>
             (case c_transport core of
                InProcess w \<Rightarrow>
                  (let (r, (seq', b)) = in_process_publish_topic x pid (w_now w) msg options
                          (snsp_group p) (seq, w_bus w)
                   in (r, (seq', Some (on_bus (w\<lparr>w_bus := b\<rparr>) core))))
              | OverAws a \<Rightarrow>
                  (let (r, (seq', a')) = live_publish x api send pid msg options (snsp_group p) (seq, a)
                   in (r, (seq', Some (on_aws a' core))))))"

definition sns_publisher_publish ::
    "'h externals \<Rightarrow> 'w aws_api \<Rightarrow> 'w send_api \<Rightarrow> nat \<Rightarrow> sns_publisher \<Rightarrow> 'h outgoing
      \<Rightarrow> publish_options option \<Rightarrow> nat \<times> ('h, 'w) core option
      \<Rightarrow> (sqs_error, unit) rresult \<times> (nat \<times> ('h, 'w) core option)" where
  "sns_publisher_publish x api send pid p msg options st =
     (case publisher_core (snd st) of
        Inl e \<Rightarrow> (Err e, st)
      | Inr core \<Rightarrow>
          (case core_fan_out (og_name msg) (snsp_fan_out p) core of
             (Inl e, core') \<Rightarrow> (Err e, (fst st, Some core'))
           | (Inr _, core') \<Rightarrow>
               (let (r, (seq, cell)) = publish_to_topic x api send pid p msg options (fst st, Some core')
                in (r, (seq, if is_ok r then note_publish (snsp_paired p) (og_name msg) TopicSurface cell
                             else cell)))))"

subsection \<open>The harness's hold on a connected broker\<close>

definition core_install_coordinator :: "('h, 'w) core \<Rightarrow> ('h, 'w) core" where
  "core_install_coordinator core =
     (case c_transport core of
        InProcess w \<Rightarrow> on_bus (w\<lparr>w_bus := install_coordinator (w_bus w)\<rparr>) core
      | OverAws a \<Rightarrow> core)"

text \<open>\<open>inject\<close> and \<open>published\<close> panic (\<open>None\<close>) over AWS, and \<open>inject\<close> on a message SQS refuses.\<close>

definition core_inject ::
    "'h externals \<Rightarrow> nat \<Rightarrow> 'h outgoing \<Rightarrow> nat \<times> ('h, 'w) core \<Rightarrow> (nat \<times> ('h, 'w) core) option" where
  "core_inject x pid msg st =
     (case c_transport (snd st) of
        OverAws a \<Rightarrow> None
      | InProcess w \<Rightarrow>
          (case inject x pid (w_now w) msg (fst st, w_bus w) of
             (Inl e, _) \<Rightarrow> None
           | (Inr _, (seq, b)) \<Rightarrow> Some (seq, on_bus (w\<lparr>w_bus := b\<rparr>) (snd st))))"

definition core_published :: "string \<Rightarrow> ('h, 'w) core \<Rightarrow> 'h raw_message list option" where
  "core_published name core =
     (case c_transport core of OverAws a \<Rightarrow> None | InProcess w \<Rightarrow> Some (bus_published name (w_bus w)))"

definition core_routes ::
    "string \<Rightarrow> string list \<Rightarrow> ('h, 'w) core \<Rightarrow> nat list \<times> ('h, 'w) core" where
  "core_routes destination subscriptions core =
     (let (is, rt) = routes destination subscriptions (c_routing core)
      in (is, core\<lparr>c_routing := rt\<rparr>))"

subsection \<open>Channel bindings of a publish position\<close>

record published_queue =
  pq_name :: string
  pq_fifo_queue :: bool

definition sqs_channel_binding :: "string \<Rightarrow> published_queue" where
  "sqs_channel_binding channel = \<lparr>pq_name = channel, pq_fifo_queue = is_fifo channel\<rparr>"

record topic_ordering =
  to_kind :: string
  to_content_based_deduplication :: bool

record published_topic =
  pt_name :: string
  pt_ordering :: "topic_ordering option"

definition sns_channel_binding :: "string \<Rightarrow> published_topic" where
  "sns_channel_binding channel =
     \<lparr>pt_name = channel,
      pt_ordering = (if is_fifo channel
                     then Some \<lparr>to_kind = ''FIFO'', to_content_based_deduplication = False\<rparr>
                     else None)\<rparr>"

end
