(* ===== verification/Describe.thy ===== *)
theory Describe
  imports Broker
begin

section \<open>The server coordinate of the generated document (broker/describe.rs)\<close>

text \<open>
  Where a broker says its clients connect. The framework's \<open>ServerSpec::host_from_url\<close> and the
  SDK's endpoint rules are code outside the repository: the parameters \<open>host_from_url\<close> and
  \<open>resolve\<close>, the URL the rules give a region under the configuration's FIPS and dual-stack
  settings, if they give one.
\<close>

definition regional_host ::
    "(string \<Rightarrow> string) \<Rightarrow> (string \<Rightarrow> sdk_config option \<Rightarrow> string option) \<Rightarrow> string \<Rightarrow> sdk_config option
      \<Rightarrow> string option" where
  "regional_host host_from_url resolve region configured =
     (case resolve region configured of
        None \<Rightarrow> None
      | Some url \<Rightarrow> (let host = host_from_url url in if host = [] then None else Some host))"

definition describe_server ::
    "(string \<Rightarrow> string) \<Rightarrow> (string \<Rightarrow> sdk_config option \<Rightarrow> string option) \<Rightarrow> sqs_broker
      \<Rightarrow> string \<times> string" where
  "describe_server host_from_url resolve b =
     (let configured = b_sdk_config b;
          known = map host_from_url
            (List.map_filter id [b_endpoint b, Option.bind configured sc_endpoint]);
          host = or_else (find (\<lambda>h. h \<noteq> []) known)
                   (Option.bind (or_else (b_region b) (Option.bind configured sc_region))
                      (\<lambda>region. regional_host host_from_url resolve region configured))
      in ((case host of None \<Rightarrow> ''sqs.amazonaws.com'' | Some h \<Rightarrow> h), ''sqs''))"

end
