(* ===== verification/Transport_Properties.thy ===== *)
theory Transport_Properties
  imports Publishing Describe Wire_Properties
begin

section \<open>Properties of the broker and its transports\<close>

text \<open>
  Across components: what a closed or unconnected broker answers, the two spellings of a retry
  declaration, connecting, the caches of resolved names, the merge of a topic's grant into a
  queue's policy, what a live subscription hands over and what its pump asks for, and which clients a
  thread sends through.
\<close>

subsection \<open>A sample service\<close>

text \<open>A service that counts its calls and answers every one of them.\<close>

definition sample_api :: "nat aws_api" where
  "sample_api =
     \<lparr>api_get_queue_url = (\<lambda>q n. (Ok (Some (''https://sqs/1/'' @ q)), n + 1)),
      api_create_queue = (\<lambda>q as n. (Ok (Some (''https://sqs/1/'' @ q)), n + 1)),
      api_get_attribute = (\<lambda>url a n. (Ok (Some ''30''), n + 1)),
      api_set_attribute = (\<lambda>url a v n. (Ok (), n + 1)),
      api_create_topic = (\<lambda>t as n. (Ok (Some (''arn:aws:sns:r:1:'' @ t)), n + 1)),
      api_subscribe = (\<lambda>t p e as n. (Ok (), n + 1))\<rparr>"

definition sample_aws :: "nat aws" where
  "sample_aws = \<lparr>aws_endpoint = None, aws_queue_urls = [], aws_topic_arns = [], aws_world = 0\<rparr>"

definition sample_core :: "((string \<times> bytes) list, nat) core" where
  "sample_core = new_core (InProcess sample_start)"

subsection \<open>Closed and unconnected\<close>

text \<open>After \<open>shutdown\<close> every handle answers \<open>NotConnected\<close> and touches nothing: opening a
  subscription, subscribing a queue to a topic, sending and publishing leave the transport, the
  counter and the harness's record as they were; a publisher whose broker never connected answers
  the same.\<close>

lemma closed_broker_refuses:
  assumes "validate q = Ok ()"
  shows "subscribe_queue api debug q (shutdown core) = (Err NotConnected, shutdown core) \<and>
    subscribe_queue_to_topic api codec topic queue (shutdown core) = (Err NotConnected, shutdown core) \<and>
    sqs_publisher_publish x api send pid p msg options (seq, Some (shutdown core)) =
      (Err NotConnected, (seq, Some (shutdown core))) \<and>
    sns_publisher_publish x api send pid sp msg options (seq, Some (shutdown core)) =
      (Err NotConnected, (seq, Some (shutdown core))) \<and>
    sqs_publisher_publish x api send pid p msg options (seq, None :: ('h, 'w) core option) =
      (Err NotConnected, (seq, None)) \<and>
    sns_publisher_publish x api send pid sp msg options (seq, None :: ('h, 'w) core option) =
      (Err NotConnected, (seq, None))"
  using assms
  by (simp add: subscribe_queue_def subscribe_queue_to_topic_def sqs_publisher_publish_def sqs_send_def
      sns_publisher_publish_def publisher_core_def ensure_open_def shutdown_def)

lemma closed_broker_refuses_instance:
  "subscribe_queue sample_api id (new_queue ''orders'') (shutdown sample_core) =
     (Err NotConnected, shutdown sample_core)"
proof -
  have "validate (new_queue ''orders'') = Ok ()"
    by (simp add: validate_def new_queue_def redrive_of_def MAX_WAIT_def)
  then show ?thesis by (rule closed_broker_refuses [THEN conjunct1])
qed

subsection \<open>Declarations\<close>

text \<open>C38: a bare queue name subscribes as its descriptor does. After a registration's declaration
  was taken, subscribing by name is subscribing the descriptor of that name with the declaration on
  it, over either transport; a later registration that declares nothing clears it.\<close>

theorem by_name_is_descriptor:
  assumes "declare_retry name max_attempts dl core = (Ok (), core1)"
  shows "subscribe_by_name api debug name core1 =
    subscribe_queue api debug (with_declaration max_attempts dl (new_queue name)) core1"
proof -
  have "with_redrive (declared_redrive name core1) (new_queue name) =
      with_declaration max_attempts dl (new_queue name)"
    using assms
    by (cases max_attempts; cases dl)
      (auto simp: declare_retry_def redrive_of_def with_declaration_def new_queue_def record_redrive_def
        declared_redrive_def with_redrive_def hash_insert_def hash_remove_def update_conv' delete_conv')
  then show ?thesis by (simp add: subscribe_by_name_def)
qed

theorem by_name_is_descriptor_witness:
  "subscribe_by_name sample_api id ''orders'' (snd (declare_retry ''orders'' (Some 3) (Some ''dead'') sample_core)) =
     subscribe_queue sample_api id (with_declaration (Some 3) (Some ''dead'') (new_queue ''orders''))
       (snd (declare_retry ''orders'' (Some 3) (Some ''dead'') sample_core))"
  by (rule by_name_is_descriptor [where core = sample_core])
    (simp add: declare_retry_def with_declaration_def new_queue_def redrive_of_def)

subsection \<open>Connecting\<close>

text \<open>A broker connects once. A cell a connection filled keeps it, whatever connects next; a
  handle connected to AWS refuses to connect in process, and one connected in process connects
  there again to the same account.\<close>

lemma connects_once:
  "broker_connect load' w' b' (Some (broker_connect load w b cell)) = broker_connect load w b cell \<and>
   (\<exists>reason. connect_in_process b' (Some (broker_connect load w b None)) = Err (ConfigError reason)) \<and>
   (\<exists>core. connect_in_process b None = Ok core \<and> connect_in_process b' (Some core) = Ok core)"
  by (simp add: broker_connect_def connect_in_process_def new_core_def Let_def)

subsection \<open>Resolved names\<close>

text \<open>Resolving names one after another.\<close>

fun resolve_all :: "'w aws_api \<Rightarrow> string list \<Rightarrow> 'w aws \<Rightarrow> 'w aws" where
  "resolve_all api [] a = a"
| "resolve_all api (n # ns) a = resolve_all api ns (snd (queue_url api n a))"

lemma cached_stays:
  "map_of (aws_queue_urls a) q = Some url \<Longrightarrow> map_of (aws_queue_urls (resolve_all api ns a)) q = Some url"
proof (induction ns arbitrary: a)
  case (Cons n ns)
  have "map_of (aws_queue_urls (snd (queue_url api n a))) q = Some url"
  proof (cases "n = q")
    case True
    with Cons.prems show ?thesis by (auto simp: queue_url_def)
  next
    case False
    have "queue_url api n a = (fst (queue_url api n a), snd (queue_url api n a))" by simp
    from queue_url_keeps(1) [OF this, of q] False Cons.prems show ?thesis by simp
  qed
  then show ?case using Cons.IH by simp
qed simp

text \<open>A queue name is resolved once. A queue whose URL was resolved is answered with the same
  URL from then on without a call to the service, whatever other names were resolved in between;
  the URL stands on the configured endpoint when there is one.\<close>

lemma resolved_once:
  assumes "queue_url api q a = (Ok url, a1)"
  shows "queue_url api' q (resolve_all api ns a1) = (Ok url, resolve_all api ns a1)"
proof (cases "is_url q")
  case True
  with assms show ?thesis by (simp add: queue_url_def)
next
  case False
  with assms have "map_of (aws_queue_urls a1) q = Some url"
    by (auto simp: queue_url_def Let_def hash_insert_def update_conv' split: option.splits prod.splits sum.splits)
  from cached_stays [OF this] False show ?thesis by (simp add: queue_url_def)
qed

lemma resolved_once_instance:
  "let a1 = snd (queue_url sample_api ''orders'' sample_aws); a2 = resolve_all sample_api [''a'', ''b''] a1
   in queue_url sample_api ''orders'' a2 = (Ok ''https://sqs/1/orders'', a2) \<and> aws_world a2 = 3"
proof -
  have "queue_url sample_api ''orders'' sample_aws =
      (Ok ''https://sqs/1/orders'', snd (queue_url sample_api ''orders'' sample_aws))"
    "aws_world (resolve_all sample_api [''a'', ''b''] (snd (queue_url sample_api ''orders'' sample_aws))) = 3"
    by code_simp+
  with resolved_once [OF this(1), where api' = sample_api and ns = "[''a'', ''b'']"] show ?thesis
    unfolding Let_def by blast
qed

subsection \<open>The queue's access policy\<close>

text \<open>A grant is for its topic alone. The statement the crate adds is recognised as granting
  the topic it was built for and no other.\<close>

lemma grant_pins_topic: "grants (grant qarn tarn) tarn' \<longleftrightarrow> tarn' = tarn"
  by (auto simp: grants_grant)

text \<open>C40: the merge only adds. When the crate writes a queue's policy, the document it writes is
  the one it read with the topic's statement behind the statements that were there: every other
  member is untouched, no statement is lost, and none already granted the topic.\<close>

theorem policy_merge_adds:
  assumes "with_topic_grant c current qarn tarn = Ok (Some written)"
    and "current_policy c current = Ok (JObject document)" and "btree_wf document"
  shows "\<exists>statements members.
    statements_of c (map_of document ''Statement'') = Ok statements \<and>
    written = js_print c (JObject members) \<and>
    map_of members = (map_of document)(''Statement'' \<mapsto> JArray (statements @ [grant qarn tarn])) \<and>
    list_all (\<lambda>s. \<not> grants s tarn) statements"
  using assms(1)
proof (rule with_topic_grant_writes)
  fix document' statements
  let ?members = "btree_insert ''Statement'' (JArray (statements @ [grant qarn tarn])) (btree_remove ''Statement'' document)"
  assume "current_policy c current = Ok (JObject document')"
    and "statements_of c (map_of document' ''Statement'') = Ok statements"
    and "\<forall>s \<in> set statements. \<not> grants s tarn"
    and "written = js_print c (JObject (btree_insert ''Statement'' (JArray (statements @ [grant qarn tarn]))
              (btree_remove ''Statement'' document')))"
  moreover have "map_of ?members = (map_of document)(''Statement'' \<mapsto> JArray (statements @ [grant qarn tarn]))"
    by (simp add: btree_lookup_insert btree_lookup_remove [OF assms(3)])
  ultimately show ?thesis using assms(2)
    by (intro exI [of _ statements] exI [of _ ?members]) (simp add: list_all_iff)
qed

text \<open>A grant is written once. Subscribing the queue to the topic again, with the policy the
  first time wrote on it, writes nothing, as long as the codec reads back the document it printed.\<close>

lemma grant_written_once:
  assumes "with_topic_grant c current qarn tarn = Ok (Some written)"
    and "\<And>v. js_print c v = written \<Longrightarrow> reads_back c v"
  shows "with_topic_grant c (Some written) qarn' tarn = Ok None"
  using assms(1)
proof (rule with_topic_grant_writes)
  fix document statements
  let ?members = "btree_insert ''Statement'' (JArray (statements @ [grant qarn tarn])) (btree_remove ''Statement'' document)"
  assume "written = js_print c (JObject ?members)"
  then have "current_policy c (Some written) = Ok (JObject ?members)"
    using current_policy_printed [OF assms(2)] by simp
  moreover have "grants (grant qarn tarn) tarn" by (simp add: grants_grant)
  ultimately show ?thesis
    by (simp add: with_topic_grant_def statements_of_def btree_lookup_insert)
qed

text \<open>A codec of two documents: the blank policy's merge, and nothing else.\<close>

definition sample_members :: "(string \<times> json) list" where
  "sample_members = [(''Statement'', JArray [grant ''q'' ''t'']), (''Version'', JString ''2012-10-17'')]"

definition sample_codec :: json_codec where
  "sample_codec = \<lparr>js_parse = (\<lambda>s. if s = ''merged'' then Ok (JObject sample_members) else Err ''unexpected''),
     js_print = (\<lambda>v. if v = JObject sample_members then ''merged'' else ''other'')\<rparr>"

lemma sample_merge: "with_topic_grant sample_codec None ''q'' ''t'' = Ok (Some ''merged'')"
  by (simp add: with_topic_grant_def current_policy_def statements_of_def json_object_def
      sample_codec_def sample_members_def list_less_def less_char_def)

theorem policy_merge_adds_witness:
  "\<exists>members. ''merged'' = js_print sample_codec (JObject members) \<and>
     map_of members ''Version'' = Some (JString ''2012-10-17'')"
proof -
  have "current_policy sample_codec None = Ok (JObject [(''Version'', JString ''2012-10-17'')])"
    by (simp add: current_policy_def json_object_def)
  from policy_merge_adds [OF sample_merge this] show ?thesis by (auto simp: btree_wf_def)
qed

lemma grant_written_once_instance:
  "with_topic_grant sample_codec (Some ''merged'') ''q'' ''t'' = Ok None"
proof (rule grant_written_once [OF sample_merge])
  fix v assume "js_print sample_codec v = ''merged''"
  then have "v = JObject sample_members" by (simp add: sample_codec_def split: if_splits)
  moreover have "trim ''merged'' = ''merged''" by code_simp
  ultimately show "reads_back sample_codec v" by (simp add: reads_back_def sample_codec_def)
qed

subsection \<open>The pump\<close>

lemma live_batch_Nil: "live_batch x url c asked messages = [] \<longleftrightarrow> list_all (\<lambda>m. msg_receipt m = None) messages"
  by (induction messages) (auto simp: live_batch_def List.map_filter_simps split: option.split)

text \<open>A turn that does not end the pump: the stream is open, and what the turn has for the consumer,
  which is no fatal error, is taken.\<close>

definition serves :: "pump_turn \<Rightarrow> bool" where
  "serves t \<longleftrightarrow> \<not> pt_closed t \<and>
     (case pt_answer t of
        Answered messages \<Rightarrow> list_all (\<lambda>m. msg_receipt m = None) messages \<or> pt_taken t
      | Failed e fatal \<Rightarrow> pt_taken t \<and> \<not> fatal)"

text \<open>The messages the service answered with that can be settled, with the instants they were asked
  for, and the errors a consumer was there to take.\<close>

definition deliverable :: "pump_turn list \<Rightarrow> (instant \<times> aws_message) list" where
  "deliverable ts =
     [(pt_asked t, m). t \<leftarrow> ts, m \<leftarrow> (case pt_answer t of Answered ms \<Rightarrow> ms | Failed e fatal \<Rightarrow> []),
                       msg_receipt m \<noteq> None]"

definition failures :: "pump_turn list \<Rightarrow> string list" where
  "failures ts =
     [e. t \<leftarrow> filter (\<lambda>t. \<not> pt_closed t \<and> pt_taken t) ts,
         e \<leftarrow> (case pt_answer t of Answered ms \<Rightarrow> [] | Failed e fatal \<Rightarrow> [e])]"

definition delivers :: "'h externals \<Rightarrow> receiver \<Rightarrow> instant \<times> aws_message \<Rightarrow> ('h, aws_receipt) sqs_message \<Rightarrow> bool" where
  "delivers x r e m \<longleftrightarrow> msg_receipt (snd e) = Some (ar_receipt (sm_receipt m)) \<and>
     ar_queue_url (sm_receipt m) = rv_queue_url r \<and> decode_message x (snd e) = (sm_payload m, sm_headers m) \<and>
     sm_received m = fst e \<and> sm_redrive_max m = rv_redrive_max r"

definition oks :: "('e, 'a) rresult list \<Rightarrow> 'a list" where
  "oks = List.map_filter (case_sum (\<lambda>_. None) Some)"

definition errs :: "('e, 'a) rresult list \<Rightarrow> 'e list" where
  "errs = List.map_filter (case_sum Some (\<lambda>_. None))"

lemma split_Nil [simp]: "oks [] = []" "errs [] = []"
  by (simp_all add: oks_def errs_def List.map_filter_simps)

lemma split_Cons [simp]:
  "oks (r # rs) = (case r of Inl e \<Rightarrow> oks rs | Inr v \<Rightarrow> v # oks rs)"
  "errs (r # rs) = (case r of Inl e \<Rightarrow> e # errs rs | Inr v \<Rightarrow> errs rs)"
  by (simp_all add: oks_def errs_def List.map_filter_simps split: sum.split)

lemma split_append: "oks (rs @ rs') = oks rs @ oks rs'" "errs (rs @ rs') = errs rs @ errs rs'"
  by (induction rs) (auto split: sum.split)

lemma split_map_Ok: "oks (map Ok ms) = ms" "errs (map Ok ms) = []"
  by (induction ms) auto

lemma split_one_at_a_time:
  "oks (concat (map one_at_a_time rs)) = concat (oks rs)" "errs (concat (map one_at_a_time rs)) = errs rs"
proof (induction rs)
  case (Cons r rs)
  { case 1 show ?case using Cons by (cases r) (simp_all add: split_append split_map_Ok) }
  { case 2 show ?case using Cons by (cases r) (simp_all add: split_append split_map_Ok) }
qed simp_all

lemma batch_stream_Cons [simp]:
  "batch_stream [] = []"
  "batch_stream (e # es) = (case channel_item e of None \<Rightarrow> batch_stream es | Some i \<Rightarrow> i # batch_stream es)"
  by (simp_all add: batch_stream_def List.map_filter_simps split: option.split)

lemma failures_Cons [simp]:
  "failures [] = []"
  "failures (t # ts) = (if pt_closed t \<or> \<not> pt_taken t then []
     else case pt_answer t of Answered ms \<Rightarrow> [] | Failed e fatal \<Rightarrow> [e]) @ failures ts"
  by (simp_all add: failures_def)

lemma pump_on:
  "serves t \<Longrightarrow> pump x url c (t # ts) =
     (Asked (request_of c) #
        (case pt_answer t of
           Answered ms \<Rightarrow> if live_batch x url c (pt_asked t) ms = [] then [] else [SentBatch (live_batch x url c (pt_asked t) ms)]
         | Failed e fatal \<Rightarrow> [SentError (ReceiveError url (SdkFailure e)), BackedOff])
        @ fst (pump x url c ts), snd (pump x url c ts))"
  by (cases "pump x url c ts") (auto simp: serves_def live_batch_Nil Let_def split: answer.splits)

lemma pump_over:
  "\<not> serves t \<Longrightarrow> pump x url c (t # ts) =
     (if pt_closed t then []
      else Asked (request_of c) # map (\<lambda>e. SentError (ReceiveError url (SdkFailure e))) (failures [t]), True)"
  by (cases "pump x url c ts") (auto simp: serves_def live_batch_Nil Let_def split: answer.splits)

text \<open>The five readings of the pump's run: the batches, the errors, the receives asked for, the
  back-offs, and whether it is over.\<close>

lemma pump_run:
  "concat (oks (batch_stream (fst (pump x url c ts)))) =
      [m. t \<leftarrow> takeWhile serves ts,
          m \<leftarrow> (case pt_answer t of Answered ms \<Rightarrow> live_batch x url c (pt_asked t) ms | Failed e fatal \<Rightarrow> [])] \<and>
    errs (batch_stream (fst (pump x url c ts))) =
      map (\<lambda>e. ReceiveError url (SdkFailure e)) (failures (takeWhile serves ts @ take 1 (dropWhile serves ts))) \<and>
    asked_in (fst (pump x url c ts)) = length (takeWhile (\<lambda>t. serves t) ts) +
      (case dropWhile serves ts of [] \<Rightarrow> 0 | t # _ \<Rightarrow> if pt_closed t then 0 else 1) \<and>
    length (filter (\<lambda>e. e = BackedOff) (fst (pump x url c ts))) = length (failures (takeWhile serves ts)) \<and>
    snd (pump x url c ts) = (dropWhile serves ts \<noteq> [])"
proof (induction ts)
  case (Cons t ts)
  show ?case
  proof (cases "serves t")
    case True
    with Cons show ?thesis
      by (cases "pt_answer t") (auto simp: pump_on serves_def [of t] simp del: pump.simps(2))
  next
    case False
    have "failures [t] = [] \<or> (\<exists>e. failures [t] = [e] \<and> \<not> pt_closed t)"
      by (auto split: answer.split)
    with False show ?thesis by (auto simp: pump_over simp del: failures_Cons(2) pump.simps(2))
  qed
qed simp

lemma batch_delivers:
  "rv_queue_url r = url \<Longrightarrow> rq_redrive_max c = rv_redrive_max r \<Longrightarrow>
   list_all2 (delivers x r) [(asked, m). m \<leftarrow> ms, msg_receipt m \<noteq> None] (live_batch x url c asked ms)"
  by (induction ms) (auto simp: live_batch_def List.map_filter_simps delivers_def new_message_def split: prod.splits)

text \<open>C21: what a live subscription hands over. Whatever its pump meets turn by turn, its streams hand
  over, once each and in the order received, the messages of every turn that did not end the pump:
  each is what its message on the wire decodes to, under its own receipt, its window counted from the
  instant it was asked for; a message without a receipt is left out. Over the same turns the
  stream of single messages and the stream of batches of any size hand over the same messages and the
  same errors, and every
  error is handed over that a consumer was there to take. The pump asks once per turn and never after
  the turn that ends it, and it backs off after every failure that does not.\<close>

theorem live_streams_deliver:
  "list_all2 (delivers x r) (deliverable (takeWhile serves ts)) (oks (live_stream x r ts)) \<and>
    errs (live_stream x r ts) = map (\<lambda>e. ReceiveError (rv_queue_url r) (SdkFailure e))
      (failures (takeWhile serves ts @ take 1 (dropWhile serves ts))) \<and>
    concat (oks (live_batches x r n ts)) = oks (live_stream x r ts) \<and>
    errs (live_batches x r n ts) = errs (live_stream x r ts) \<and>
    (let events = fst (pump x (rv_queue_url r) (pump_call r RECEIVE_CAP) ts) in
    asked_in events = length (takeWhile serves ts) +
      (case dropWhile serves ts of [] \<Rightarrow> 0 | t # _ \<Rightarrow> if pt_closed t then 0 else 1) \<and>
    backs_off events \<and>
    length (filter (\<lambda>e. e = BackedOff) events) = length (failures (takeWhile serves ts)))"
proof -
  let ?c = "pump_call r RECEIVE_CAP" let ?url = "rv_queue_url r"
  note run = pump_run [of x ?url]
  have same: "live_batch x ?url (pump_call r (fst (receive_batch n))) = live_batch x ?url ?c"
    by (intro ext) (simp add: live_batch_def pump_call_def)
  have "list_all2 (delivers x r) (deliverable served)
      [m. t \<leftarrow> served, m \<leftarrow> (case pt_answer t of Answered ms \<Rightarrow> live_batch x ?url ?c (pt_asked t) ms | Failed e fatal \<Rightarrow> [])]"
    for served
  proof (induction served)
    case (Cons t served)
    have "list_all2 (delivers x r) (deliverable [t])
        (case pt_answer t of Answered ms \<Rightarrow> live_batch x ?url ?c (pt_asked t) ms | Failed e fatal \<Rightarrow> [])"
      using batch_delivers [of r ?url ?c x "pt_asked t"]
      by (simp add: deliverable_def pump_call_def split: answer.split)
    with Cons show ?case by (simp add: deliverable_def list_all2_appendI)
  qed (simp add: deliverable_def)
  note handed = this [of "takeWhile serves ts"]
  have batches: "oks (live_stream x r ts) = concat (oks (batch_stream (fst (pump x ?url ?c ts))))"
    "errs (live_stream x r ts) = errs (batch_stream (fst (pump x ?url ?c ts)))"
    by (simp_all add: live_stream_def split_one_at_a_time)
  note first = run [of ?c ts] and sized = run [of "pump_call r (fst (receive_batch n))" ts, unfolded same]
  have "list_all2 (delivers x r) (deliverable (takeWhile serves ts)) (oks (live_stream x r ts))"
    using handed first unfolding batches by (elim conjE) (simp only:)
  moreover have "concat (oks (live_batches x r n ts)) = oks (live_stream x r ts)"
    "errs (live_batches x r n ts) = errs (live_stream x r ts)"
    using first sized unfolding batches live_batches_def by (elim conjE, simp only:)+
  ultimately show ?thesis using first pump_backs_off [of x ?url ?c ts] unfolding Let_def batches by blast
qed

text \<open>A batch with a message that cannot be settled, a failure, a batch, and an error that ends it.\<close>

definition sample_receiver :: receiver where
  "sample_receiver = \<lparr>rv_queue_url = ''https://sqs/1/orders'', rv_wait = from_secs 20,
     rv_visibility = Requested (from_secs 2), rv_redrive_max = None\<rparr>"

definition sample_turns :: "pump_turn list" where
  "sample_turns =
     (let m = (\<lambda>body receipt. \<lparr>msg_body = body, msg_attributes = None, msg_system = None, msg_receipt = receipt\<rparr>);
          turn = (\<lambda>at a. \<lparr>pt_asked = from_secs at, pt_closed = False, pt_answer = a, pt_taken = True\<rparr>)
      in [turn 1 (Answered [m (Some ''a'') (Some ''r1''), m (Some ''lost'') None]), turn 2 (Failed ''throttled'' False),
          turn 3 (Answered [m (Some ''b'') (Some ''r2'')]), turn 4 (Failed ''gone'' True),
          turn 5 (Answered [m (Some ''c'') (Some ''r3'')])])"

theorem live_streams_deliver_witness:
  "map (ar_receipt \<circ> sm_receipt) (oks (live_stream sample_externals sample_receiver sample_turns)) = [''r1'', ''r2''] \<and>
   errs (live_stream sample_externals sample_receiver sample_turns) =
     map (\<lambda>e. ReceiveError ''https://sqs/1/orders'' (SdkFailure e)) [''throttled'', ''gone''] \<and>
   asked_in (fst (pump sample_externals ''https://sqs/1/orders'' (pump_call sample_receiver RECEIVE_CAP) sample_turns)) = 4"
proof -
  have facts: "map (msg_receipt \<circ> snd) (deliverable (takeWhile serves sample_turns)) = [Some ''r1'', Some ''r2'']"
    "failures (takeWhile serves sample_turns @ take 1 (dropWhile serves sample_turns)) = [''throttled'', ''gone'']"
    "length (takeWhile serves sample_turns) = 3" "map pt_closed (dropWhile serves sample_turns) = [False, False]"
    "rv_queue_url sample_receiver = ''https://sqs/1/orders''"
    by code_simp+
  note run = live_streams_deliver [of sample_externals sample_receiver sample_turns]
  have "map (msg_receipt \<circ> snd) es = map (Some \<circ> ar_receipt \<circ> sm_receipt) ms"
    if "list_all2 (delivers x r) es ms" for x r es and ms :: "((string \<times> bytes) list, aws_receipt) sqs_message list"
    using that by (induction rule: list_all2_induct) (auto simp: delivers_def)
  from this [OF conjunct1 [OF run]] facts(1)
  have "map Some (map (ar_receipt \<circ> sm_receipt) (oks (live_stream sample_externals sample_receiver sample_turns))) =
      map Some [''r1'', ''r2'']" by (simp add: comp_assoc)
  then have "map (ar_receipt \<circ> sm_receipt) (oks (live_stream sample_externals sample_receiver sample_turns)) = [''r1'', ''r2'']"
    by (simp only: inj_map_eq_map [OF inj_Some])
  moreover from facts(4) obtain t t' where "dropWhile serves sample_turns = [t, t']" "\<not> pt_closed t" by auto
  ultimately show ?thesis using run facts(2,3,5) by (simp add: Let_def)
qed

text \<open>C37: every receive stays within the service's limits. Whatever batch size a registration names,
  each request of a subscription opened on a descriptor that passes its checks asks for one to ten
  messages and for the descriptor's wait, of at most twenty seconds; its visibility is the
  descriptor's, rounded up to whole seconds between one and twelve hours of them, and is left to the
  queue when the descriptor names none.\<close>

theorem requests_within_limits:
  assumes "validate q = Ok ()" and "subscriber_open api debug queue url q a = (Ok r, a')" and "0 < n"
    and "Asked rq \<in> set (fst (pump x url (pump_call r (fst (receive_batch n))) ts))"
  shows "1 \<le> req_size rq \<and> req_size rq \<le> 10 \<and> req_wait rq = as_secs (sq_wait q) \<and> req_wait rq \<le> 20 \<and>
    (case sq_visibility q of
       None \<Rightarrow> req_visibility rq = None
     | Some v \<Rightarrow> \<exists>secs. req_visibility rq = Some secs \<and> 1 \<le> secs \<and> secs \<le> 43200 \<and>
         v \<le> from_secs secs \<and> from_secs secs < v + from_secs 1)"
proof -
  have rq: "rq = request_of (pump_call r (fst (receive_batch n)))" by (rule pump_requests [OF assms(4)])
  have size: "1 \<le> req_size rq \<and> req_size rq \<le> 10"
    using assms(3) by (simp add: rq request_of_def pump_call_def receive_size_def receive_batch_def RECEIVE_CAP_def
        Let_def I32_MAX_def)
  have r: "rv_wait r = sq_wait q"
    "case visibility_value q of Some v \<Rightarrow> rv_visibility r = Requested v | None \<Rightarrow> \<exists>v. rv_visibility r = QueueTimeout v"
    using assms(2) by (auto simp: subscriber_open_def Let_def and_then_Ok_iff split: option.splits prod.splits sum.splits)
  have "as_secs (sq_wait q) \<le> as_secs MAX_WAIT"
    using assms(1) unfolding as_secs_def by (intro div_le_mono) (auto simp: validate_Ok_iff)
  then have wait: "as_secs (sq_wait q) \<le> 20" by (simp add: MAX_WAIT_def)
  then have "req_wait rq = as_secs (sq_wait q)"
    by (simp add: rq request_of_def pump_call_def r(1) I32_MAX_def)
  moreover have "case sq_visibility q of
       None \<Rightarrow> req_visibility rq = None
     | Some v \<Rightarrow> \<exists>secs. req_visibility rq = Some secs \<and> 1 \<le> secs \<and> secs \<le> 43200 \<and>
         v \<le> from_secs secs \<and> from_secs secs < v + from_secs 1"
  proof (cases "sq_visibility q")
    case None
    with r(2) show ?thesis
      by (auto simp: visibility_value_def rq request_of_def pump_call_def)
  next
    case (Some v)
    from valid_visibility_bounds [OF assms(1) Some] obtain secs where
      "visibility_value q = Some (from_secs secs)" "1 \<le> secs" "secs \<le> 43200"
      "v \<le> from_secs secs" "from_secs secs < v + from_secs 1" by blast
    with r(2) Some show ?thesis
      by (auto simp: rq request_of_def pump_call_def visibility_seconds_def SUBSCRIBER_MAX_VISIBILITY_SECS_def Let_def
          I32_MAX_def)
  qed
  ultimately show ?thesis using size wait by simp
qed

definition sample_descriptor :: sqs_queue where
  "sample_descriptor = queue_visibility (from_millis 1500) (new_queue ''orders'')"

theorem requests_within_limits_witness:
  "let rq = request_of (pump_call sample_receiver (fst (receive_batch 50)))
   in req_size rq \<le> 10 \<and> req_wait rq \<le> 20 \<and> req_visibility rq = Some 2"
proof -
  let ?rq = "request_of (pump_call sample_receiver (fst (receive_batch 50)))"
  let ?turn = "\<lparr>pt_asked = 0, pt_closed = False, pt_answer = Answered [], pt_taken = True\<rparr>"
  have facts: "validate sample_descriptor = Ok ()"
    "subscriber_open sample_api id ''orders'' ''https://sqs/1/orders'' sample_descriptor sample_aws = (Ok sample_receiver, sample_aws)"
    "req_visibility ?rq = Some 2" by code_simp+
  have "Asked ?rq \<in> set (fst (pump sample_externals ''https://sqs/1/orders''
      (pump_call sample_receiver (fst (receive_batch 50))) [?turn]))" by (simp add: live_batch_Nil)
  from requests_within_limits [OF facts(1,2) _ this] facts(3) show ?thesis by (simp add: Let_def)
qed

subsection \<open>One set of clients per thread\<close>

text \<open>The requests of one thread: which brokers are alive, the runtime it runs on, and the broker
  it sends for, one after another.\<close>

fun send_all :: "((nat \<Rightarrow> bool) \<times> nat option \<times> clients) list \<Rightarrow> thread \<Rightarrow> thread" where
  "send_all [] th = th"
| "send_all ((alive, current, c) # rest) th = send_all rest (snd (with_placed alive current c th))"

definition placed :: "clients \<Rightarrow> thread \<Rightarrow> placement option" where
  "placed c th = map_option te_placement (find (\<lambda>e. te_owner e = cl_owner c) (th_entries th))"

lemma placed_stays:
  assumes "placed c th = Some p" and "alive (cl_owner c)"
  shows "placed c (snd (with_placed alive current c' th)) = Some p"
proof -
  have keep: "find P (filter Q es @ [e']) = Some e" if "find P es = Some e" "Q e" for P Q es and e e' :: thread_entry
    using that by (induction es) (auto split: if_splits)
  from assms(1) obtain e where e: "find (\<lambda>e. te_owner e = cl_owner c) (th_entries th) = Some e" "te_placement e = p"
    by (auto simp: placed_def)
  then have "te_owner e = cl_owner c" by (auto simp: find_Some_iff)
  with keep [OF e(1), of "\<lambda>e. alive (te_owner e)"] e assms(2) show ?thesis
    by (auto simp: with_placed_def placed_def Let_def split: option.splits)
qed

lemma placed_stays_all:
  "placed c th = Some p \<Longrightarrow> list_all (\<lambda>(alive, current, c'). alive (cl_owner c)) reqs \<Longrightarrow>
     placed c (send_all reqs th) = Some p"
  by (induction reqs th rule: send_all.induct) (auto intro: placed_stays)

lemma with_placed_placed: "with_placed alive (Some rt) c th = (s, th') \<Longrightarrow> map_option set_for (placed c th') = Some s"
proof -
  have "find P (filter Q es @ [e]) = Some e" if "find P es = None" "P e" for P Q es and e :: thread_entry
    using that by (induction es) (auto split: if_splits)
  then show "with_placed alive (Some rt) c th = (s, th') \<Longrightarrow> map_option set_for (placed c th') = Some s"
    by (auto simp: with_placed_def placed_def Let_def split: option.splits if_splits)
qed

text \<open>C39: a thread decides once which clients a broker's requests go out through. After its first
  request on a runtime every later one of the same broker on that thread uses the same set, whatever
  runtime is current then and whatever other brokers sent in between, as long as the broker is
  alive; the home set exactly when that runtime was the broker's own.\<close>

theorem clients_decided_once:
  assumes "with_clients alive (Some rt) c (Some th) = (s, Some th')"
    and "list_all (\<lambda>(alive', current', c'). alive' (cl_owner c)) reqs"
  shows "fst (with_clients alive'' current'' c (Some (send_all reqs th'))) = s \<and>
    (placed c th = None \<longrightarrow> (s = HomeSet \<longleftrightarrow> rt = cl_runtime c))"
proof -
  have w: "with_placed alive (Some rt) c th = (s, th')"
    using assms(1) by (auto simp: with_clients_def split: prod.splits)
  then obtain p where p: "placed c th' = Some p" "s = set_for p" using with_placed_placed by fastforce
  have "placed c (send_all reqs th') = Some p" by (rule placed_stays_all [OF p(1) assms(2)])
  then have "fst (with_clients alive'' current'' c (Some (send_all reqs th'))) = s"
    using p(2) by (auto simp: with_clients_def with_placed_def placed_def split_beta)
  moreover have "placed c th = None \<longrightarrow> (s = HomeSet \<longleftrightarrow> rt = cl_runtime c)"
    using w by (auto simp: placed_def with_placed_def Let_def split: option.splits if_splits)
  ultimately show ?thesis by blast
qed

definition sample_clients :: "nat \<Rightarrow> clients" where
  "sample_clients owner = \<lparr>cl_owner = owner, cl_runtime = 0,
     cl_config = \<lparr>sc_endpoint = None, sc_region = None, sc_rest = []\<rparr>, cl_overrides = \<lparr>ov_endpoint = None, ov_region = None\<rparr>\<rparr>"

theorem clients_decided_once_witness:
  "let th = the (snd (with_clients (\<lambda>_. True) (Some 5) (sample_clients 1) (Some \<lparr>th_entries = [], th_builds = 0\<rparr>)))
   in fst (with_clients (\<lambda>_. True) (Some 0) (sample_clients 1)
        (Some (send_all [(\<lambda>_. True, Some 0, sample_clients 2)] th))) = OwnSet 0"
proof -
  have "with_clients (\<lambda>_. True) (Some 5) (sample_clients 1) (Some \<lparr>th_entries = [], th_builds = 0\<rparr>) =
      (OwnSet 0, Some \<lparr>th_entries = [\<lparr>te_owner = 1, te_placement = Own 0\<rparr>], th_builds = 1\<rparr>)"
    by (simp add: with_clients_def with_placed_def sample_clients_def)
  with clients_decided_once [OF this, where reqs = "[(\<lambda>_. True, Some 0, sample_clients 2)]"] show ?thesis by simp
qed

end
