(* ===== verification/Acceptance.thy ===== *)
theory Acceptance
  imports Transport_Properties Arrival_Properties
begin

section \<open>What the transports take\<close>

text \<open>
  Which messages the in-process account takes, exactly, and that a send goes over AWS as it goes to
  the account: the same body, attributes and FIFO settings, and the same refusals of the crate's own.
\<close>

subsection \<open>What the account takes\<close>

definition message_ok :: "nat \<Rightarrow> outbound \<Rightarrow> bool" where
  "message_ok limit ob \<longleftrightarrow> ob_body ob \<noteq> [] \<and> is_service_text (ob_body ob) \<and>
     list_all attribute_ok (ob_attributes ob) \<and>
     length (ob_body ob) + sum_list (map attribute_size (ob_attributes ob)) \<le> limit"

definition settings_ok :: "string \<Rightarrow> outbound \<Rightarrow> bool" where
  "settings_ok key ob \<longleftrightarrow> (case ob_fifo ob of
       None \<Rightarrow> \<not> is_fifo key
     | Some s \<Rightarrow> is_fifo key \<and> fifo_id_ok (fifo_group s) \<and> fifo_id_ok (fifo_deduplication s))"

lemma check_message_ok: "check_message ob limit = Ok () \<longleftrightarrow> message_ok limit ob"
  by (simp add: check_message_Ok message_ok_def)

lemma check_fifo_ok: "check_fifo ob = Ok () \<longleftrightarrow>
    (\<forall>s. ob_fifo ob = Some s \<longrightarrow> fifo_id_ok (fifo_group s) \<and> fifo_id_ok (fifo_deduplication s))"
  by (auto simp: check_fifo_def split: option.split)

lemma bus_send_refused: "fst (bus_send x now name key ob b) \<noteq> Ok () \<Longrightarrow> snd (bus_send x now name key ob b) = b"
  by (auto simp: bus_send_def split: sum.splits if_splits)

text \<open>C12: what the account takes. A send is answered with success exactly when the message has a body
  of text the services carry, attributes with admissible names and a value each, no more bytes than
  SQS takes, and FIFO settings, both of admissible characters and length, on a FIFO queue and only
  there; a publish likewise, with the limit of SNS. A refused message leaves the account as it was:
  not logged, not counted, not deduplicated.\<close>

theorem taken_exactly:
  "(fst (bus_send x now name key ob b) = Ok () \<longleftrightarrow> message_ok SQS_MAX_MESSAGE ob \<and> settings_ok key ob) \<and>
   (fst (bus_publish_topic x now name topic ob b) = Ok () \<longleftrightarrow>
      message_ok SNS_MAX_MESSAGE ob \<and> settings_ok topic ob) \<and>
   (fst (bus_send x now name key ob b) = Ok () \<or> snd (bus_send x now name key ob b) = b) \<and>
   (fst (bus_publish_topic x now name topic ob b) = Ok () \<or>
      snd (bus_publish_topic x now name topic ob b) = b)"
proof -
  note eqs = check_message_ok [of ob SQS_MAX_MESSAGE] check_message_ok [of ob SNS_MAX_MESSAGE] check_fifo_ok [of ob]
  show ?thesis
    using eqs
    by (cases "check_message ob SQS_MAX_MESSAGE"; cases "check_message ob SNS_MAX_MESSAGE"; cases "check_fifo ob";
        cases "ob_fifo ob")
      (auto simp: bus_send_def bus_publish_topic_def settings_ok_def Let_def split: prod.split)
qed

subsection \<open>One send, two transports\<close>

text \<open>A service that takes every send and keeps what it was sent.\<close>

record sent_call =
  sc_url :: string
  sc_body :: string
  sc_attributes :: "(string \<times> message_attribute) list option"
  sc_fifo :: "fifo_settings option"

definition recorder :: "sent_call list send_api" where
  "recorder = \<lparr>api_send_message = (\<lambda>url body as f w.
       (Ok (), w @ [\<lparr>sc_url = url, sc_body = body, sc_attributes = as, sc_fifo = f\<rparr>])),
     api_publish_message = (\<lambda>arn body as f w.
       (Ok (), w @ [\<lparr>sc_url = arn, sc_body = body, sc_attributes = as, sc_fifo = f\<rparr>])),
     api_build_sns_attribute = Ok\<rparr>"

definition outbound_of :: "sent_call \<Rightarrow> outbound" where
  "outbound_of c = \<lparr>ob_body = sc_body c,
     ob_attributes = (case sc_attributes c of None \<Rightarrow> [] | Some as \<Rightarrow> as), ob_fifo = sc_fifo c\<rparr>"

text \<open>The URL a service hands out for a queue is FIFO when the queue's name is.\<close>

lemma suffix_after_slash:
  assumes "CHR ''/'' \<notin> set suf"
  shows "ends_with (pre @ CHR ''/'' # t) suf \<longleftrightarrow> ends_with t suf"
proof
  assume "ends_with (pre @ CHR ''/'' # t) suf"
  then obtain zs where "pre @ CHR ''/'' # t = zs @ suf" by (auto simp: ends_with_iff)
  then consider us where "zs = pre @ us" "CHR ''/'' # t = us @ suf" | us where "pre = zs @ us" "us @ CHR ''/'' # t = suf"
    by (auto simp: append_eq_append_conv2)
  then show "ends_with t suf"
  proof cases
    case 1
    then show ?thesis using assms by (cases us) (auto simp: ends_with_iff)
  next
    case 2
    with assms show ?thesis by auto
  qed
next
  assume "ends_with t suf"
  then show "ends_with (pre @ CHR ''/'' # t) suf"
    by (auto simp: ends_with_iff)
qed

lemma is_fifo_url: "is_fifo (pre @ CHR ''/'' # key) \<longleftrightarrow> is_fifo key"
proof -
  have slash: "to_ascii_lowercase (pre @ CHR ''/'' # key) = to_ascii_lowercase pre @ CHR ''/'' # to_ascii_lowercase key"
    by (simp add: to_ascii_lowercase_def to_ascii_lower_def is_ascii_upper_def byte_def)
  show ?thesis unfolding is_fifo_def slash by (rule suffix_after_slash) (simp add: FIFO_SUFFIX_def)
qed

lemma outbound_of_call:
  "outbound_of \<lparr>sc_url = url, sc_body = ob_body ob, sc_attributes = some_attributes (ob_attributes ob), sc_fifo = ob_fifo ob\<rparr> = ob"
  by (simp add: outbound_of_def some_attributes_def)

lemma live_send_framed:
  assumes "queue_url api (og_name msg) a = (Ok url, a1)" and "is_fifo (og_name msg) \<or> is_fifo url \<longleftrightarrow> fifo"
  shows "live_send x api send pid msg options grp (seq, a) =
    (case frame x pid seq (og_name msg) fifo (og_payload msg) (og_headers msg) options grp of
       (Inl e, seq') \<Rightarrow> (Err e, (seq', a1))
     | (Inr ob, seq') \<Rightarrow>
         (let (r, w) = api_send_message send url (ob_body ob) (some_attributes (ob_attributes ob)) (ob_fifo ob) (aws_world a1)
          in (map_err (\<lambda>e. PublishError (og_name msg) (SdkFailure e)) r, (seq', a1\<lparr>aws_world := w\<rparr>))))"
  using assms by (auto simp: live_send_def frame_def Let_def split: prod.splits sum.splits)

text \<open>C9: a send goes over AWS as it goes to the account. Where the service resolves the queue to a
  URL that ends in the name the account files it under, and that name is FIFO when the queue's own
  is (it is not for a name whose suffix is not in lower case, \<open>upper_case_suffix_splits\<close>), the two
  transports draw the same ids and refuse the same framings with the same error, sending nothing;
  and what the account enqueues and logs is the body, the attributes and the FIFO settings of the
  one call the service gets. What the account alone refuses is a message the service was sent.\<close>

theorem live_sends_what_the_account_gets:
  assumes "queue_url api (og_name msg) a = (Ok url, a1)" and "queue_key (og_name msg) = Ok key"
    and "url = pre @ ''/'' @ key" and "is_fifo (og_name msg) \<longrightarrow> is_fifo key"
    and "in_process_send x pid now msg options grp (seq, b) = (r, (seq', b'))"
    and "live_send x api recorder pid msg options grp (seq, a) = (r', (seq'', a'))"
  shows "seq'' = seq' \<and>
    (case r of
       Inr _ \<Rightarrow> r' = Ok () \<and> (\<exists>call. sc_url call = url \<and> aws_world a' = aws_world a1 @ [call] \<and>
         b' = deliver now key (outbound_of call) (push_log (og_name msg) (log_entry x (og_name msg) (outbound_of call)) b))
     | Inl e \<Rightarrow> b' = b \<and> ((r' = Err e \<and> aws_world a' = aws_world a1) \<or>
         (r' = Ok () \<and> (\<exists>call why. sc_url call = url \<and> aws_world a' = aws_world a1 @ [call] \<and>
            e = PublishError (og_name msg) (Refused why) \<and>
            bus_send x now (og_name msg) key (outbound_of call) b = (Err why, b)))))"
proof -
  let ?name = "og_name msg"
  have fifo: "is_fifo ?name \<or> is_fifo url \<longleftrightarrow> is_fifo key" using assms(4) by (auto simp: assms(3) is_fifo_url)
  note live = live_send_framed [OF assms(1) fifo, of x recorder pid options grp seq]
  obtain f n where framed: "frame x pid seq ?name (is_fifo key) (og_payload msg) (og_headers msg) options grp = (f, n)"
    by fastforce
  show ?thesis
  proof (cases f)
    case (Inl e)
    with framed live assms(2,5,6) show ?thesis by (auto simp: in_process_send_def)
  next
    case (Inr ob)
    let ?call = "\<lparr>sc_url = url, sc_body = ob_body ob, sc_attributes = some_attributes (ob_attributes ob), sc_fifo = ob_fifo ob\<rparr>"
    have r': "r' = Ok ()" "seq'' = n" "aws_world a' = aws_world a1 @ [?call]"
      using framed live assms(6) Inr by (auto simp: recorder_def)
    obtain s sb where sent: "bus_send x now ?name key ob b = (s, sb)" by fastforce
    have r: "r = map_err (\<lambda>e. PublishError ?name (Refused e)) s" "seq' = n" "b' = sb"
      using framed assms(2,5) Inr sent by (auto simp: in_process_send_def)
    show ?thesis
    proof (cases s)
      case (Inl why)
      then have "sb = b" using bus_send_refused [of x now ?name key ob b] sent by simp
      with r r' Inl sent show ?thesis
        by (auto intro!: exI [of _ ?call] simp: outbound_of_call)
    next
      case (Inr u)
      with sent have "b' = deliver now key ob (push_log ?name (log_entry x ?name ob) b)"
        using bus_send_Ok [of x now ?name key ob b sb] r by simp
      with r r' Inr show ?thesis by (auto intro!: exI [of _ ?call] simp: outbound_of_call)
    qed
  qed
qed

text \<open>A run of both, over a service that answers every call.\<close>

definition recording_api :: "sent_call list aws_api" where
  "recording_api =
     \<lparr>api_get_queue_url = (\<lambda>q w. (Ok (Some (''https://sqs/1/'' @ q)), w)),
      api_create_queue = (\<lambda>q as w. (Ok (Some (''https://sqs/1/'' @ q)), w)),
      api_get_attribute = (\<lambda>url a w. (Ok (Some ''30''), w)),
      api_set_attribute = (\<lambda>url a v w. (Ok (), w)),
      api_create_topic = (\<lambda>t as w. (Ok (Some (''arn:aws:sns:r:1:'' @ t)), w)),
      api_subscribe = (\<lambda>t p e as w. (Ok (), w))\<rparr>"

definition recording_aws :: "sent_call list aws" where
  "recording_aws = \<lparr>aws_endpoint = None, aws_queue_urls = [], aws_topic_arns = [], aws_world = []\<rparr>"

definition sample_order :: "(string \<times> bytes) list outgoing" where
  "sample_order = \<lparr>og_name = ''q.fifo'', og_payload = [CHR ''h'', CHR ''i'', CHR 0x00],
     og_headers = [(''trace'', ''1'')]\<rparr>"

definition account_order :: "(sqs_error, unit) rresult \<times> (nat \<times> (string \<times> bytes) list bus)" where
  "account_order = in_process_send sample_externals 7 0 sample_order None (Some ''g'') (0, fifo_bus)"

definition live_order :: "(sqs_error, unit) rresult \<times> (nat \<times> sent_call list aws)" where
  "live_order = live_send sample_externals recording_api recorder 7 sample_order None (Some ''g'') (0, recording_aws)"

theorem live_sends_what_the_account_gets_witness:
  "\<exists>call. sc_fifo call = Some \<lparr>fifo_group = ''g'', fifo_deduplication = ''rs-7-0''\<rparr> \<and>
     aws_world (snd (snd live_order)) = [call] \<and>
     snd (snd account_order) = deliver 0 ''q.fifo'' (outbound_of call)
       (push_log ''q.fifo'' (log_entry sample_externals ''q.fifo'' (outbound_of call)) fifo_bus)"
proof -
  have facts: "queue_url recording_api (og_name sample_order) recording_aws =
      (Ok ''https://sqs/1/q.fifo'', snd (queue_url recording_api (og_name sample_order) recording_aws))"
    "queue_key (og_name sample_order) = Ok ''q.fifo''" "''https://sqs/1/q.fifo'' = ''https://sqs/1'' @ ''/'' @ ''q.fifo''"
    "is_fifo (og_name sample_order) \<longrightarrow> is_fifo ''q.fifo''" "fst account_order = Ok ()"
    "aws_world (snd (queue_url recording_api (og_name sample_order) recording_aws)) = []"
    "map sc_fifo (aws_world (snd (snd live_order))) = [Some \<lparr>fifo_group = ''g'', fifo_deduplication = ''rs-7-0''\<rparr>]"
    by code_simp+
  have split: "account_order = (fst account_order, (fst (snd account_order), snd (snd account_order)))"
    "live_order = (fst live_order, (fst (snd live_order), snd (snd live_order)))" by simp_all
  have "og_name sample_order = ''q.fifo''" by (simp add: sample_order_def)
  with live_sends_what_the_account_gets [OF facts(1-4) split(1) [unfolded account_order_def] split(2) [unfolded live_order_def],
      folded account_order_def live_order_def] facts(5-7)
  show ?thesis by auto
qed

subsection \<open>One publish, two transports\<close>

text \<open>Publishes likewise, over the ARN the topic resolves to; the service's builder of attributes is
  the account's.\<close>

lemma live_publish_framed:
  assumes "topic_arn api (og_name msg) a = (Ok arn, a1)"
    and "\<And>v. api_build_sns_attribute send (wire_attribute v) = build_attribute x (wire_attribute v)"
  shows "live_publish x api send pid msg options grp (seq, a) =
    (case frame x pid seq (og_name msg) (is_fifo arn) (og_payload msg) (og_headers msg) options grp of
       (Inl e, seq') \<Rightarrow> (Err e, (seq', a1))
     | (Inr ob, seq') \<Rightarrow>
         (let (r, w) = api_publish_message send arn (ob_body ob) (some_attributes (ob_attributes ob)) (ob_fifo ob) (aws_world a1)
          in (map_err (\<lambda>e. PublishError (og_name msg) (SdkFailure e)) r, (seq', a1\<lparr>aws_world := w\<rparr>))))"
proof -
  have "put_sns_attribute send = put_attribute x"
    by (intro ext) (simp add: put_sns_attribute_def put_attribute_def assms(2) split: sum.split)
  then show ?thesis
    using assms(1) by (auto simp: live_publish_def frame_def encode_attributes_def Let_def split: prod.splits sum.splits)
qed

lemma live_publishes_what_the_topic_gets:
  assumes "topic_arn api (og_name msg) a = (Ok arn, a1)" and "topic_key (og_name msg) = Ok key"
    and "is_fifo arn = is_fifo key" and "builder_ok x"
    and "in_process_publish_topic x pid now msg options grp (seq, b) = (Ok (), (seq', b'))"
  shows "\<exists>call. live_publish x api recorder pid msg options grp (seq, a) =
      (Ok (), (seq', a1\<lparr>aws_world := aws_world a1 @ [call]\<rparr>)) \<and> sc_url call = arn \<and>
    bus_publish_topic x now (og_name msg) key (outbound_of call) b = (Ok (), b')"
proof -
  obtain ob where framed: "frame x pid seq (og_name msg) (is_fifo arn) (og_payload msg) (og_headers msg) options grp = (Ok ob, seq')"
    and sent: "bus_publish_topic x now (og_name msg) key ob b = (Ok (), b')"
    using assms(2,3,5) by (auto simp: in_process_publish_topic_def Let_def split: prod.splits sum.splits)
  have "api_build_sns_attribute recorder (wire_attribute v) = build_attribute x (wire_attribute v)" for v
    using assms(4) by (cases v) (simp_all add: recorder_def builder_ok_def wire_attribute_def)
  from live_publish_framed [OF assms(1) this] framed sent show ?thesis
    by (auto simp: recorder_def outbound_of_call
        intro!: exI [of _ "\<lparr>sc_url = arn, sc_body = ob_body ob, sc_attributes = some_attributes (ob_attributes ob), sc_fifo = ob_fifo ob\<rparr>"])
qed

end
