(* ===== verification/Settlement_Properties.thy ===== *)
theory Settlement_Properties
  imports Account_Properties
begin

section \<open>Properties of settling and of the visibility window\<close>

text \<open>
  How a delivery settles over the in-process account, from the message's own \<open>ack\<close>, \<open>nack\<close> and
  \<open>nack_after\<close> down to the queue and its timers, what a handle dropped unsettled leaves, and how
  that agrees with the live delivery's extending task.
\<close>

subsection \<open>Stale receipts\<close>

text \<open>C34: a stale receipt harms nothing. Settling a delivery that is no longer in flight changes no
  queue and arms no timer: the delete succeeds, as a stale receipt handle does on a standard queue,
  and the visibility change is refused.\<close>

theorem stale_receipt_harmless:
  assumes "flight (w_bus w) (br_queue h) (br_receipt h) = None" and "secs \<le> MAX_VISIBILITY_SECS"
  shows "fst (receipt_delete h w) = Ok () \<and>
    fst (receipt_change_visibility h (int secs) w) = Err (AckBroker (Refused ReceiptNotInFlight)) \<and>
    queue_of (w_bus (snd (receipt_delete h w))) = queue_of (w_bus w) \<and>
    queue_of (w_bus (snd (receipt_change_visibility h (int secs) w))) = queue_of (w_bus w) \<and>
    bus_timers (w_bus (snd (receipt_delete h w))) = bus_timers (w_bus w) \<and>
    bus_timers (w_bus (snd (receipt_change_visibility h (int secs) w))) = bus_timers (w_bus w)"
  using assms
  by (simp add: receipt_delete_def receipt_change_visibility_def bus_delete_def bus_change_visibility_def
      flight_def Let_def queue_of_put fun_eq_iff)

theorem stale_receipt_harmless_witness:
  "fst (receipt_delete sample_handle sample_sent) = Ok ()"
proof -
  have "flight (w_bus sample_sent) (br_queue sample_handle) (br_receipt sample_handle) = None" by code_simp
  from stale_receipt_harmless [OF this, of 30] show ?thesis by (simp add: MAX_VISIBILITY_SECS_def)
qed

subsection \<open>Deferred retries\<close>

lemma held_received:
  assumes "reachable world_init (world_step x) w" and "h \<in> set (w_held w)"
    and "flight (w_bus w) (br_queue h) (br_receipt h) = Some e"
  shows "fl_received e = br_received h" "br_received h \<le> w_now w"
  using account.reachable_inv [OF assms(1), THEN world_okD(4)] assms(2,3) by (simp_all add: handles_ok_def)

lemma visible_one_place:
  assumes "bus_ok c b" and "flight b k r = Some e"
  shows "map_of (q_visible (queue_of b k')) (st_seq (fl_stored e)) = None"
proof (rule ccontr)
  assume "map_of (q_visible (queue_of b k')) (st_seq (fl_stored e)) \<noteq> None"
  then have "message_at b (st_seq (fl_stored e)) (VisibleOn k')" by (simp add: message_at_def)
  moreover have "message_at b (st_seq (fl_stored e)) (InFlightOn k r)" using assms(2) by (simp add: message_at_def)
  ultimately have "VisibleOn k' = InFlightOn k r" by (rule one_place_each [OF assms(1)])
  then show False by simp
qed

text \<open>A message back from its flight: visible on its queue, unless no subscription reads the queue any
  more, where the account keeps nothing. A message is on its way back where that is so now, or where
  an armed timer of its generation brings it back when it fires.\<close>

definition came_back :: "'h bus \<Rightarrow> string \<Rightarrow> nat \<Rightarrow> stored \<Rightarrow> bool" where
  "came_back b k r s \<longleftrightarrow> flight b k r = None \<and>
     map_of (q_visible (queue_of b k)) (st_seq s) = (if q_subscriptions (queue_of b k) = 0 then None else Some s)"

definition comes_back_in :: "duration \<Rightarrow> instant \<Rightarrow> 'h bus \<Rightarrow> string \<Rightarrow> nat \<Rightarrow> stored \<Rightarrow> bool" where
  "comes_back_in v now b k r s \<longleftrightarrow>
     (if v = 0 then came_back b k r s
      else \<exists>tm \<in> set (bus_timers b). tm_key tm = k \<and> tm_receipt tm = r \<and> tm_due tm = now + v \<and>
        map_option fl_generation (flight b k r) = Some (tm_generation tm) \<and>
        came_back (lapse k r (tm_generation tm) b) k r s)"

lemma came_back_tell [simp]: "came_back (tell c b) k r s = came_back b k r s"
  by (simp add: came_back_def)

lemma lapse_cong: "bus_queues b = bus_queues b' \<Longrightarrow> bus_queues (lapse k r g b) = bus_queues (lapse k r g b')"
  by (simp add: lapse_def Let_def requeue_def enqueue_def put_queue_def queue_of_def split: option.split)

lemma came_back_cong: "bus_queues b = bus_queues b' \<Longrightarrow> came_back b k r s = came_back b' k r s"
  using flight_cong [of b b'] queue_of_cong [of b b' k] by (simp add: came_back_def)

lemma comes_back_in_tell: "comes_back_in v now (tell c b) k r s = comes_back_in v now b k r s"
  using came_back_cong [OF lapse_cong, of "tell c b" b] by (simp add: comes_back_in_def)

lemma requeue_came_back:
  assumes "bus_ok c b" and "flight b k r = Some e"
  shows "came_back (requeue k r e b) k r (fl_stored e)"
  using visible_one_place [OF assms, of k]
  by (auto simp: came_back_def requeue_eq enqueue_def Let_def queue_of_put btree_lookup_insert flight_put map_of_landed)

lemma lapse_came_back:
  assumes "bus_ok c b" and "flight b k r = Some e"
  shows "came_back (lapse k r (fl_generation e) b) k r (fl_stored e)"
proof -
  have "flight (put_queue k (queue_of b k) b) k r = Some e" using assms(2) by (simp add: put_back_keeps)
  from requeue_came_back [OF put_back_keeps(1) [OF assms(1)] this] assms(2) show ?thesis
    by (simp add: lapse_def Let_def flight_def)
qed

lemma change_granted:
  assumes e: "flight b k r = Some e" and "as_secs v \<le> MAX_VISIBILITY_SECS"
    and "v = 0 \<or> (now - fl_received e) + v \<le> VISIBILITY_WINDOW"
    and chg: "bus_change_visibility now k r v b = (res, b')" and ok: "bus_ok c b" "bus_ok c b'"
  shows "res = Ok () \<and> comes_back_in v now b' k r (fl_stored e)"
  using assms(1-4)
proof (cases rule: change_visibility_cases [of v now k r b])
  case (returned e')
  have "flight (put_queue k (queue_of b k) b) k r = Some e" using e by (simp add: put_back_keeps)
  from requeue_came_back [OF put_back_keeps(1) [OF ok(1)] this] returned chg e show ?thesis
    by (simp add: comes_back_in_def)
next
  case (armed e')
  then have b': "res = Ok ()" "flight b' k r = Some (rearmed e)"
    "\<exists>tm \<in> set (bus_timers b'). tm_key tm = k \<and> tm_receipt tm = r \<and> tm_due tm = now + v \<and>
       tm_generation tm = fl_generation (rearmed e)"
    using chg e by (auto simp: flight_put hash_insert_def update_conv')
  from lapse_came_back [OF ok(2) b'(2)] b' armed(3) show ?thesis
    by (auto simp: comes_back_in_def rearmed_def)
qed auto

lemma due_within: "(a - r) + n \<le> m \<Longrightarrow> r \<le> a \<Longrightarrow> m \<le> v \<Longrightarrow> a + n \<le> r + (v::nat)"
  by linarith

text \<open>C24: a deferred retry is always granted. Whatever delay a handler asks for a delivery still in
  flight, the account takes the change and the message comes back: after the delay in whole seconds,
  cut to what is left of the window, by a timer due no later than twelve hours after its receive; and
  at once when that comes to nothing. It comes back visible, unless no subscription reads its queue
  any more. For a delay of less than \<open>2^64 - 1\<close> seconds the rounding is up, by less than a second;
  beyond that it wraps in 64 bits (\<open>longest_delay_wraps\<close>, theory Wire\_Properties).\<close>

theorem nack_after_granted:
  assumes "reachable world_init (world_step x) w" and "h \<in> set (w_held w)"
    and "flight (w_bus w) (br_queue h) (br_receipt h) = Some e"
    and "sm_receipt m = h" and "sm_received m = br_received h"
    and "nack_after bus_receipt_api m (w_now w) delay w = (res, w')"
  defines "n \<equiv> min (whole_seconds delay) (window_left (w_now w) (br_received h))"
  shows "res = Ok () \<and>
    comes_back_in (from_secs n) (w_now w) (w_bus w') (br_queue h) (br_receipt h) (fl_stored e) \<and>
    (n \<noteq> 0 \<longrightarrow> w_now w + from_secs n \<le> br_received h + VISIBILITY_WINDOW) \<and>
    (as_secs delay < U64_MAX \<longrightarrow>
       delay \<le> from_secs (whole_seconds delay) \<and> from_secs (whole_seconds delay) < delay + from_secs 1)"
proof -
  note recv = held_received [OF assms(1-3)]
  obtain r b where chg: "bus_change_visibility (w_now w) (br_queue h) (br_receipt h) (from_secs n) (w_bus w) = (r, b)"
    by fastforce
  have small: "as_secs (from_secs n) \<le> MAX_VISIBILITY_SECS"
    using window_left_small [of "w_now w" "br_received h"] by (simp add: MAX_VISIBILITY_SECS_def n_def)
  have inside: "from_secs n = 0 \<or> (w_now w - br_received h) + from_secs n \<le> VISIBILITY_WINDOW - WINDOW_MARGIN"
  proof (cases "n = 0")
    case False
    then have "0 < window_left (w_now w) (br_received h)" by (simp add: n_def)
    from window_left_inside [OF this recv(2)]
    have "(w_now w - br_received h) + window_left (w_now w) (br_received h) * NANOS
        \<le> VISIBILITY_WINDOW - WINDOW_MARGIN" .
    moreover have "from_secs n \<le> window_left (w_now w) (br_received h) * NANOS"
      unfolding from_secs_def n_def by (rule mult_right_mono) simp_all
    ultimately show ?thesis by linarith
  qed (simp add: from_secs_def)
  then have fits: "from_secs n = 0 \<or> (w_now w - fl_received e) + from_secs n \<le> VISIBILITY_WINDOW"
    using window_fits(1) recv(1) by auto
  have ok: "world_ok w" by (rule account.reachable_inv [OF assms(1)])
  note granted = change_granted [OF assms(3) small fits chg world_okD(1) [OF ok]
      conjunct1 [OF change_keeps(1) [OF ok assms(2) chg]]]
  have "nack_after bus_receipt_api m (w_now w) delay w = receipt_change_visibility h (int n) w"
    by (simp add: nack_after_def bus_receipt_api_def assms(4,5) nack_seconds_min n_def)
  then have res: "res = Ok ()" "w_bus w' = b"
    using assms(6) chg granted by (auto simp: receipt_change_visibility_def split: sum.splits)
  have "w_now w + from_secs n \<le> br_received h + VISIBILITY_WINDOW" if "n \<noteq> 0"
    using inside that recv(2) window_fits(1) due_within by (simp only: from_secs_eq_0) blast
  moreover have "delay \<le> from_secs (whole_seconds delay)" "from_secs (whole_seconds delay) < delay + from_secs 1"
    if "as_secs delay < U64_MAX"
    using whole_seconds_covers [OF that] by (simp_all add: from_secs_def)
  ultimately show ?thesis using granted res by simp
qed


text \<open>A run up to a delivery in hand, and the message handed over with it.\<close>

lemma sample_in_flight:
  "sample_handle \<in> set (w_held sample_taken)"
  "\<exists>e. flight (w_bus sample_taken) (br_queue sample_handle) (br_receipt sample_handle) = Some e \<and>
     st_seq (fl_stored e) = 1"
proof -
  have "w_held sample_taken = [sample_handle]"
    "map_option (st_seq \<circ> fl_stored) (flight (w_bus sample_taken) (br_queue sample_handle) (br_receipt sample_handle)) = Some 1"
    by code_simp+
  then show "sample_handle \<in> set (w_held sample_taken)"
    "\<exists>e. flight (w_bus sample_taken) (br_queue sample_handle) (br_receipt sample_handle) = Some e \<and>
       st_seq (fl_stored e) = 1" by auto
qed

definition sample_message :: "nat option \<Rightarrow> nat option \<Rightarrow> ((string \<times> bytes) list, bus_receipt) sqs_message" where
  "sample_message receives redrive_max = \<lparr>sm_payload = ''hi'', sm_headers = [], sm_receives = receives,
     sm_redrive_max = redrive_max, sm_received = br_received sample_handle, sm_receipt = sample_handle\<rparr>"

theorem nack_after_granted_witness:
  "let run = nack_after bus_receipt_api (sample_message (Some 1) None) (w_now sample_taken) (from_hours 100) sample_taken
   in fst run = Ok () \<and> (\<exists>s. comes_back_in (from_secs 43190) 0 (w_bus (snd run)) ''q'' 2 s)"
proof -
  obtain e where "flight (w_bus sample_taken) (br_queue sample_handle) (br_receipt sample_handle) = Some e"
    using sample_in_flight(2) by blast
  moreover have "min (whole_seconds (from_hours 100)) (window_left (w_now sample_taken) (br_received sample_handle)) = 43190"
    "w_now sample_taken = 0" "br_queue sample_handle = ''q''" "br_receipt sample_handle = 2" by code_simp+
  ultimately show ?thesis
    using nack_after_granted [OF reachable_taken sample_in_flight(1) _ _ _ prod.collapse [symmetric],
        where m = "sample_message (Some 1) None" and delay = "from_hours 100"]
    unfolding Let_def by (auto simp: sample_message_def)
qed

subsection \<open>Discards\<close>

text \<open>C25: a discarded delivery is not lost to the redrive policy. A \<open>nack\<close> without requeue of a
  delivery in flight deletes the message, except the delivery that has used its last receive: that
  one is returned, visible at once with its count, so the next receive carries it to the dead-letter
  queue; where no subscription reads its queue any more the account drops what is returned there.\<close>

theorem discard_spares_the_spent:
  assumes "reachable world_init (world_step x) w" and "h \<in> set (w_held w)"
    and "flight (w_bus w) (br_queue h) (br_receipt h) = Some e" and "sm_receipt m = h"
    and "nack bus_receipt_api m False w = (res, w')"
  shows "res = Ok () \<and> flight (w_bus w') (br_queue h) (br_receipt h) = None \<and>
    map_of (q_visible (queue_of (w_bus w') (br_queue h))) (st_seq (fl_stored e)) =
      (if spent m \<and> q_subscriptions (queue_of (w_bus w) (br_queue h)) \<noteq> 0 then Some (fl_stored e) else None)"
proof -
  note wok = account.reachable_inv [OF assms(1)]
  note ok = world_okD(1) [OF wok]
  show ?thesis
  proof (cases "spent m")
    case True
    then have nacked: "receipt_change_visibility h 0 w = (res, w')"
      using assms(4,5) by (simp add: nack_def bus_receipt_api_def)
    obtain r b where chg: "bus_change_visibility (w_now w) (br_queue h) (br_receipt h) 0 (w_bus w) = (r, b)" by fastforce
    note kept = change_keeps(1) [OF wok assms(2) chg]
    have "r = Ok () \<and> comes_back_in 0 (w_now w) b (br_queue h) (br_receipt h) (fl_stored e)"
      by (rule change_granted [OF assms(3) _ _ chg ok conjunct1 [OF kept]]) (simp_all add: as_secs_def)
    with nacked chg kept True show ?thesis
      by (auto simp: receipt_change_visibility_def comes_back_in_def came_back_def from_secs_def)
  next
    case False
    then have "receipt_delete h w = (res, w')"
      using assms(4,5) by (simp add: nack_def bus_receipt_api_def)
    then have "res = Ok ()" and w': "w_bus w' = bus_delete (br_queue h) (br_receipt h) (w_bus w)"
      by (auto simp: receipt_delete_def)
    moreover have "q_visible (queue_of (w_bus w') (br_queue h)) = q_visible (queue_of (w_bus w) (br_queue h))"
      by (simp add: w' bus_delete_def Let_def queue_of_put split: option.split)
    ultimately show ?thesis
      using False visible_one_place [OF ok assms(3)] bus_delete_keeps(3) [OF ok] by (simp add: w')
  qed
qed

theorem discard_spares_the_spent_witness:
  "\<exists>s. map_of (q_visible (queue_of (w_bus (snd (nack bus_receipt_api (sample_message (Some 3) (Some 3)) False
        sample_taken))) ''q'')) 1 = Some s"
proof -
  obtain e where e: "flight (w_bus sample_taken) (br_queue sample_handle) (br_receipt sample_handle) = Some e"
    "st_seq (fl_stored e) = 1" using sample_in_flight(2) by blast
  have "q_subscriptions (queue_of (w_bus sample_taken) (br_queue sample_handle)) \<noteq> 0" by code_simp
  with discard_spares_the_spent [OF reachable_taken sample_in_flight(1) e(1) _ prod.collapse [symmetric],
      of "sample_message (Some 3) (Some 3)"] e(2)
  show ?thesis by (simp add: sample_message_def spent_def sample_handle_def)
qed

subsection \<open>Handles dropped unsettled\<close>

text \<open>C27: a handle dropped unsettled loses nothing. The drop of a handle held for at most \<open>2^62\<close>
  seconds whose message is in flight neither panics nor is refused: the handle is gone, and its
  message comes back, at once when nothing of its visibility is left, and otherwise after what is
  left, by a timer due no later than twelve hours after its receive. It comes back visible, unless no
  subscription reads its queue any more.\<close>

theorem dropped_handle_comes_back:
  assumes "reachable world_init (world_step x) w" and "h \<in> set (w_held w)"
    and "flight (w_bus w) (br_queue h) (br_receipt h) = Some e" and "br_receipt h \<notin> set (w_settled w)"
    and "w_now w - br_received h \<le> from_secs (2 ^ 62)"
  shows "\<exists>w' left. receipt_drop h w = Some w' \<and> w_held w' = remove1 h (w_held w) \<and>
    remaining_visibility (br_visibility h) (w_now w - br_received h) = Some left \<and>
    comes_back_in left (w_now w) (w_bus w') (br_queue h) (br_receipt h) (fl_stored e) \<and>
    (left \<noteq> 0 \<longrightarrow> w_now w + left \<le> br_received h + VISIBILITY_WINDOW)"
proof -
  note recv = held_received [OF assms(1-3)]
  have ok: "world_ok w" by (rule account.reachable_inv [OF assms(1)])
  have vis: "from_secs 1 \<le> br_visibility h" "br_visibility h \<le> from_hours 12"
    using world_okD(4) [OF ok] assms(2) by (auto simp: handles_ok_def visibility_ok_def)
  obtain left where left: "remaining_visibility (br_visibility h) (w_now w - br_received h) = Some left"
    using remaining_defined [OF vis assms(5)] by blast
  note never = remaining_never_refused [OF left]
  obtain r b where chg: "bus_change_visibility (w_now w) (br_queue h) (br_receipt h) left (w_bus w) = (r, b)"
    by fastforce
  have "comes_back_in left (w_now w) b (br_queue h) (br_receipt h) (fl_stored e)"
    by (rule conjunct2 [OF change_granted [OF assms(3) never(1) _ chg world_okD(1) [OF ok]
        conjunct1 [OF change_keeps(1) [OF ok assms(2) chg]]]])
      (use never(2) recv(1) in simp)
  moreover have "w_now w + left \<le> br_received h + VISIBILITY_WINDOW" if "left \<noteq> 0"
    using never(2) that recv(2) by linarith
  moreover have "receipt_drop h w = Some (w\<lparr>w_bus := tell Consumed b, w_held := remove1 h (w_held w)\<rparr>)"
    using assms(4) left chg by (simp add: receipt_drop_def)
  ultimately show ?thesis using left by (auto simp: comes_back_in_tell)
qed

theorem dropped_handle_comes_back_witness:
  "\<exists>w'. receipt_drop sample_handle sample_taken = Some w' \<and> w_held w' = []"
proof -
  obtain e where e: "flight (w_bus sample_taken) (br_queue sample_handle) (br_receipt sample_handle) = Some e"
    using sample_in_flight(2) by blast
  have "br_receipt sample_handle \<notin> set (w_settled sample_taken)"
    "w_now sample_taken - br_received sample_handle \<le> from_secs (2 ^ 62)"
    "remove1 sample_handle (w_held sample_taken) = []" by code_simp+
  with dropped_handle_comes_back [OF reachable_taken sample_in_flight(1) e] show ?thesis by auto
qed

end
