(* ===== verification/Extension_Properties.thy ===== *)
theory Extension_Properties
  imports Settlement_Properties
begin

section \<open>The visibility a held delivery has\<close>

text \<open>
  The live delivery's extending task keeps inside the twelve hours, keeps ahead of the visibility
  and ends; the in-process handle computes at its drop what the task would have left.
\<close>

text \<open>C29: no extension reaches past the window. Every change the extending task asks for is for at
  least one second, at most the visibility it extends, and ends ten seconds or more before the
  twelve hours from the receive are over.\<close>

theorem extension_stays_in_window:
  assumes "(t, secs) \<in> set (fst (extend_visibility v received naps))" and "received \<le> t"
  shows "0 < secs \<and> secs \<le> as_secs v \<and> t + from_secs secs \<le> received + (VISIBILITY_WINDOW - WINDOW_MARGIN)"
proof -
  from assms(1) have "(t, secs) \<in> set (fst (extend_run (as_secs v) received naps))"
    by (auto simp: extend_visibility_def split: if_splits)
  from extend_run_calls [OF this] have secs: "0 < secs" "secs \<le> as_secs v" "secs \<le> window_left t received" by auto
  have "(t - received) + window_left t received * NANOS \<le> VISIBILITY_WINDOW - WINDOW_MARGIN"
    using window_left_inside [OF _ assms(2)] secs by auto
  moreover have "from_secs secs \<le> window_left t received * NANOS"
    unfolding from_secs_def by (rule mult_right_mono [OF secs(3)]) simp
  ultimately have "(t - received) + from_secs secs \<le> VISIBILITY_WINDOW - WINDOW_MARGIN" by linarith
  from due_within [OF this assms(2) order_refl] secs show ?thesis by simp
qed

theorem extension_stays_in_window_witness:
  "from_secs 43180 + from_secs 10 \<le> 0 + (VISIBILITY_WINDOW - WINDOW_MARGIN)"
proof -
  have "(from_secs 43180, 10) \<in> set (fst (extend_visibility (from_secs 30) 0 [from_secs 43180]))" by code_simp
  from extension_stays_in_window [OF this] show ?thesis by simp
qed

text \<open>The extending task ends. A sleep that ends with no more of the window left than one
  visibility is the last: the task asks for what is left and returns, whatever came before.\<close>

lemma extension_ends:
  assumes "t \<in> set naps" and "window_left t received \<le> as_secs v"
  shows "snd (extend_visibility v received naps)"
  using extend_run_ends [OF assms] by (simp add: extend_visibility_def)

lemma extension_ends_instance:
  "snd (extend_visibility (from_secs 30) 0 [from_secs 15, from_hours 12])"
proof (rule extension_ends)
  show "window_left (from_hours 12) 0 \<le> as_secs (from_secs 30)" by code_simp
qed simp

text \<open>The queue's side of a held delivery: the message is invisible up to a deadline, which each
  change moves, and a change that comes after it comes too late.\<close>

fun in_time :: "instant \<Rightarrow> (instant \<times> nat) list \<Rightarrow> bool" where
  "in_time deadline [] \<longleftrightarrow> True"
| "in_time deadline ((t, secs) # calls) \<longleftrightarrow> t < deadline \<and> in_time (t + from_secs secs) calls"

fun kept_until :: "instant \<Rightarrow> (instant \<times> nat) list \<Rightarrow> instant" where
  "kept_until deadline [] = deadline"
| "kept_until deadline ((t, secs) # calls) = kept_until (t + from_secs secs) calls"

text \<open>The task's sleeps, each over less than one visibility after the one before, or the receive.\<close>

fun woken_within :: "duration \<Rightarrow> instant \<Rightarrow> instant list \<Rightarrow> bool" where
  "woken_within v prev [] \<longleftrightarrow> True"
| "woken_within v prev (t # ts) \<longleftrightarrow> prev \<le> t \<and> t < prev + v \<and> woken_within v t ts"

lemma window_left_reaches:
  "received \<le> t \<Longrightarrow> received + (VISIBILITY_WINDOW - WINDOW_MARGIN) < t + from_secs (window_left t received) + from_secs 1"
  using div_mult_mod_eq [of "43190 * NANOS - (t - received)" NANOS]
    mod_less_divisor [of NANOS "43190 * NANOS - (t - received)"]
  by (simp add: window_left_def window_value as_secs_def from_secs_def NANOS_def)

lemma extend_run_in_time:
  assumes "woken_within (from_secs s) prev naps" and "received \<le> prev" and "s \<le> I32_MAX" and "0 < s"
  shows "in_time (prev + from_secs s) (fst (extend_run s received naps)) \<and>
    (snd (extend_run s received naps) \<longrightarrow> received + (VISIBILITY_WINDOW - WINDOW_MARGIN)
       < kept_until (prev + from_secs s) (fst (extend_run s received naps)) + from_secs 1)"
  using assms(1,2)
proof (induction naps arbitrary: prev)
  case (Cons t ts)
  let ?left = "window_left t received"
  from Cons.prems have t: "prev \<le> t" "t < prev + from_secs s" "woken_within (from_secs s) t ts" "received \<le> t" by auto
  show ?case
  proof (cases "s < ?left")
    case True
    with Cons.IH [OF t(3,4)] t(2) assms(3,4) show ?thesis
      by (auto simp: extension_of_def Let_def i32_or_max_small split: prod.splits)
  next
    case False
    then have "?left \<le> I32_MAX" using assms(3) by simp
    with False t(2) window_left_reaches [OF t(4)] show ?thesis
      by (auto simp: extension_of_def Let_def i32_or_max_small from_secs_def)
  qed
qed simp

text \<open>C30: a delivery held is not handed out again while the queue allows it. The conditions: the
  service takes every change (the task only logs a refused one, and the message then lapses where
  the change before left it), the visibility is whole seconds, and every sleep of the task ends
  before the visibility of the change before it is over. Then no change comes too late, from the
  receive on; and once the task has ended, its last change keeps the message invisible to within a
  second of the end of the window less its margin.\<close>

theorem extension_never_lapses:
  assumes "v = from_secs s" and "0 < s" and "s \<le> I32_MAX" and "woken_within v received naps"
    and "extend_visibility v received naps = (calls, ended)"
  shows "in_time (received + v) calls \<and>
    (if ended then received + (VISIBILITY_WINDOW - WINDOW_MARGIN) < kept_until (received + v) calls + from_secs 1
     else True)"
  using extend_run_in_time [of s received naps received] assms
  by (auto simp: extend_visibility_def)

theorem extension_never_lapses_witness:
  "in_time (0 + from_secs 30) [(from_secs 15, 30), (from_secs 30, 30)]"
proof -
  have run: "extend_visibility (from_secs 30) 0 [from_secs 15, from_secs 30] =
      ([(from_secs 15, 30), (from_secs 30, 30)], False)" by code_simp
  then show ?thesis
    using extension_never_lapses [OF refl _ _ _ run]
    by (simp add: I32_MAX_def duration_defs)
qed

subsection \<open>What a drop leaves, live and in process\<close>

text \<open>The extending task, woken every half visibility for as long as the delivery is held; the
  instant its last change, or the receive, keeps the message invisible to.\<close>

definition extended_to :: "duration \<Rightarrow> instant \<Rightarrow> duration \<Rightarrow> instant" where
  "extended_to v received dur =
     (let p = extension_period v;
          calls = fst (extend_visibility v received (map (\<lambda>i. received + i * p) [1 ..< Suc (dur div p)]))
      in if calls = [] then received + v else fst (last calls) + from_secs (snd (last calls)))"

lemma extend_run_full:
  assumes "\<forall>t \<in> set naps. full < window_left t received" and "0 < full" and "full \<le> I32_MAX"
  shows "extend_run full received (naps @ rest) =
    (map (\<lambda>t. (t, full)) naps @ fst (extend_run full received rest), snd (extend_run full received rest))"
  using assms
  by (induction naps) (auto simp: extension_of_def Let_def i32_or_max_small split: prod.split)

lemma window_left_at: "window_left (r + d) r = (43190 * NANOS - d) div NANOS"
  by (simp add: window_left_def window_value as_secs_def)

text \<open>Walking the wakes one by one: all full, or a first one that is the last.\<close>

lemma extended_to_cases [consumes 3, case_names all stop]:
  fixes v dur r :: nat
  assumes "v = from_secs s" and "1 \<le> s" and "s \<le> 43200"
  defines "p \<equiv> extension_period v"
  defines "n \<equiv> dur div p"
  obtains (all) "\<forall>i \<in> {1 ..< Suc n}. s < window_left (r + i * p) r" "extended_to v r dur = r + n * p + v"
  | (stop) j where "1 \<le> j" "j \<le> n" "\<forall>i \<in> {1 ..< j}. s < window_left (r + i * p) r"
      "window_left (r + j * p) r \<le> s"
      "extended_to v r dur = (if window_left (r + j * p) r = 0 then r + (j - 1) * p + v
         else r + j * p + from_secs (window_left (r + j * p) r))"
proof -
  have s: "0 < s" "s \<le> I32_MAX" using assms(2,3) by (simp_all add: I32_MAX_def)
  let ?wake = "\<lambda>i. r + i * p"
  have calls: "extended_to v r dur = (let cs = fst (extend_run s r (map ?wake [1 ..< Suc n]))
      in if cs = [] then r + v else fst (last cs) + from_secs (snd (last cs)))"
  proof -
    have "v \<noteq> 0" "as_secs v = s" using assms(1,2) by simp_all
    then show ?thesis unfolding extended_to_def extend_visibility_def p_def n_def Let_def
      by (simp del: upt_Suc)
  qed
  have full: "fst (extend_run s r (map ?wake [1 ..< k] @ rest)) =
      map (\<lambda>i. (?wake i, s)) [1 ..< k] @ fst (extend_run s r rest)"
    if "\<forall>i \<in> {1 ..< k}. s < window_left (?wake i) r" for k rest
    using extend_run_full [of "map ?wake [1 ..< k]" s r rest] that s by simp
  show ?thesis
  proof (cases "\<forall>i \<in> {1 ..< Suc n}. s < window_left (?wake i) r")
    case True
    have eq: "fst (extend_run s r (map ?wake [1 ..< Suc n])) = map (\<lambda>i. (?wake i, s)) [1 ..< Suc n]"
      using full [OF True, of "[]"] by (simp del: upt_Suc)
    have "extended_to v r dur = r + n * p + v"
    proof (cases "n = 0")
      case False
      then have "[1 ..< Suc n] = [1 ..< n] @ [n]" by simp
      then show ?thesis unfolding calls eq by (simp add: assms(1) del: upt_Suc)
    qed (simp add: calls)
    with True show ?thesis by (rule all)
  next
    case False
    define j where "j = (LEAST i. i \<in> {1 ..< Suc n} \<and> \<not> s < window_left (?wake i) r)"
    have j: "j \<in> {1 ..< Suc n}" "\<not> s < window_left (?wake j) r"
      using LeastI_ex [of "\<lambda>i. i \<in> {1 ..< Suc n} \<and> \<not> s < window_left (?wake i) r"] False
      unfolding j_def by blast+
    have before: "\<forall>i \<in> {1 ..< j}. s < window_left (?wake i) r"
      using not_less_Least [of _ "\<lambda>i. i \<in> {1 ..< Suc n} \<and> \<not> s < window_left (?wake i) r"] j(1)
      unfolding j_def [symmetric] by fastforce
    have "[1 ..< Suc n] = [1 ..< j] @ j # [Suc j ..< Suc n]"
      using j(1) upt_add_eq_append [of 1 j "Suc n - j"] by (simp add: upt_conv_Cons del: upt_Suc)
    then have "fst (extend_run s r (map ?wake [1 ..< Suc n])) = map (\<lambda>i. (?wake i, s)) [1 ..< j]
        @ fst (extend_run s r (?wake j # map ?wake [Suc j ..< Suc n]))"
      using full [OF before] by simp
    also have "fst (extend_run s r (?wake j # map ?wake [Suc j ..< Suc n])) =
        (if window_left (?wake j) r = 0 then [] else [(?wake j, window_left (?wake j) r)])"
      using j(2) window_left_small [of "?wake j" r] by (simp add: extension_of_def Let_def i32_or_max_small I32_MAX_def)
    finally have eq: "fst (extend_run s r (map ?wake [1 ..< Suc n])) = map (\<lambda>i. (?wake i, s)) [1 ..< j]
        @ (if window_left (?wake j) r = 0 then [] else [(?wake j, window_left (?wake j) r)])" .
    have "extended_to v r dur = (if window_left (?wake j) r = 0 then r + (j - 1) * p + v
         else ?wake j + from_secs (window_left (?wake j) r))"
    proof (cases "j = 1")
      case True
      then show ?thesis unfolding calls eq by (simp add: assms(1))
    next
      case False
      have "[1 ..< j] = [1 ..< j - 1] @ [j - 1]"
      proof -
        have "1 \<le> j" using j(1) by simp
        with False have "1 \<le> j - 1" "Suc (j - 1) = j" by linarith+
        with upt_Suc_append [of 1 "j - 1"] show ?thesis by simp
      qed
      then show ?thesis unfolding calls eq by (simp add: assms(1) del: upt_Suc)
    qed
    with j before show ?thesis by (intro stop) auto
  qed
qed


lemma div_bounds: "(x div NANOS) * NANOS \<le> x" "x < (x div NANOS) * NANOS + NANOS"
  using dividend_less_div_times [OF NANOS_pos, of x] by (simp_all add: div_times_less_eq_dividend add.commute)

lemma extended_to_close:
  fixes v dur r :: nat
  assumes v: "v = from_secs s" and s: "1 \<le> s" "s \<le> 43190"
  defines "p \<equiv> extension_period v"
  defines "d \<equiv> min ((dur div p) * p + v) (43190 * NANOS)"
  shows "extended_to v r dur < r + d + NANOS \<and> r + d < extended_to v r dur + NANOS"
proof -
  let ?n = "dur div p"
  have sN: "v = s * NANOS" by (simp add: v from_secs_def)
  have even: "v = 2 * p" unfolding p_def extension_period_def by (simp add: sN NANOS_def)
  have vmax: "v \<le> 43190 * NANOS" unfolding sN using s(2) by simp
  have room: "i * p + v + NANOS \<le> 43190 * NANOS" if "s < window_left (r + i * p) r" for i
  proof -
    have "Suc s * NANOS \<le> (43190 * NANOS - i * p) div NANOS * NANOS"
      using that unfolding window_left_at by (intro mult_right_mono) simp_all
    then have "Suc s * NANOS \<le> 43190 * NANOS - i * p" using div_bounds(1) order_trans by blast
    moreover have "0 < Suc s * NANOS" by simp
    ultimately show ?thesis unfolding sN by (simp only: mult_Suc)
  qed
  have s': "s \<le> 43200" using s(2) by simp
  show ?thesis
    using v s(1) s'
  proof (cases rule: extended_to_cases [where dur = dur and r = r])
    case all
    have "?n * p + v \<le> 43190 * NANOS"
    proof (cases "?n = 0")
      case False
      then have "s < window_left (r + ?n * p) r" using all(1) unfolding p_def by simp
      from room [OF this] show ?thesis by linarith
    qed (simp add: vmax)
    then show ?thesis using all(2) NANOS_pos unfolding d_def p_def by simp
  next
    case (stop j)
    let ?L = "window_left (r + j * p) r"
    have L: "?L * NANOS \<le> 43190 * NANOS - j * p" "43190 * NANOS - j * p < ?L * NANOS + NANOS"
      unfolding window_left_at by (rule div_bounds)+
    have jn: "j * p \<le> ?n * p" using stop(2) unfolding p_def by (rule mult_right_mono) simp
    have "?L \<noteq> 0"
    proof
      assume "?L = 0"
      with L(2) have late: "43190 * NANOS < j * p + NANOS" by simp
      show False
      proof (cases "j = 1")
        case True
        with late even vmax show False by (simp add: NANOS_def)
      next
        case False
        with stop(1) have "s < window_left (r + (j - 1) * p) r" using stop(3) unfolding p_def by simp
        from room [OF this] have "(j - 1) * p + v + NANOS \<le> 43190 * NANOS" .
        moreover have "j * p = (j - 1) * p + p" using stop(1) by (cases j) simp_all
        ultimately show False using late even by linarith
      qed
    qed
    then have live: "extended_to v r dur = r + j * p + ?L * NANOS"
      using stop(5) unfolding p_def [symmetric] by (simp add: from_secs_def)
    have pos: "0 < ?L * NANOS" using \<open>?L \<noteq> 0\<close> by simp
    have "?L * NANOS \<le> v" unfolding sN using stop(4) unfolding p_def by (rule mult_right_mono) simp
    then have "j * p + ?L * NANOS \<le> ?n * p + v" using jn by linarith
    then show ?thesis using L pos live unfolding d_def by linarith
  qed
qed

text \<open>C28: a handle dropped in process leaves its message invisible as a live delivery would: up to
  the instant the live extending task, woken every half visibility, last extended it to, or no
  longer at all when that instant is past. The two differ by less than the second SQS counts in.
  This is for a visibility of whole seconds from one second to the window less its margin, 43190 of
  them, and a handle held for at most twelve hours; above that the in-process account cuts the first
  visibility too, as the lemma \<open>longest_visibility_is_cut\<close> shows.\<close>

theorem drop_matches_live_extension:
  assumes "v = from_secs s" and "1 \<le> s" and "s \<le> 43190" and "dur \<le> from_hours 12"
  shows "\<exists>left. remaining_visibility v dur = Some left \<and>
    extended_to v received dur < received + dur + left + from_secs 1 \<and>
    received + dur + left < max (extended_to v received dur) (received + dur) + from_secs 1"
proof -
  let ?p = "extension_period v"
  have v: "from_secs 1 \<le> v" "v \<le> from_hours 12" using assms(1-3) by (simp_all add: duration_defs)
  have "dur \<le> from_secs (2 ^ 62)" using assms(4) by (simp add: duration_defs)
  note left = remaining_defined [OF v this]
  have "NANOS \<le> 2 * ?p" using assms(1,2) by (simp add: extension_period_def from_secs_def NANOS_def)
  moreover from this have "?p \<noteq> 0" by (auto simp: NANOS_def)
  moreover have "dur \<le> 43200 * NANOS" using assms(4) by (simp add: from_hours_def from_secs_def)
  ultimately have "dur \<le> 86400 * ?p" "86400 * ?p div ?p = 86400" by simp_all
  then have "dur div ?p \<le> 86400" using div_le_mono [of dur "86400 * ?p" ?p] by simp
  then have "min (dur div ?p) U32_MAX = dur div ?p" by (simp add: U32_MAX_def)
  then have left: "remaining_visibility v dur =
      Some (min ((dur div ?p) * ?p + v) (43190 * NANOS) - dur)"
    using left by (simp add: window_value mult.commute)
  have "from_secs 1 = NANOS" by (simp add: from_secs_def)
  with extended_to_close [OF assms(1-3), of received dur] left show ?thesis
    by (intro exI conjI) (assumption, linarith+)
qed

theorem drop_matches_live_extension_witness:
  "\<exists>left. remaining_visibility (from_secs 30) (from_secs 20) = Some left \<and>
    extended_to (from_secs 30) 0 (from_secs 20) < 0 + from_secs 20 + left + from_secs 1"
  using drop_matches_live_extension [OF refl, of 30 "from_secs 20" 0] by (auto simp: duration_defs)

text \<open>Above the visibility the theorem allows, the drop cuts what no extension has touched: a
  delivery under the longest visibility, dropped as soon as it is received, is left invisible ten
  seconds less than the live one.\<close>

lemma longest_visibility_is_cut:
  "remaining_visibility (from_hours 12) 0 = Some (from_secs 43190) \<and>
   extended_to (from_hours 12) 0 0 = from_secs 43200"
  by code_simp

end
