(* ===== verification/Live_Deliveries.thy ===== *)
theory Live_Deliveries
  imports Subscriber Samples
begin

section \<open>Live deliveries and the tasks that extend them (message.rs)\<close>

text \<open>
  What a live delivery is beside its message: a receipt the service settles it by, and a task that
  keeps it invisible, spawned with the message, aborted when it settles or is dropped. The service
  is the parameter \<open>settle_api\<close> over a world of its own; \<open>lv_extending\<close> are the tasks running.
  \<open>live_step\<close> interleaves receives, the tasks' wakes, settlements and drops of any number of
  deliveries; a call the task has already sent when it is aborted counts as made before the abort.
\<close>

subsection \<open>Definitions\<close>

record 'w settle_api =
  api_delete_message :: "string \<Rightarrow> string \<Rightarrow> 'w \<Rightarrow> (string, unit) rresult \<times> 'w"
  api_change_visibility :: "string \<Rightarrow> string \<Rightarrow> int \<Rightarrow> 'w \<Rightarrow> (string, unit) rresult \<times> 'w"

text \<open>\<open>Hold\<close>, and the task spawned with it.\<close>

record hold =
  hold_visibility :: duration
  hold_received :: instant

record extender =
  ex_receipt :: aws_receipt
  ex_hold :: hold

record 'w live =
  lv_world :: 'w
  lv_extending :: "extender list"

definition aws_receipt_api :: "'w settle_api \<Rightarrow> (aws_receipt, 'w live) receipt_api" where
  "aws_receipt_api api =
     \<lparr>stop_extending_call = (\<lambda>r w. w\<lparr>lv_extending := filter (\<lambda>e. ex_receipt e \<noteq> r) (lv_extending w)\<rparr>),
      delete_call = (\<lambda>r w.
        (let (res, v) = api_delete_message api (ar_queue_url r) (ar_receipt r) (lv_world w)
         in (map_err (\<lambda>e. AckBroker (SdkFailure e)) res, w\<lparr>lv_world := v\<rparr>))),
      visibility_call = (\<lambda>r seconds w.
        (let (res, v) = api_change_visibility api (ar_queue_url r) (ar_receipt r) seconds (lv_world w)
         in (map_err (\<lambda>e. AckBroker (SdkFailure e)) res, w\<lparr>lv_world := v\<rparr>)))\<rparr>"

text \<open>\<open>SqsMessage::new\<close>: the message decoded, its task spawned. A task under a visibility of zero
  ends before its first sleep.\<close>

definition live_message ::
    "'h externals \<Rightarrow> aws_message \<Rightarrow> aws_receipt \<Rightarrow> hold \<Rightarrow> nat option \<Rightarrow> 'w live
      \<Rightarrow> ('h, aws_receipt) sqs_message \<times> 'w live" where
  "live_message x message receipt h redrive_max w =
     (new_message x message receipt (hold_received h) redrive_max,
      if hold_visibility h = 0 then w
      else w\<lparr>lv_extending := lv_extending w @ [\<lparr>ex_receipt = receipt, ex_hold = h\<rparr>]\<rparr>)"

text \<open>The pump's batch: every message the queue returned with a receipt handle.\<close>

fun live_messages ::
    "'h externals \<Rightarrow> string \<Rightarrow> receive_call \<Rightarrow> instant \<Rightarrow> aws_message list \<Rightarrow> 'w live
      \<Rightarrow> ('h, aws_receipt) sqs_message list \<times> 'w live" where
  "live_messages x url c asked [] w = ([], w)"
| "live_messages x url c asked (m # ms) w =
     (case msg_receipt m of
        None \<Rightarrow> live_messages x url c asked ms w
      | Some receipt \<Rightarrow>
          (let (d, w1) = live_message x m \<lparr>ar_queue_url = url, ar_receipt = receipt\<rparr>
                 \<lparr>hold_visibility = held (rq_visibility c), hold_received = asked\<rparr> (rq_redrive_max c) w;
               (ds, w2) = live_messages x url c asked ms w1
           in (d # ds, w2)))"

text \<open>\<open>Drop for SqsMessage\<close>.\<close>

definition live_drop :: "'w settle_api \<Rightarrow> ('h, aws_receipt) sqs_message \<Rightarrow> 'w live \<Rightarrow> 'w live" where
  "live_drop api m w = stop_extending_call (aws_receipt_api api) (sm_receipt m) w"

text \<open>One turn of the extending task after its sleep: the re-arm, whose failure is only logged, and
  the end of the task when it was the last.\<close>

definition extender_turn :: "'w settle_api \<Rightarrow> instant \<Rightarrow> extender \<Rightarrow> 'w live \<Rightarrow> 'w live" where
  "extender_turn api now e w =
     (let x = extension_of (as_secs (hold_visibility (ex_hold e))) (window_left now (hold_received (ex_hold e)));
          r = ex_receipt e;
          w1 = (if 0 < ext_seconds x
                then w\<lparr>lv_world := snd (api_change_visibility api (ar_queue_url r) (ar_receipt r)
                                          (int (i32_or_max (ext_seconds x))) (lv_world w))\<rparr>
                else w)
      in if ext_last x then w1\<lparr>lv_extending := remove1 e (lv_extending w1)\<rparr> else w1)"

text \<open>A settlement stops the task first; what it does then is one call.\<close>

datatype settlement = Acked | Nacked bool | Deferred duration

definition settle_call ::
    "('r, 'w) receipt_api \<Rightarrow> ('h, 'r) sqs_message \<Rightarrow> instant \<Rightarrow> settlement \<Rightarrow> 'w
      \<Rightarrow> (ack_error, unit) rresult \<times> 'w" where
  "settle_call api m now st w =
     (case st of
        Acked \<Rightarrow> delete_call api (sm_receipt m) w
      | Nacked again \<Rightarrow> if again \<or> spent m then visibility_call api (sm_receipt m) 0 w
                         else delete_call api (sm_receipt m) w
      | Deferred delay \<Rightarrow>
          visibility_call api (sm_receipt m) (int (nack_seconds now (sm_received m) delay)) w)"

lemma settlement_in_two:
  "ack api m w = settle_call api m now Acked (stop_extending_call api (sm_receipt m) w)"
  "nack api m again w = settle_call api m now (Nacked again) (stop_extending_call api (sm_receipt m) w)"
  "nack_after api m now delay w = settle_call api m now (Deferred delay) (stop_extending_call api (sm_receipt m) w)"
  by (simp_all add: ack_def nack_def nack_after_def settle_call_def Let_def)

subsection \<open>Steps\<close>

text \<open>A service that records the calls made of it, each with its receipt handle, and answers as
  \<open>verdict\<close> says. Between the calls stand the receives, the settlements begun and the messages
  let go, by settlement or by drop.\<close>

datatype live_event = Took string | Changed string int | Deleted string | Settling string | Let_go string

type_synonym verdict = "string \<Rightarrow> live_event list \<Rightarrow> (string, unit) rresult"

definition recording :: "verdict \<Rightarrow> live_event list settle_api" where
  "recording verdict =
     \<lparr>api_delete_message = (\<lambda>url r es. (verdict r es, es @ [Deleted r])),
      api_change_visibility = (\<lambda>url r secs es. (verdict r es, es @ [Changed r secs]))\<rparr>"

record 'h live_state =
  ls_live :: "live_event list live"
  ls_held :: "('h, aws_receipt) sqs_message list"
  ls_settling :: "(('h, aws_receipt) sqs_message \<times> settlement) list"

definition jot :: "live_event list \<Rightarrow> live_event list live \<Rightarrow> live_event list live" where
  "jot es w = w\<lparr>lv_world := lv_world w @ es\<rparr>"

abbreviation history :: "'h live_state \<Rightarrow> live_event list" where
  "history s \<equiv> lv_world (ls_live s)"

definition handle_of :: "('h, aws_receipt) sqs_message \<Rightarrow> string" where
  "handle_of m = ar_receipt (sm_receipt m)"

inductive live_step :: "'h externals \<Rightarrow> verdict \<Rightarrow> 'h live_state \<Rightarrow> 'h live_state \<Rightarrow> bool" for x verdict where
  receive: "live_messages x url c asked ms (ls_live s) = (batch, w) \<Longrightarrow>
    distinct (map handle_of batch) \<Longrightarrow>
    \<forall>m \<in> set batch. Took (handle_of m) \<notin> set (history s) \<Longrightarrow>
    live_step x verdict s
      (s\<lparr>ls_live := jot (map (\<lambda>m. Took (handle_of m)) batch) w, ls_held := ls_held s @ batch\<rparr>)"
| woken: "e \<in> set (lv_extending (ls_live s)) \<Longrightarrow>
    live_step x verdict s (s\<lparr>ls_live := extender_turn (recording verdict) now e (ls_live s)\<rparr>)"
| settling: "m \<in> set (ls_held s) \<Longrightarrow>
    live_step x verdict s
      (s\<lparr>ls_live := jot [Settling (handle_of m)]
             (stop_extending_call (aws_receipt_api (recording verdict)) (sm_receipt m) (ls_live s)),
         ls_held := remove1 m (ls_held s), ls_settling := (m, st) # ls_settling s\<rparr>)"
| settled: "(m, st) \<in> set (ls_settling s) \<Longrightarrow>
    settle_call (aws_receipt_api (recording verdict)) m now st (ls_live s) = (res, w) \<Longrightarrow>
    live_step x verdict s
      (s\<lparr>ls_live := jot [Let_go (handle_of m)] (live_drop (recording verdict) m w),
         ls_settling := remove1 (m, st) (ls_settling s)\<rparr>)"
| let_drop: "m \<in> set (ls_held s) \<Longrightarrow>
    live_step x verdict s
      (s\<lparr>ls_live := jot [Let_go (handle_of m)] (live_drop (recording verdict) m (ls_live s)),
         ls_held := remove1 m (ls_held s)\<rparr>)"

definition live_init :: "'h live_state \<Rightarrow> bool" where
  "live_init s \<longleftrightarrow> s = \<lparr>ls_live = \<lparr>lv_world = [], lv_extending = []\<rparr>, ls_held = [], ls_settling = []\<rparr>"

subsection \<open>The calls that name a delivery\<close>

fun about :: "live_event \<Rightarrow> string option" where
  "about (Changed r n) = Some r"
| "about (Deleted r) = Some r"
| "about _ = None"

definition named :: "string \<Rightarrow> live_event list \<Rightarrow> nat" where
  "named r es = length (filter (\<lambda>e. about e = Some r) es)"

text \<open>Once a settlement has begun one call at most names the delivery, once it is let go none.\<close>

fun orderly :: "live_event list \<Rightarrow> bool" where
  "orderly [] \<longleftrightarrow> True"
| "orderly (e # es) \<longleftrightarrow> orderly es \<and>
     (case e of Let_go r \<Rightarrow> named r es = 0 | Settling r \<Rightarrow> named r es \<le> 1 | _ \<Rightarrow> True)"

fun uncalled :: "string \<Rightarrow> live_event list \<Rightarrow> bool" where
  "uncalled r [] \<longleftrightarrow> True"
| "uncalled r (e # es) \<longleftrightarrow> uncalled r es \<and> (e = Settling r \<longrightarrow> named r es = 0)"

lemma named_snoc [simp]: "named r (es @ [e]) = named r es + of_bool (about e = Some r)"
  by (simp add: named_def)

lemma named_simps [simp]: "named r [] = 0" "named r (e # es) = of_bool (about e = Some r) + named r es"
  by (simp_all add: named_def)

lemma uncalled_snoc: "uncalled r (es @ [e]) \<longleftrightarrow> uncalled r es \<and> (about e = Some r \<longrightarrow> Settling r \<notin> set es)"
  by (induction es) auto

lemma uncalled_fresh: "Settling r \<notin> set es \<Longrightarrow> uncalled r es"
  by (induction es) auto

lemma orderly_snoc:
  "orderly (es @ [e]) \<longleftrightarrow> orderly es \<and>
     (\<forall>r. about e = Some r \<longrightarrow> Let_go r \<notin> set es \<and> uncalled r es)"
proof (induction es)
  case Nil
  then show ?case by (cases e) auto
next
  case (Cons f es)
  then show ?case by (cases f) (auto split: if_splits)
qed

lemma silent_events:
  assumes "\<forall>e \<in> set fs. about e = None"
  shows "orderly (es @ fs) = orderly es" "uncalled r (es @ fs) = uncalled r es"
  using assms by (induction fs rule: rev_induct)
    (simp_all add: orderly_snoc uncalled_snoc flip: append_assoc)

subsection \<open>The invariant\<close>

definition live_ok :: "'h live_state \<Rightarrow> bool" where
  "live_ok s \<longleftrightarrow> orderly (history s) \<and>
     distinct (map handle_of (ls_held s @ map fst (ls_settling s))) \<and>
     (\<forall>m \<in> set (ls_held s). Took (handle_of m) \<in> set (history s) \<and>
        Settling (handle_of m) \<notin> set (history s) \<and> Let_go (handle_of m) \<notin> set (history s)) \<and>
     (\<forall>m \<in> set (map fst (ls_settling s)). Took (handle_of m) \<in> set (history s) \<and>
        uncalled (handle_of m) (history s) \<and> Let_go (handle_of m) \<notin> set (history s)) \<and>
     (\<forall>r. Settling r \<in> set (history s) \<or> Let_go r \<in> set (history s) \<longrightarrow> Took r \<in> set (history s)) \<and>
     (\<forall>e \<in> set (lv_extending (ls_live s)). \<exists>m \<in> set (ls_held s). sm_receipt m = ex_receipt e)"

lemma live_okD:
  assumes "live_ok s"
  shows "orderly (history s)" "distinct (map handle_of (ls_held s @ map fst (ls_settling s)))"
    "m \<in> set (ls_held s) \<Longrightarrow> Took (handle_of m) \<in> set (history s) \<and>
       Settling (handle_of m) \<notin> set (history s) \<and> Let_go (handle_of m) \<notin> set (history s)"
    "(m, st) \<in> set (ls_settling s) \<Longrightarrow> Took (handle_of m) \<in> set (history s) \<and>
       uncalled (handle_of m) (history s) \<and> Let_go (handle_of m) \<notin> set (history s)"
    "Settling r \<in> set (history s) \<or> Let_go r \<in> set (history s) \<Longrightarrow> Took r \<in> set (history s)"
    "e \<in> set (lv_extending (ls_live s)) \<Longrightarrow> \<exists>m \<in> set (ls_held s). sm_receipt m = ex_receipt e"
  using assms by (force simp: live_ok_def)+

lemma live_messages_keeps:
  "live_messages x url c asked ms w = (batch, w') \<Longrightarrow>
     batch = live_batch x url c asked ms \<and> lv_world w' = lv_world w \<and>
     (\<forall>e \<in> set (lv_extending w'). e \<in> set (lv_extending w) \<or> (\<exists>m \<in> set batch. sm_receipt m = ex_receipt e))"
proof (induction ms arbitrary: w batch w')
  case (Cons m ms)
  show ?case
  proof (cases "msg_receipt m")
    case None
    with Cons show ?thesis by (simp add: live_batch_def List.map_filter_simps)
  next
    case (Some receipt)
    then obtain d w1 ds where d: "live_message x m \<lparr>ar_queue_url = url, ar_receipt = receipt\<rparr>
          \<lparr>hold_visibility = held (rq_visibility c), hold_received = asked\<rparr> (rq_redrive_max c) w = (d, w1)"
      "live_messages x url c asked ms w1 = (ds, w')" "batch = d # ds"
      using Cons.prems by (auto split: prod.splits)
    with Cons.IH [OF d(2)] Some show ?thesis
      by (auto simp: live_message_def live_batch_def List.map_filter_simps new_message_def split: prod.splits if_splits)
  qed
qed (simp add: live_batch_def List.map_filter_simps)

lemma settle_call_recorded:
  assumes "settle_call (aws_receipt_api (recording verdict)) m now st w = (res, w')"
  obtains c where "about c = Some (handle_of m)" "w' = w\<lparr>lv_world := lv_world w @ [c]\<rparr>"
proof -
  have "w' = w\<lparr>lv_world := lv_world w @ [Deleted (handle_of m)]\<rparr> \<or>
      (\<exists>n. w' = w\<lparr>lv_world := lv_world w @ [Changed (handle_of m) n]\<rparr>)"
    using assms by (auto simp: settle_call_def aws_receipt_api_def recording_def handle_of_def
        split: settlement.splits if_splits)
  then show thesis using that by (metis about.simps(1,2))
qed

lemma extender_turn_recorded:
  obtains es where "lv_world (extender_turn (recording verdict) now e w) = lv_world w @ es"
    "set (lv_extending (extender_turn (recording verdict) now e w)) \<subseteq> set (lv_extending w)"
    "es = [] \<or> (\<exists>n. es = [Changed (ar_receipt (ex_receipt e)) n])"
proof -
  let ?x = "extension_of (as_secs (hold_visibility (ex_hold e))) (window_left now (hold_received (ex_hold e)))"
  let ?es = "if 0 < ext_seconds ?x then [Changed (ar_receipt (ex_receipt e)) (int (i32_or_max (ext_seconds ?x)))] else []"
  have "lv_world (extender_turn (recording verdict) now e w) = lv_world w @ ?es"
    "set (lv_extending (extender_turn (recording verdict) now e w)) \<subseteq> set (lv_extending w)"
    by (auto simp: extender_turn_def recording_def Let_def dest: subsetD [OF set_remove1_subset])
  then show thesis by (rule that) simp
qed

lemma stop_recorded:
  "lv_world (stop_extending_call (aws_receipt_api api) r w) = lv_world w"
  "lv_extending (stop_extending_call (aws_receipt_api api) r w) = filter (\<lambda>e. ex_receipt e \<noteq> r) (lv_extending w)"
  by (simp_all add: aws_receipt_api_def)

lemma jot_fields [simp]: "lv_world (jot es w) = lv_world w @ es" "lv_extending (jot es w) = lv_extending w"
  by (simp_all add: jot_def)

lemma live_okI:
  assumes "orderly (history s)"
    and "distinct (map handle_of (ls_held s))" "distinct (map (handle_of \<circ> fst) (ls_settling s))"
    and "\<And>m m' st. m \<in> set (ls_held s) \<Longrightarrow> (m', st) \<in> set (ls_settling s) \<Longrightarrow> handle_of m \<noteq> handle_of m'"
    and "\<And>m. m \<in> set (ls_held s) \<Longrightarrow> Took (handle_of m) \<in> set (history s) \<and>
       Settling (handle_of m) \<notin> set (history s) \<and> Let_go (handle_of m) \<notin> set (history s)"
    and "\<And>m st. (m, st) \<in> set (ls_settling s) \<Longrightarrow> Took (handle_of m) \<in> set (history s) \<and>
       uncalled (handle_of m) (history s) \<and> Let_go (handle_of m) \<notin> set (history s)"
    and "\<And>r. Settling r \<in> set (history s) \<or> Let_go r \<in> set (history s) \<Longrightarrow> Took r \<in> set (history s)"
    and "\<And>e. e \<in> set (lv_extending (ls_live s)) \<Longrightarrow> \<exists>m \<in> set (ls_held s). sm_receipt m = ex_receipt e"
  shows "live_ok s"
  using assms unfolding live_ok_def by (auto simp: disjoint_iff)

lemma live_ok_distinct:
  assumes "live_ok s"
  shows "distinct (map handle_of (ls_held s))" "distinct (map (handle_of \<circ> fst) (ls_settling s))"
    "m \<in> set (ls_held s) \<Longrightarrow> (m', st) \<in> set (ls_settling s) \<Longrightarrow> handle_of m \<noteq> handle_of m'"
  using live_okD(2) [OF assms] by (force simp: disjoint_iff)+

text \<open>A delivery taken out of a list is the only one with its handle.\<close>

lemma remove1_handle:
  assumes "distinct (map f xs)" and "x \<in> set xs"
  shows "distinct (map f (remove1 x xs))" "set (remove1 x xs) = {y \<in> set xs. f y \<noteq> f x}"
proof -
  have "distinct xs" using assms(1) by (simp add: distinct_map)
  then have set: "set (remove1 x xs) = set xs - {x}" by (rule set_remove1_eq)
  show "set (remove1 x xs) = {y \<in> set xs. f y \<noteq> f x}"
    unfolding set using assms by (auto simp: distinct_map inj_on_def)
  show "distinct (map f (remove1 x xs))" using assms(1) by (auto simp: distinct_map set intro: inj_on_subset)
qed

lemma live_ok_receive:
  assumes "live_ok s" and "live_messages x url c asked ms (ls_live s) = (batch, w)"
    and "distinct (map handle_of batch)" and "\<forall>m \<in> set batch. Took (handle_of m) \<notin> set (history s)"
  shows "live_ok (s\<lparr>ls_live := jot (map (\<lambda>m. Took (handle_of m)) batch) w, ls_held := ls_held s @ batch\<rparr>)"
    (is "live_ok ?s")
proof -
  note ok = live_okD [OF assms(1)] and kept = live_messages_keeps [OF assms(2)]
  let ?new = "map (\<lambda>m. Took (handle_of m)) batch"
  have silent: "\<forall>e \<in> set ?new. about e = None" by auto
  have hist: "history ?s = history s @ ?new" using kept by simp
  have new: "Settling (handle_of m) \<notin> set (history s)" "Let_go (handle_of m) \<notin> set (history s)" if "m \<in> set batch" for m
    using assms(4) ok(5) that by blast+
  have apart: "handle_of m \<noteq> handle_of m'" if "m \<in> set batch" "Took (handle_of m') \<in> set (history s)" for m m'
    using assms(4) that by metis
  show ?thesis
  proof (rule live_okI)
    show "orderly (history ?s)" unfolding hist using ok(1) silent by (simp add: silent_events)
    show "distinct (map handle_of (ls_held ?s))"
      using live_ok_distinct(1) [OF assms(1)] assms(3) apart ok(3) by (force simp: disjoint_iff)
    show "distinct (map (handle_of \<circ> fst) (ls_settling ?s))" using live_ok_distinct(2) [OF assms(1)] by simp
    show "handle_of m \<noteq> handle_of m'" if "m \<in> set (ls_held ?s)" "(m', st) \<in> set (ls_settling ?s)" for m m' st
      using that live_ok_distinct(3) [OF assms(1), of m m' st] apart [of m m'] ok(4) [of m' st] by auto
    show "Took (handle_of m) \<in> set (history ?s) \<and> Settling (handle_of m) \<notin> set (history ?s) \<and>
        Let_go (handle_of m) \<notin> set (history ?s)" if "m \<in> set (ls_held ?s)" for m
      unfolding hist using that ok(3) [of m] new [of m] by auto
    show "Took (handle_of m) \<in> set (history ?s) \<and> uncalled (handle_of m) (history ?s) \<and>
        Let_go (handle_of m) \<notin> set (history ?s)" if "(m, st) \<in> set (ls_settling ?s)" for m st
      unfolding hist using that ok(4) [of m st] silent by (auto simp: silent_events)
    show "Took r \<in> set (history ?s)" if "Settling r \<in> set (history ?s) \<or> Let_go r \<in> set (history ?s)" for r
      using that ok(5) [of r] unfolding hist by auto
    show "\<exists>m \<in> set (ls_held ?s). sm_receipt m = ex_receipt e" if "e \<in> set (lv_extending (ls_live ?s))" for e
      using that kept ok(6) [of e] by auto
  qed
qed

text \<open>A call that names a held delivery, before any settlement of it.\<close>

lemma live_ok_woken:
  assumes "live_ok s" and "e \<in> set (lv_extending (ls_live s))"
  shows "live_ok (s\<lparr>ls_live := extender_turn (recording verdict) now e (ls_live s)\<rparr>)" (is "live_ok ?s")
proof -
  note ok = live_okD [OF assms(1)]
  obtain es where es: "history ?s = history s @ es" "set (lv_extending (ls_live ?s)) \<subseteq> set (lv_extending (ls_live s))"
    "es = [] \<or> (\<exists>n. es = [Changed (ar_receipt (ex_receipt e)) n])"
    using extender_turn_recorded [of verdict now e "ls_live s"] by auto
  from ok(6) [OF assms(2)] obtain m where m: "m \<in> set (ls_held s)" "sm_receipt m = ex_receipt e" by blast
  show ?thesis
  proof (cases "es = []")
    case True
    with es ok live_ok_distinct [OF assms(1)] show ?thesis by (intro live_okI) auto
  next
    case False
    with es(3) m(2) obtain n where call: "es = [Changed (handle_of m) n]" by (auto simp: handle_of_def)
    have other: "handle_of m \<noteq> handle_of m'" if "(m', st) \<in> set (ls_settling s)" for m' st
      using live_ok_distinct(3) [OF assms(1) m(1) that] .
    from ok(3) [OF m(1)] have "orderly (history s @ es)" by (simp add: call orderly_snoc ok(1) uncalled_fresh)
    moreover have "uncalled (handle_of m') (history s @ es)" if "(m', st) \<in> set (ls_settling s)" for m' st
      using ok(4) [OF that] other [OF that] by (auto simp: call uncalled_snoc)
    ultimately show ?thesis
      using es(2) ok(3-6) live_ok_distinct [OF assms(1)] by (intro live_okI) (auto simp: es(1) [simplified] call)
  qed
qed

lemma live_ok_settling:
  assumes "live_ok s" and "m \<in> set (ls_held s)"
  shows "live_ok (s\<lparr>ls_live := jot [Settling (handle_of m)]
             (stop_extending_call (aws_receipt_api (recording verdict)) (sm_receipt m) (ls_live s)),
         ls_held := remove1 m (ls_held s), ls_settling := (m, st) # ls_settling s\<rparr>)" (is "live_ok ?s")
proof -
  note ok = live_okD [OF assms(1)] and dist = live_ok_distinct [OF assms(1)]
  note rest = remove1_handle [OF dist(1) assms(2)]
  have hist: "history ?s = history s @ [Settling (handle_of m)]" by (simp add: stop_recorded)
  show ?thesis
  proof (rule live_okI)
    show "orderly (history ?s)" unfolding hist by (simp add: orderly_snoc ok(1))
    show "distinct (map handle_of (ls_held ?s))" using rest(1) by simp
    show "distinct (map (handle_of \<circ> fst) (ls_settling ?s))" using dist(2) dist(3) [OF assms(2)] by force
    show "handle_of m1 \<noteq> handle_of m'" if "m1 \<in> set (ls_held ?s)" "(m', st') \<in> set (ls_settling ?s)" for m1 m' st'
      using that rest(2) dist(3) [of m1 m' st'] by auto
    show "Took (handle_of m1) \<in> set (history ?s) \<and> Settling (handle_of m1) \<notin> set (history ?s) \<and>
        Let_go (handle_of m1) \<notin> set (history ?s)" if "m1 \<in> set (ls_held ?s)" for m1
      unfolding hist using that rest(2) ok(3) [of m1] by auto
    show "Took (handle_of m1) \<in> set (history ?s) \<and> uncalled (handle_of m1) (history ?s) \<and>
        Let_go (handle_of m1) \<notin> set (history ?s)" if "(m1, st1) \<in> set (ls_settling ?s)" for m1 st1
      unfolding hist using that ok(3) [OF assms(2)] ok(4) [of m1 st1] by (auto simp: uncalled_snoc uncalled_fresh)
    show "Took r \<in> set (history ?s)" if "Settling r \<in> set (history ?s) \<or> Let_go r \<in> set (history ?s)" for r
      using that ok(5) [of r] ok(3) [OF assms(2)] unfolding hist by auto
    show "\<exists>m1 \<in> set (ls_held ?s). sm_receipt m1 = ex_receipt e" if "e \<in> set (lv_extending (ls_live ?s))" for e
      using that ok(6) [of e] by (auto simp: stop_recorded intro!: in_set_remove1 [THEN iffD2] bexI)
  qed
qed

text \<open>The end of a delivery's life: what is held or settling loses it, the history notes it.\<close>

lemma live_ok_let_go:
  assumes "live_ok s" and "m \<in> set (ls_held s) \<or> (m, st) \<in> set (ls_settling s)"
    and "lv_world w = history s @ es" and "es = [] \<or> (\<exists>c. about c = Some (handle_of m) \<and> es = [c] \<and> (m, st) \<in> set (ls_settling s))"
    and "set (lv_extending w) \<subseteq> set (lv_extending (ls_live s))"
  shows "live_ok \<lparr>ls_live = jot [Let_go (handle_of m)] (live_drop (recording verdict) m w),
     ls_held = (if m \<in> set (ls_held s) then remove1 m (ls_held s) else ls_held s),
     ls_settling = (if m \<in> set (ls_held s) then ls_settling s else remove1 (m, st) (ls_settling s))\<rparr>" (is "live_ok ?s")
proof -
  note ok = live_okD [OF assms(1)] and dist = live_ok_distinct [OF assms(1)]
  have hist: "history ?s = (history s @ es) @ [Let_go (handle_of m)]"
    using assms(3) by (simp add: live_drop_def stop_recorded)
  have held: "distinct (map handle_of (ls_held ?s))" "\<And>m1. m1 \<in> set (ls_held ?s) \<Longrightarrow> m1 \<in> set (ls_held s) \<and> handle_of m1 \<noteq> handle_of m"
    and gone: "m1 \<in> set (ls_held s) \<Longrightarrow> handle_of m1 \<noteq> handle_of m \<Longrightarrow> m1 \<in> set (ls_held ?s)" for m1
    using remove1_handle [OF dist(1), of m] dist(1) dist(3) [of _ m st] assms(2) by (auto split: if_splits)
  have going: "distinct (map (handle_of \<circ> fst) (ls_settling ?s))"
    "\<And>m1 st1. (m1, st1) \<in> set (ls_settling ?s) \<Longrightarrow> (m1, st1) \<in> set (ls_settling s) \<and> handle_of m1 \<noteq> handle_of m"
    using remove1_handle [OF dist(2), of "(m, st)"] dist(2) dist(3) [of m, THEN not_sym] assms(2) by (auto split: if_splits)
  have took: "Took (handle_of m) \<in> set (history s)" using assms(2) ok(3,4) by blast
  have calls: "orderly (history s @ es)"
    using assms(4) ok(1) ok(4) [of m st] by (auto simp: orderly_snoc)
  have silent: "\<forall>r. c = Took r \<or> c = Settling r \<or> c = Let_go r \<longrightarrow> c \<notin> set es" for c
    using assms(4) by auto
  have other: "uncalled (handle_of m1) (history s @ es)" if "(m1, st1) \<in> set (ls_settling ?s)" for m1 st1
    using assms(4) ok(4) [of m1 st1] going(2) [OF that] by (auto simp: uncalled_snoc)
  show ?thesis
  proof (rule live_okI)
    show "orderly (history ?s)" unfolding hist using calls by (simp add: orderly_snoc del: append_assoc)
    show "distinct (map handle_of (ls_held ?s))" by (rule held(1))
    show "distinct (map (handle_of \<circ> fst) (ls_settling ?s))" by (rule going(1))
    show "handle_of m1 \<noteq> handle_of m'" if "m1 \<in> set (ls_held ?s)" "(m', st') \<in> set (ls_settling ?s)" for m1 m' st'
      using dist(3) held(2) [OF that(1)] going(2) [OF that(2)] by blast
    show "Took (handle_of m1) \<in> set (history ?s) \<and> Settling (handle_of m1) \<notin> set (history ?s) \<and>
        Let_go (handle_of m1) \<notin> set (history ?s)" if "m1 \<in> set (ls_held ?s)" for m1
      unfolding hist using held(2) [OF that] ok(3) [of m1] silent by auto
    show "Took (handle_of m1) \<in> set (history ?s) \<and> uncalled (handle_of m1) (history ?s) \<and>
        Let_go (handle_of m1) \<notin> set (history ?s)" if "(m1, st1) \<in> set (ls_settling ?s)" for m1 st1
      unfolding hist using going(2) [OF that] ok(4) [of m1 st1] other [OF that] silent
      by (auto simp: uncalled_snoc simp del: append_assoc)
    show "Took r \<in> set (history ?s)" if "Settling r \<in> set (history ?s) \<or> Let_go r \<in> set (history ?s)" for r
      using that ok(5) [of r] took silent unfolding hist by auto
    show "\<exists>m1 \<in> set (ls_held ?s). sm_receipt m1 = ex_receipt e" if "e \<in> set (lv_extending (ls_live ?s))" for e
    proof -
      from that assms(5) have e: "e \<in> set (lv_extending (ls_live s))" "ex_receipt e \<noteq> sm_receipt m"
        by (auto simp: live_drop_def stop_recorded)
      from ok(6) [OF e(1)] obtain m1 where m1: "m1 \<in> set (ls_held s)" "sm_receipt m1 = ex_receipt e" by blast
      have "handle_of m1 \<noteq> handle_of m"
      proof
        assume same: "handle_of m1 = handle_of m"
        show False
        proof (cases "m \<in> set (ls_held s)")
          case True
          with dist(1) m1(1) same have "m1 = m" by (auto simp: distinct_map dest: inj_onD)
          with m1(2) e(2) show False by simp
        next
          case False
          with assms(2) dist(3) [OF m1(1)] same show False by blast
        qed
      qed
      with gone m1 show ?thesis by blast
    qed
  qed
qed

lemma live_ok_step:
  assumes "live_ok s" and "live_step x verdict s s'"
  shows "live_ok s'"
  using assms(2)
proof cases
  case (receive url c asked ms batch w)
  then show ?thesis using live_ok_receive [OF assms(1)] by simp
next
  case (woken e now)
  then show ?thesis using live_ok_woken [OF assms(1)] by simp
next
  case (settling m st)
  then show ?thesis using live_ok_settling [OF assms(1)] by simp
next
  case (settled m st now res w)
  obtain c where c: "about c = Some (handle_of m)" "w = (ls_live s)\<lparr>lv_world := history s @ [c]\<rparr>"
    using settled(3) by (rule settle_call_recorded)
  have "m \<notin> set (ls_held s)" using live_ok_distinct(3) [OF assms(1) _ settled(2)] by blast
  then show ?thesis
    using live_ok_let_go [OF assms(1) disjI2 [OF settled(2)], of w "[c]" verdict] c settled(1,2)
    by (cases s) simp
next
  case (let_drop m)
  then show ?thesis
    using live_ok_let_go [OF assms(1) disjI1 [OF let_drop(2)], where w = "ls_live s" and es = "[]" and verdict = verdict]
    by (cases s) simp
qed

interpretation live_deliveries: safe_system live_init "live_step x verdict" live_ok for x verdict
proof
  show "live_init s \<Longrightarrow> live_ok s" for s :: "'a live_state" by (simp add: live_init_def live_ok_def)
  show "live_ok s \<Longrightarrow> live_step x verdict s s' \<Longrightarrow> live_ok s'" for s s' :: "'a live_state" by (rule live_ok_step)
qed

subsection \<open>One call after a settlement has begun\<close>

text \<open>C26: a delivery let go is left alone. Whatever deliveries are received, held, settled and
  dropped in any interleaving, and whatever the service answers: once a settlement of a delivery
  has begun, one call at most names it, its own; once it is settled or dropped, none does; and
  every extending task that runs is that of a delivery still held.\<close>

theorem let_go_is_left_alone:
  assumes "reachable live_init (live_step x verdict) s"
  shows "orderly (history s) \<and>
    list_all (\<lambda>e. list_ex (\<lambda>m. sm_receipt m = ex_receipt e) (ls_held s)) (lv_extending (ls_live s))"
  using live_okD(1,6) [OF live_deliveries.reachable_inv [OF assms]] by (auto simp: list_all_iff list_ex_iff)

subsection \<open>The task alone\<close>

text \<open>A task's turns, at the instants its sleeps end at, for as long as it runs: they ask for the
  changes \<open>extend_visibility\<close> lists, in order, and the task has ended when that says so. What theory
  Extension\_Properties shows of that list is then what a task left alone does to the service.\<close>

fun task_turns :: "'w settle_api \<Rightarrow> extender \<Rightarrow> instant list \<Rightarrow> 'w live \<Rightarrow> 'w live" where
  "task_turns api e [] w = w"
| "task_turns api e (now # ts) w =
     (if e \<in> set (lv_extending w) then task_turns api e ts (extender_turn api now e w) else w)"

lemma task_turns_ended: "e \<notin> set (lv_extending w) \<Longrightarrow> task_turns api e ts w = w"
  by (cases ts) simp_all

lemma task_turns_run:
  assumes "extend_run (as_secs (hold_visibility (ex_hold e))) (hold_received (ex_hold e)) ts = (calls, ended)"
    and "distinct (lv_extending w)" and "e \<in> set (lv_extending w)"
  shows "task_turns (recording verdict) e ts w =
    w\<lparr>lv_world := lv_world w @ map (\<lambda>(t, s). Changed (ar_receipt (ex_receipt e)) (int s)) calls,
      lv_extending := (if ended then remove1 e (lv_extending w) else lv_extending w)\<rparr>"
  using assms
proof (induction ts arbitrary: w calls)
  case (Cons t ts)
  let ?r = "ar_receipt (ex_receipt e)"
  let ?x = "extension_of (as_secs (hold_visibility (ex_hold e))) (window_left t (hold_received (ex_hold e)))"
  let ?now = "if 0 < ext_seconds ?x then [(t, i32_or_max (ext_seconds ?x))] else []"
  let ?w = "w\<lparr>lv_world := lv_world w @ map (\<lambda>(t, s). Changed ?r (int s)) ?now\<rparr>"
  have turn: "extender_turn (recording verdict) t e w =
      (if ext_last ?x then ?w\<lparr>lv_extending := remove1 e (lv_extending w)\<rparr> else ?w)"
    by (simp add: extender_turn_def recording_def Let_def)
  show ?case
  proof (cases "ext_last ?x")
    case True
    with Cons.prems have "calls = ?now" "ended" by (simp_all add: Let_def)
    moreover have "e \<notin> set (remove1 e (lv_extending w))" using Cons.prems(2) by simp
    ultimately show ?thesis using Cons.prems(3) True by (simp add: turn task_turns_ended)
  next
    case False
    obtain rest where rest: "extend_run (as_secs (hold_visibility (ex_hold e))) (hold_received (ex_hold e)) ts = (rest, ended)"
      "calls = ?now @ rest" using Cons.prems(1) False by (auto simp: Let_def split: prod.splits)
    from Cons.IH [OF rest(1), of ?w] Cons.prems(2,3) False rest(2) show ?thesis
      by (simp add: turn)
  qed
qed simp

subsection \<open>A run\<close>

text \<open>A delivery received, extended once, and acknowledged.\<close>

definition sample_verdict :: verdict where "sample_verdict r es = Ok ()"

definition sample_call :: receive_call where
  "sample_call = \<lparr>rq_size = 10, rq_wait = 20, rq_visibility = Requested (from_secs 30), rq_redrive_max = None\<rparr>"

definition sample_delivery :: "((string \<times> bytes) list, aws_receipt) sqs_message" where
  "sample_delivery = new_message sample_externals (wire_message (sample_outbound ''hi'' None) (Some 4) (Some 1))
     \<lparr>ar_queue_url = ''u'', ar_receipt = ''4''\<rparr> 0 None"

definition sample_extender :: extender where
  "sample_extender = \<lparr>ex_receipt = \<lparr>ar_queue_url = ''u'', ar_receipt = ''4''\<rparr>,
     ex_hold = \<lparr>hold_visibility = from_secs 30, hold_received = 0\<rparr>\<rparr>"

definition sample_live :: "live_event list \<Rightarrow> extender list \<Rightarrow> bool \<Rightarrow> bool \<Rightarrow> (string \<times> bytes) list live_state" where
  "sample_live es ext hold settling =
     \<lparr>ls_live = \<lparr>lv_world = es, lv_extending = ext\<rparr>, ls_held = (if hold then [sample_delivery] else []),
      ls_settling = (if settling then [(sample_delivery, Acked)] else [])\<rparr>"

lemma sample_live_facts:
  "live_messages sample_externals ''u'' sample_call 0 [wire_message (sample_outbound ''hi'' None) (Some 4) (Some 1)]
     (\<lparr>lv_world = [], lv_extending = []\<rparr> :: live_event list live) = ([sample_delivery], \<lparr>lv_world = [], lv_extending = [sample_extender]\<rparr>)"
  "handle_of sample_delivery = ''4''" "sm_receipt sample_delivery = ex_receipt sample_extender"
  "extender_turn (recording sample_verdict) (from_secs 15) sample_extender
     \<lparr>lv_world = [Took ''4''], lv_extending = [sample_extender]\<rparr> =
   \<lparr>lv_world = [Took ''4'', Changed ''4'' 30], lv_extending = [sample_extender]\<rparr>"
  by code_simp+

lemma reachable_live:
  "reachable live_init (live_step sample_externals sample_verdict)
     (sample_live [Took ''4'', Changed ''4'' 30, Settling ''4'', Deleted ''4'', Let_go ''4''] [] False False)"
proof -
  let ?R = "reachable live_init (live_step sample_externals sample_verdict)"
  have 0: "?R (sample_live [] [] False False)" by (rule reachable.start) (simp add: live_init_def sample_live_def)
  have 1: "?R (sample_live [Took ''4''] [sample_extender] True False)"
    using reachable.move [OF 0 live_step.receive [where s = "sample_live [] [] False False" and batch = "[sample_delivery]"
          and url = "''u''" and c = sample_call and asked = 0 and w = "\<lparr>lv_world = [], lv_extending = [sample_extender]\<rparr>"
          and ms = "[wire_message (sample_outbound ''hi'' None) (Some 4) (Some 1)]"]]
      sample_live_facts(1,2) by (simp add: sample_live_def jot_def del: live_messages.simps)
  have 2: "?R (sample_live [Took ''4'', Changed ''4'' 30] [sample_extender] True False)"
    using reachable.move [OF 1 live_step.woken [where e = sample_extender and now = "from_secs 15"]] sample_live_facts(4)
    by (simp add: sample_live_def)
  have 3: "?R (sample_live [Took ''4'', Changed ''4'' 30, Settling ''4''] [] False True)"
    using reachable.move [OF 2 live_step.settling [where m = sample_delivery and st = Acked]] sample_live_facts(2,3)
    by (simp add: sample_live_def jot_def aws_receipt_api_def)
  show ?thesis
    using reachable.move [OF 3 live_step.settled [where m = sample_delivery and st = Acked]] sample_live_facts(2)
    by (simp add: sample_live_def jot_def settle_call_def aws_receipt_api_def recording_def live_drop_def
        handle_of_def)
qed

theorem let_go_is_left_alone_witness:
  "orderly [Took ''4'', Changed ''4'' 30, Settling ''4'', Deleted ''4'', Let_go ''4'']"
  using let_go_is_left_alone [OF reachable_live] by (simp add: sample_live_def)

end
