(* ===== verification/Spec2Isabelle.thy ===== *)
theory Spec2Isabelle
  imports Life_History Repeats Group_Order Topic_Delivery Acceptance Extension_Properties Live_Deliveries
begin

text \<open>
  Verification development of the crate ruststream-sqs-sns (crates/ruststream-sqs-sns/src), a
  broker over Amazon SQS and SNS with a second transport, the in-process account, that stands in
  for the services in tests.

  \<^bold>\<open>How the program is put together.\<close> A broker (broker.rs) connects once and fills a cell with its
  core: the live transport (name resolution and the SDK's calls) or the in-process account
  (in\_process/bus.rs). Subscribers (subscriber.rs live, in\_process/deliveries.rs in process) hand
  over messages (message.rs) whose handles settle them; publishers (publisher.rs, sns.rs) frame a
  payload and its headers (message.rs) and send them over whichever transport the cell holds. While
  a live delivery is held a task extends its visibility; an in-process handle computes at its drop
  what the task would have left. Topics deliver to queues over a grant in the queue's access policy
  (queue\_policy.rs). A thread sends through one set of clients per broker (clients.rs). The test
  harness injects messages and asks where publishes went (in\_process/mod.rs, in\_process/routing.rs).

  \<^bold>\<open>Theories and the code they model.\<close>
    \<^item> Prelude, Text: what the crate uses of the language and its standard library (\<open>Result\<close>, hash
      and ordered maps behind the locales \<open>std_map\<close> and \<open>std_ordered_map\<close>, \<open>Duration\<close>, UTF-8, numbers).
    \<^item> Errors: error.rs. Naming: \<open>resource_name\<close>, keys and URLs (broker.rs, in\_process/bus.rs).
      Publisher: options and the FIFO ladder (publisher.rs). Message: encoding, decoding, settlement,
      the extending task (message.rs). Queue\_Descriptor: queue.rs.
    \<^item> Bus: in\_process/bus.rs, every method a function on the account's state; timers are pending
      callbacks of that state. Deliveries and Receive\_Loop: in\_process/deliveries.rs. In\_Process:
      in\_process/mod.rs. Routing: in\_process/routing.rs.
    \<^item> Aws and Broker: broker.rs. Queue\_Policy: queue\_policy.rs. Subscriber: subscriber.rs.
      Live\_Deliveries: live settlement and the extending tasks (message.rs). Clients: clients.rs. Publishing: publisher.rs and sns.rs over a connected cell.
      Describe: broker/describe.rs.
    \<^item> Samples, Instances: concrete runs and external functions the properties are applied to.

  \<^bold>\<open>What the lemmas show.\<close>
    \<^item> Framing: encoding a message refuses what is documented and nothing else; decoding inverts it.
    \<^item> Bus\_Laws: the account's queues are a keyed store (locale \<open>keyed_store\<close>), and the receive loop,
      which searches from the front for every message, is one walk over the visible messages.
    \<^item> Bus\_Inv: what each operation keeps of four readings of the account: queues in order and each
      message in one place, the harness's count, the messages in flight, the wake-ups.
    \<^item> Account\_System: the account with its clock, handles and subscriptions as a transition system
      (\<open>world_step\<close>, interleaving every operation, timers included); \<open>world_ok\<close> is its invariant, an
      interpretation of the locale \<open>safe_system\<close>. What every method of the account keeps is an
      invariant of that system too (locale \<open>bus_invariant\<close>, a sublocale of \<open>safe_system\<close>).
    \<^item> Account\_Properties: no message in two places, none stranded in flight, the harness's count,
      no lost wake-up. Life\_Cycle: what the account promises of one message as a state machine over
      the places it can be in, and that every step is a move of it, so nothing is lost but by a
      deletion or on a queue nobody reads. Life\_History: over runs of any length, a deleted message
      never comes back and a redelivery is the message sent. Receive\_Properties: one receive hands over the first
      messages it may, in order, and moves spent ones to the dead-letter queue. Receive\_Loop: the
      loop around it suspends or returns, except on a queue that is its own dead-letter queue,
      where it spins once all it could hand over has used its receives; and when it returns at once.
      Arrival\_Properties: the deduplication windows refine a record that forgets nothing; what
      publishes add. Repeats: a send repeated inside the window adds nothing, whatever came between.
      Settlement\_Properties: \<open>nack\<close>, \<open>nack_after\<close>, stale receipts, dropped
      handles, over what it is for a message to come back (\<open>comes_back_in\<close>). Extension\_Properties: the extending task stays in the window and ahead of the
      visibility; the in-process drop agrees with it. Live\_Deliveries: over every interleaving of
      receives, wakes, settlements and drops, a delivery let go is left alone; a task left alone
      asks for exactly the changes \<open>extend_visibility\<close> lists. Wire\_Properties: names, FIFO settings, bounds
      and the round trip of the wire format. Delivery\_Properties: a run of sends is handled
      in the order it was sent, from framing to decoding, over the locale \<open>end_of_line\<close>: what a
      producer is promised of a queue. Topic\_Delivery: the same for a run of publishes at every
      subscriber, a second interpretation of that locale; its topics' subscriptions are an
      interpretation of \<open>bus_invariant\<close>. Group\_Order: a FIFO group is handed over in order, over
      another one. Acceptance: which messages the account takes, exactly, and that a send over AWS
      is the send the account gets. Transport\_Properties: closed brokers, declarations,
      caches, the policy merge, what a live subscription hands over and asks for, one set of clients
      per thread.

  \<^bold>\<open>Bounds, fuel and time.\<close> Instants and durations are natural numbers of nanoseconds; a sum past the
  longest \<open>Duration\<close> is a panic (\<open>None\<close>) where the code can reach it. Receive counts saturate at 32
  bits, the routing turn is a 64-bit word, \<open>whole_seconds\<close> wraps at 64 bits as a release build does.
  The receive loop's inner recursion ends because every turn takes a visible message; the loop
  around it and the streams are \<open>partial_function\<close>s over the list of what happens at each
  suspension, so that spinning is the value \<open>None\<close>. The pump and the extending task run over lists
  of what their environment answers, turn by turn; an abort is the end of the list. No other fuel
  is used.

  \<^bold>\<open>Parameters.\<close> Code outside the repository is an argument: the framework's header map, the base64
  engine and the SDK's attribute builder (\<open>externals\<close>, whose documented laws are \<open>externals_ok\<close>,
  met by \<open>sample_externals\<close>), the SDK's calls over a world of their own (\<open>aws_api\<close>, \<open>send_api\<close>,
  \<open>settle_api\<close>), the JSON parser and printer (\<open>json_codec\<close>), the SDK's configuration and endpoint
  rules. Clocks, process ids and the counter behind generated ids are passed in.

  \<^bold>\<open>Not modelled.\<close> \<open>Debug\<close> implementations, logging and the crate's module declarations keep no
  state. Marker and builder traits of the framework crate, the AsyncAPI schema it derives, and the
  mutual exclusion of the account's lock (each method holds it throughout, so methods are the
  steps) are outside the model. The interleaving inside one live call is that of the SDK's runtime.
  Examples, benchmarks, tests, scripts and the website hold no logic of the crate.
\<close>

end
